(* ===== verification/Prelude.thy ===== *)
theory Prelude
  imports Main "HOL-Library.List_Lexorder" "HOL-Library.Sublist" "HOL-Library.Code_Target_Nat" "HOL-Library.AList"
begin

text \<open>
  Shared vocabulary of the development.

  A string of the program is a list of code numbers: UTF-16 code units for the JavaScript
  bundle under \<open>site/assets/javascripts/lunr\<close> and Unicode code points for the Python
  package \<open>app\<close>.  Both languages index, slice and compare strings by these numbers, so
  one type serves; \<open>u ''abc''\<close> writes an ASCII literal of it.  The theory holds the
  string operations that both halves call (search, split, join, substring) with the lemmas the
  components share.
\<close>

named_theorems list_evals \<open>equations that evaluate the string operations on literals\<close>

section \<open>Strings as lists of code numbers\<close>

type_synonym ustr = "nat list"

definition u :: "string \<Rightarrow> ustr" where
  "u s = map of_char s"

lemma u_inject [simp]: "u s = u t \<longleftrightarrow> s = t"
  unfolding u_def by (simp add: inj_map_eq_map inj_def)

lemma u_Nil [simp]: "u [] = []" and u_eq_Nil [simp]: "u s = [] \<longleftrightarrow> s = []"
  and Nil_eq_u [simp]: "[] = u s \<longleftrightarrow> s = []"
  by (auto simp: u_def)

lemma length_u [simp]: "length (u s) = length s"
  by (simp add: u_def)

lemmas [list_evals] = u_def

lemma length_dropWhile_less_Suc [termination_simp, simp]:
  "length (dropWhile P xs) < Suc (length xs)"
  by (simp add: le_imp_less_Suc length_dropWhile_le)

section \<open>Searching\<close>

text \<open>
  \<open>index_from pat s i\<close> is JavaScript's \<open>s.indexOf(pat, i)\<close> and Python's
  \<open>s.find(pat, i)\<close> for \<open>i\<close> at most the length of \<open>s\<close>: the least position from
  \<open>i\<close> on at which \<open>pat\<close> occurs, and \<open>-1\<close> when there is none.
\<close>

function index_from :: "'a list \<Rightarrow> 'a list \<Rightarrow> nat \<Rightarrow> int" where
  "index_from pat s i =
     (if length s < i then -1
      else if take (length pat) (drop i s) = pat then int i
      else index_from pat s (Suc i))"
  by pat_completeness auto
termination
  by (relation "measure (\<lambda>(pat, s, i). Suc (length s) - i)") auto

declare index_from.simps [simp del]

definition occurs_at :: "'a list \<Rightarrow> 'a list \<Rightarrow> nat \<Rightarrow> bool" where
  "occurs_at pat s i \<longleftrightarrow> i \<le> length s \<and> take (length pat) (drop i s) = pat"

lemma occurs_at_bound:
  assumes "occurs_at pat s i"
  shows "i + length pat \<le> length s"
proof -
  have "length (take (length pat) (drop i s)) = length pat"
    using assms by (simp add: occurs_at_def)
  then show ?thesis
    using assms by (auto simp: occurs_at_def)
qed

lemma occurs_at_split: "occurs_at pat s i \<Longrightarrow> s = take i s @ pat @ drop (i + length pat) s"
  unfolding occurs_at_def by (metis add.commute append_take_drop_id drop_drop)

lemma index_from_cases:
  "(\<exists>j. index_from pat s i = int j \<and> i \<le> j \<and> occurs_at pat s j \<and>
        (\<forall>k. i \<le> k \<and> k < j \<longrightarrow> \<not> occurs_at pat s k))
   \<or> (index_from pat s i = -1 \<and> (\<forall>k \<ge> i. \<not> occurs_at pat s k))"
proof (induction pat s i rule: index_from.induct)
  case (1 pat s i)
  show ?case
  proof (cases "length s < i \<or> take (length pat) (drop i s) = pat")
    case True
    then show ?thesis
      by (auto simp: index_from.simps [of pat s i] occurs_at_def)
  next
    case False
    then have step: "index_from pat s i = index_from pat s (Suc i)"
      and here: "\<not> occurs_at pat s i"
      by (auto simp: index_from.simps [of pat s i] occurs_at_def)
    from False "1.IH" show ?thesis
      unfolding step using here
      by (metis Suc_leI le_neq_implies_less le_eq_less_or_eq Suc_leD)
  qed
qed

lemma index_from_ge: "-1 \<le> index_from pat s i"
  using index_from_cases [of pat s i] by auto

lemma index_from_some:
  assumes "0 \<le> index_from pat s i"
  shows "int i \<le> index_from pat s i" and "occurs_at pat s (nat (index_from pat s i))"
    and "\<And>k. i \<le> k \<Longrightarrow> int k < index_from pat s i \<Longrightarrow> \<not> occurs_at pat s k"
  using index_from_cases [of pat s i] assms by auto

lemma index_from_none: "index_from pat s i < 0 \<Longrightarrow> i \<le> k \<Longrightarrow> \<not> occurs_at pat s k"
  using index_from_cases [of pat s i] by auto

text \<open>Searching for one character.\<close>

lemma occurs_at_single: "occurs_at [c] s k \<longleftrightarrow> k < length s \<and> s ! k = c"
  by (cases "k < length s") (auto simp: occurs_at_def take_Suc_conv_app_nth hd_drop_conv_nth take_Suc)

lemma index_char_at:
  assumes "0 \<le> index_from [c] s p"
  shows "nat (index_from [c] s p) < length s" and "s ! nat (index_from [c] s p) = c"
    and "p \<le> nat (index_from [c] s p)"
  using index_from_some [OF assms] by (auto simp: occurs_at_single)

lemma index_char_before:
  assumes "p \<le> k" and "k < length s" and "s ! k = c"
  shows "0 \<le> index_from [c] s p \<and> index_from [c] s p \<le> int k"
proof -
  have occ: "occurs_at [c] s k" using assms by (simp add: occurs_at_single)
  from index_from_none [OF _ assms(1)] occ have nn: "0 \<le> index_from [c] s p"
    by (meson not_less)
  moreover have "\<not> int k < index_from [c] s p"
    using index_from_some(3) [OF nn assms(1)] occ by blast
  ultimately show ?thesis by simp
qed

lemma index_char_after:
  assumes "c \<notin> set w" and "i = length a"
  shows "index_from [c] (a @ w @ c # s) i = int (length a + length w)"
proof -
  let ?s = "a @ w @ c # s" and ?k = "length a + length w"
  have up: "0 \<le> index_from [c] ?s i \<and> index_from [c] ?s i \<le> int ?k"
    by (rule index_char_before) (auto simp: assms(2) nth_append)
  then have n: "0 \<le> index_from [c] ?s i" by blast
  note at = index_char_at [OF n]
  have "\<not> nat (index_from [c] ?s i) < ?k"
  proof
    assume lt: "nat (index_from [c] ?s i) < ?k"
    then have k: "nat (index_from [c] ?s i) - length a < length w"
      and ge: "\<not> nat (index_from [c] ?s i) < length a" using at(3) assms(2) by linarith+
    then have "?s ! nat (index_from [c] ?s i) = w ! (nat (index_from [c] ?s i) - length a)"
      by (simp only: nth_append if_False if_True)
    with k show False using at(2) assms(1) nth_mem by metis
  qed
  then show ?thesis using up by linarith
qed

section \<open>Splitting and joining\<close>

text \<open>
  \<open>split_on sep s\<close> is \<open>s.split(sep)\<close> for a separator of one character, in both
  languages; \<open>join_with sep parts\<close> is \<open>parts.join(sep)\<close>.
\<close>

fun split_on :: "'a \<Rightarrow> 'a list \<Rightarrow> 'a list list" where
  "split_on sep [] = [[]]"
| "split_on sep (c # cs) =
     (if c = sep then [] # split_on sep cs
      else (case split_on sep cs of [] \<Rightarrow> [[c]] | p # ps \<Rightarrow> (c # p) # ps))"

fun join_with :: "'a list \<Rightarrow> 'a list list \<Rightarrow> 'a list" where
  "join_with sep [] = []"
| "join_with sep [p] = p"
| "join_with sep (p # q # ps) = p @ sep @ join_with sep (q # ps)"

lemma split_on_not_Nil [simp]: "split_on sep s \<noteq> []"
  by (cases s) (auto split: list.splits)

lemma join_with_Cons: "ps \<noteq> [] \<Longrightarrow> join_with sep (p # ps) = p @ sep @ join_with sep ps"
  by (cases ps) auto

lemma join_split_on [simp]: "join_with [sep] (split_on sep s) = s"
proof (induction s)
  case (Cons c cs)
  show ?case
  proof (cases "split_on sep cs")
    case (Cons p ps)
    with Cons.IH show ?thesis by (cases ps) (auto simp: join_with_Cons)
  qed simp
qed simp

lemma split_on_free: "sep \<notin> set p \<Longrightarrow> split_on sep p = [p]"
  by (induction p) auto

lemma split_on_append: "sep \<notin> set p \<Longrightarrow> split_on sep (p @ sep # s) = p # split_on sep s"
  by (induction p) auto

lemma split_on_sep: "split_on sep (a @ sep # b) = split_on sep a @ split_on sep b"
proof (induction a)
  case (Cons c cs)
  then show ?case by (cases "split_on sep cs") auto
qed simp

lemma split_join_with:
  "ps \<noteq> [] \<Longrightarrow> \<forall>p \<in> set ps. sep \<notin> set p \<Longrightarrow> split_on sep (join_with [sep] ps) = ps"
  by (induction ps rule: induct_list012) (auto simp: split_on_free split_on_append)

lemma split_on_parts: "p \<in> set (split_on sep s) \<Longrightarrow> sep \<notin> set p"
proof (induction s arbitrary: p)
  case (Cons c cs)
  then show ?case
    by (cases "split_on sep cs") (auto split: if_splits)
qed simp

lemma length_split_on: "length (split_on sep s) = Suc (count_list s sep)"
  by (induction s) (auto split: list.splits)

lemma join_with_eq_Nil: "join_with [sep] ps = [] \<longleftrightarrow> ps = [] \<or> ps = [[]]"
  by (cases ps; cases "tl ps") auto

lemma set_join_with: "set (join_with sep ps) \<subseteq> \<Union> (set ` set ps) \<union> set sep"
  by (induction sep ps rule: join_with.induct) auto

lemma in_join_with: "c \<in> set (join_with sep ps) \<Longrightarrow> c \<notin> set sep \<Longrightarrow> \<exists>p \<in> set ps. c \<in> set p"
  using set_join_with [of sep ps] by blast

lemma set_split_on: "\<Union> (set ` set (split_on sep s)) \<subseteq> set s"
proof (induction s)
  case (Cons c cs)
  then show ?case by (cases "split_on sep cs") (auto split: if_splits)
qed simp

text \<open>
  \<open>s.split(sep)\<close> for a separator of several characters: occurrences are taken from the left
  and do not overlap.  \<open>replace_all\<close> is \<open>s.split(a).join(b)\<close> and Python's \<open>s.replace(a, b)\<close>.
\<close>

function split_str :: "'a list \<Rightarrow> 'a list \<Rightarrow> 'a list list" where
  "split_str sep [] = [[]]"
| "split_str sep (c # cs) =
     (if sep \<noteq> [] \<and> take (length sep) (c # cs) = sep then [] # split_str sep (drop (length sep) (c # cs))
      else (case split_str sep cs of [] \<Rightarrow> [[c]] | p # ps \<Rightarrow> (c # p) # ps))"
  by pat_completeness auto
termination by (relation "measure (\<lambda>(sep, s). length s)") auto

definition replace_all :: "'a list \<Rightarrow> 'a list \<Rightarrow> 'a list \<Rightarrow> 'a list" where
  "replace_all a b s = join_with b (split_str a s)"

lemma split_str_free: "sep \<noteq> [] \<Longrightarrow> hd sep \<notin> set s \<Longrightarrow> split_str sep s = [s]"
proof (induction s)
  case (Cons c cs)
  then have "take (length sep) (c # cs) \<noteq> sep" by (cases sep) auto
  with Cons show ?case by auto
qed simp

lemma split_str_append:
  "sep \<noteq> [] \<Longrightarrow> hd sep \<notin> set p \<Longrightarrow> split_str sep (p @ sep @ s) = p # split_str sep s"
proof (induction p)
  case Nil
  then show ?case by (cases sep) auto
next
  case (Cons c cs)
  then have "take (length sep) (c # cs @ sep @ s) \<noteq> sep" by (cases sep) auto
  with Cons show ?case by auto
qed

lemma join_split_str: "sep \<noteq> [] \<Longrightarrow> join_with sep (split_str sep s) = s"
proof (induction sep s rule: split_str.induct)
  case (2 sep c cs)
  have ne: "split_str sep t \<noteq> []" for t
    by (cases "(sep, t)" rule: split_str.cases) (auto split: list.splits)
  show ?case
  proof (cases "take (length sep) (c # cs) = sep")
    case True
    then have "sep @ drop (length sep) (c # cs) = c # cs"
      by (metis append_take_drop_id)
    with 2 True ne show ?thesis by (simp add: join_with_Cons)
  next
    case False
    with 2 ne [of cs] show ?thesis
      by (cases "split_str sep cs"; cases "tl (split_str sep cs)") (auto split: list.splits)
  qed
qed simp

lemma join_with_middle:
  "join_with sep (as @ (x @ y @ z) # bs) = join_with sep (as @ [x]) @ y @ join_with sep (z # bs)"
proof (induction as)
  case Nil
  then show ?case by (cases bs) auto
next
  case (Cons a as)
  then show ?case by (simp add: join_with_Cons)
qed

lemma replace_all_free [simp]: "a \<noteq> [] \<Longrightarrow> hd a \<notin> set s \<Longrightarrow> replace_all a b s = s"
  by (simp add: replace_all_def split_str_free)

section \<open>Substrings\<close>

text \<open>\<open>s.slice(i, j)\<close> of JavaScript and \<open>s[i:j]\<close> of Python for non-negative bounds.\<close>

definition slice :: "nat \<Rightarrow> nat \<Rightarrow> 'a list \<Rightarrow> 'a list" where
  "slice i j s = take (j - i) (drop i s)"

lemma slice_append:
  assumes "i \<le> j" and "j \<le> k"
  shows "slice i j s @ slice j k s = slice i k s"
proof -
  have "take (k - i) (drop i s) = take ((j - i) + (k - j)) (drop i s)"
    using assms by simp
  also have "\<dots> = take (j - i) (drop i s) @ take (k - j) (drop (j - i) (drop i s))"
    by (rule take_add)
  finally show ?thesis
    using assms by (simp add: slice_def)
qed

lemma slice_full [simp]: "slice 0 (length s) s = s"
  by (simp add: slice_def)

lemma slice_empty [simp]: "slice i i s = []"
  by (simp add: slice_def)

lemma length_slice: "j \<le> length s \<Longrightarrow> length (slice i j s) = j - i"
  by (simp add: slice_def)

lemma slice_Suc: "p \<le> q \<Longrightarrow> q < length s \<Longrightarrow> slice p (Suc q) s = slice p q s @ [s ! q]"
  by (simp add: slice_def Suc_diff_le take_Suc_conv_app_nth)

lemma slice_Cons: "p < q \<Longrightarrow> q \<le> length s \<Longrightarrow> slice p q s = s ! p # slice (Suc p) q s"
  by (simp add: slice_def Suc_diff_Suc Cons_nth_drop_Suc flip: take_Suc_Cons)

section \<open>Numbers in decimal\<close>

text \<open>\<open>str(n)\<close> of Python and \<open>String(n)\<close> of JavaScript for a natural number.\<close>

function dec_digits :: "nat \<Rightarrow> ustr" where
  "dec_digits n = (if n < 10 then [48 + n] else dec_digits (n div 10) @ [48 + n mod 10])"
  by pat_completeness auto
termination by (relation "measure id") auto

declare dec_digits.simps [simp del]

definition digit_value :: "nat \<Rightarrow> ustr \<Rightarrow> nat" where
  "digit_value a s = foldl (\<lambda>acc c. 10 * acc + (c - 48)) a s"

abbreviation is_dec :: "nat \<Rightarrow> bool" where
  "is_dec c \<equiv> 48 \<le> c \<and> c \<le> 57"

lemma digit_value_snoc: "digit_value a (s @ [c]) = 10 * digit_value a s + (c - 48)"
  by (simp add: digit_value_def)

lemma dec_digits_nonempty [simp]: "dec_digits n \<noteq> []"
  by (subst dec_digits.simps) simp

lemma dec_digits_dec: "c \<in> set (dec_digits n) \<Longrightarrow> is_dec c"
proof (induction n rule: dec_digits.induct)
  case (1 n)
  then show ?case
    by (cases "n < 10") (auto simp: dec_digits.simps [of n])
qed

lemma digit_value_dec_digits: "digit_value 0 (dec_digits n) = n"
proof (induction n rule: dec_digits.induct)
  case (1 n)
  show ?case
  proof (cases "n < 10")
    case True
    then show ?thesis by (subst dec_digits.simps) (simp add: digit_value_def)
  next
    case False
    with 1 show ?thesis by (subst dec_digits.simps) (simp add: digit_value_snoc)
  qed
qed

section \<open>Dictionaries in insertion order\<close>

lemma update_new: "k \<notin> fst ` set ps \<Longrightarrow> AList.update k v ps = ps @ [(k, v)]"
  by (induction ps) auto

lemma fold_update_new:
  assumes "distinct ks" and "fst ` set ps \<inter> set ks = {}"
  shows "fold (\<lambda>k. AList.update k (f k)) ks ps = ps @ map (\<lambda>k. (k, f k)) ks"
  using assms
proof (induction ks arbitrary: ps)
  case (Cons k ks)
  then have "AList.update k (f k) ps = ps @ [(k, f k)]" by (intro update_new) auto
  with Cons.IH [of "ps @ [(k, f k)]"] Cons.prems show ?case by auto
qed simp

section \<open>Selecting a least element\<close>

text \<open>A comparison the code keeps the best candidate by: a reduction from the left with it.\<close>

locale strict_weak_order =
  fixes less :: "'a \<Rightarrow> 'a \<Rightarrow> bool"
  assumes asym: "less a b \<Longrightarrow> \<not> less b a"
    and not_less_trans: "\<not> less a b \<Longrightarrow> \<not> less b c \<Longrightarrow> \<not> less a c"
begin

lemma foldl_least:
  "(\<forall>y \<in> set (x # xs). \<not> less y (foldl (\<lambda>s y. if less y s then y else s) x xs)) \<and>
   foldl (\<lambda>s y. if less y s then y else s) x xs \<in> set (x # xs)"
proof (induction xs arbitrary: x)
  case Nil
  show ?case using asym by auto
next
  case (Cons y ys)
  show ?case
  proof (cases "less y x")
    case True
    from not_less_trans [OF asym [OF True]] Cons.IH [of y] True show ?thesis by auto
  next
    case False
    from not_less_trans [OF False] Cons.IH [of x] False show ?thesis by auto
  qed
qed

end

section \<open>Invariants\<close>

text \<open>
  A transition relation with what holds at the start and is kept by every step; \<open>trail\<close> is the
  reflexive transitive closure that the state machines of the library are explored with.
\<close>

locale invariant_of =
  fixes initial :: "'s \<Rightarrow> bool" and step :: "'s \<Rightarrow> 's \<Rightarrow> bool" and inv :: "'s \<Rightarrow> bool"
  assumes holds_initially: "initial s \<Longrightarrow> inv s"
    and preserved: "inv s \<Longrightarrow> step s t \<Longrightarrow> inv t"
begin

lemma holds:
  assumes "step\<^sup>*\<^sup>* s t" and "initial s"
  shows "inv t"
  using assms(1) by (induction rule: rtranclp_induct) (auto intro: holds_initially preserved assms(2))

end

end
