(* ===== verification/Wordcut_Dict.thy ===== *)
theory Wordcut_Dict
  imports Prelude
begin

text \<open>
  The dictionary of the Thai word cutter (\<open>WordcutDict\<close>, module 2 of
  \<open>site/assets/javascripts/lunr/wordcut.js\<close>) and the acceptor it creates.

  The dictionary is a sorted array of words without repetitions.  A dictionary acceptor is a
  range \<open>l..r\<close> of that array together with the number \<open>strOffset\<close> of characters read:
  the range holds exactly the words that start with what was read, and each character narrows
  it by two binary searches (\<open>dictSeek\<close>).  The literal word list compiled into
  \<open>addFiles\<close> is an argument of the model.
\<close>

section \<open>Building the array\<close>

text \<open>\<open>sortuniq\<close>: sort by code units, then keep an item that differs from the one before it.\<close>

definition sortuniq :: "ustr list \<Rightarrow> ustr list" where
  "sortuniq a =
     (let arr = sort a
      in map snd (filter (\<lambda>(pos, item). pos = 0 \<or> item \<noteq> arr ! (pos - 1))
                         (enumerate 0 arr)))"

text \<open>\<open>split(/[\r\n]+/)\<close>: runs of line ends separate, so only the first and the last
  part can be empty.\<close>

fun split_lines :: "ustr \<Rightarrow> ustr list" where
  "split_lines [] = [[]]"
| "split_lines (c # cs) =
     (if c = 13 \<or> c = 10
      then [] # split_lines (dropWhile (\<lambda>c. c = 13 \<or> c = 10) cs)
      else (case split_lines cs of [] \<Rightarrow> [[c]] | p # ps \<Rightarrow> (c # p) # ps))"

definition addWords :: "ustr list \<Rightarrow> ustr list \<Rightarrow> bool \<Rightarrow> ustr list" where
  "addWords dict words finalize =
     (let dict' = dict @ words in if finalize then sortuniq dict' else dict')"

definition finalizeDict :: "ustr list \<Rightarrow> ustr list" where
  "finalizeDict dict = sortuniq dict"

text \<open>\<open>addFiles\<close> never reads its file list: the loop runs once, over the text compiled in.\<close>

definition addFiles :: "ustr \<Rightarrow> ustr list \<Rightarrow> ustr list \<Rightarrow> bool \<Rightarrow> ustr list" where
  "addFiles builtin dict files finalize =
     (let words = filter (\<lambda>w. length w > 1) (split_lines builtin);
          dict' = addWords dict words False
      in if finalize then finalizeDict dict' else dict')"

text \<open>The argument \<open>dictPathFile\<close> of \<open>init\<close>: undefined, one path or an array of paths.\<close>

datatype dict_path = NoPath | OnePath ustr | PathArray "ustr list"

text \<open>
  \<open>init\<close> collects the file names it would read.  A path array is concatenated to
  \<open>dictPath\<close> with \<open>concat\<close>, whose result is dropped, so it adds nothing.
\<close>

definition dictPaths :: "ustr \<Rightarrow> dict_path \<Rightarrow> bool \<Rightarrow> ustr list" where
  "dictPaths defaultDict p withDefault =
     (let base = (if withDefault \<or> p = NoPath then [defaultDict] else [])
      in case p of NoPath \<Rightarrow> base | PathArray _ \<Rightarrow> base | OnePath f \<Rightarrow> base @ [f])"

definition init_dict ::
    "ustr \<Rightarrow> ustr \<Rightarrow> dict_path \<Rightarrow> bool \<Rightarrow> ustr list option \<Rightarrow> ustr list" where
  "init_dict builtin defaultDict p withDefault words =
     (let dict = addFiles builtin [] (dictPaths defaultDict p withDefault) False;
          dict' = (case words of None \<Rightarrow> dict | Some ws \<Rightarrow> addWords dict ws False)
      in finalizeDict dict')"

section \<open>Binary search\<close>

datatype side = LEFT | RIGHT

text \<open>
  \<open>dictSeek\<close>: the outermost index in \<open>l..r\<close> whose word has \<open>ch\<close> at
  \<open>strOffset\<close>, on the side asked for.  The bounds are integers because \<open>r\<close> can
  become \<open>-1\<close>; \<open>ans\<close> is the loop's variable of that name.
\<close>

function dictSeek_loop ::
    "ustr list \<Rightarrow> int \<Rightarrow> int \<Rightarrow> nat \<Rightarrow> nat \<Rightarrow> side \<Rightarrow> int option \<Rightarrow> int option" where
  "dictSeek_loop D l r ch off pos ans =
     (if l \<le> r then
        (let m = (l + r) div 2; item = D ! nat m in
         if length item \<le> off then dictSeek_loop D (m + 1) r ch off pos ans
         else (let ch' = item ! off in
               if ch' < ch then dictSeek_loop D (m + 1) r ch off pos ans
               else if ch' > ch then dictSeek_loop D l (m - 1) ch off pos ans
               else if pos = LEFT then dictSeek_loop D l (m - 1) ch off pos (Some m)
               else dictSeek_loop D (m + 1) r ch off pos (Some m)))
      else ans)"
  by pat_completeness auto
termination
  by (relation "measure (\<lambda>(D, l, r, ch, off, pos, ans). nat (r - l + 1))") auto

declare dictSeek_loop.simps [simp del]

definition dictSeek :: "ustr list \<Rightarrow> int \<Rightarrow> int \<Rightarrow> nat \<Rightarrow> nat \<Rightarrow> side \<Rightarrow> int option" where
  "dictSeek D l r ch off pos = dictSeek_loop D l r ch off pos None"

section \<open>The dictionary acceptor\<close>

record dict_acceptor =
  acc_l :: int
  acc_r :: int
  acc_off :: nat
  acc_final :: bool
  acc_error :: bool

definition dict_createAcceptor :: "ustr list \<Rightarrow> dict_acceptor" where
  "dict_createAcceptor D =
     \<lparr>acc_l = 0, acc_r = int (length D) - 1, acc_off = 0, acc_final = False, acc_error = False\<rparr>"

definition dict_isFinal :: "ustr list \<Rightarrow> dict_acceptor \<Rightarrow> bool" where
  "dict_isFinal D a \<longleftrightarrow> length (D ! nat (acc_l a)) = acc_off a"

text \<open>
  The second search cannot fail after the first succeeded (\<open>dictSeek_RIGHT\<close> below); if it
  did, \<open>r\<close> would become \<open>null\<close>, which the search loop reads as 0.
\<close>

definition dict_transit :: "ustr list \<Rightarrow> dict_acceptor \<Rightarrow> nat \<Rightarrow> dict_acceptor" where
  "dict_transit D a ch =
     (case dictSeek D (acc_l a) (acc_r a) ch (acc_off a) LEFT of
        None \<Rightarrow> a\<lparr>acc_error := True\<rparr>
      | Some l \<Rightarrow>
          (let r = (case dictSeek D l (acc_r a) ch (acc_off a) RIGHT of
                      None \<Rightarrow> 0 | Some r \<Rightarrow> r);
               a' = a\<lparr>acc_l := l, acc_r := r, acc_off := Suc (acc_off a)\<rparr>
           in a'\<lparr>acc_final := dict_isFinal D a'\<rparr>))"

section \<open>The array is strictly sorted\<close>

lemma keep_changes_Cons:
  "map snd (filter (\<lambda>(pos, item). pos = 0 \<or> item \<noteq> (x # xs) ! (pos - 1)) (enumerate (Suc 0) xs))
   = tl (remdups_adj (x # xs))"
proof (induction xs arbitrary: x)
  case (Cons y ys)
  have shift: "filter (\<lambda>(pos, item). pos = 0 \<or> item \<noteq> (x # y # ys) ! (pos - 1))
                      (enumerate (Suc (Suc 0)) ys)
             = map (\<lambda>(pos, item). (Suc pos, item))
                 (filter (\<lambda>(pos, item). pos = 0 \<or> item \<noteq> (y # ys) ! (pos - 1))
                         (enumerate (Suc 0) ys))"
  proof -
    have "enumerate (Suc (Suc 0)) ys = map (\<lambda>(pos, item). (Suc pos, item)) (enumerate (Suc 0) ys)"
      by (rule nth_equalityI) (auto simp: nth_enumerate_eq)
    moreover have "\<And>item. (0, item) \<notin> set (enumerate (Suc 0) ys)"
      by (auto simp: in_set_enumerate_eq)
    ultimately show ?thesis
      by (simp only: filter_map o_def)
         (rule arg_cong [where f = "map _"], rule filter_cong, auto simp: nth_Cons split: nat.splits)
  qed
  have "map snd (map (\<lambda>(pos, item). (Suc pos, item)) zs) = map snd zs" for zs :: "(nat \<times> 'a) list"
    by auto
  with Cons [of y] shift show ?case
    by (auto simp: remdups_adj_Cons split: list.splits)
qed simp

lemma sortuniq_remdups: "sortuniq a = remdups_adj (sort a)"
proof (cases "sort a")
  case Nil
  then show ?thesis by (simp add: sortuniq_def)
next
  case (Cons x xs)
  have "hd (remdups_adj (x # xs)) = x" and "remdups_adj (x # xs) \<noteq> []"
    by simp_all
  then have "x # tl (remdups_adj (x # xs)) = remdups_adj (x # xs)"
    by (metis list.collapse)
  with Cons keep_changes_Cons [of x xs] show ?thesis
    by (simp add: sortuniq_def)
qed

lemma set_sortuniq [simp]: "set (sortuniq a) = set a"
  by (simp add: sortuniq_remdups)

lemma sorted_sortuniq [simp]: "sorted (sortuniq a)"
  by (simp add: sortuniq_remdups sorted_remdups_adj)

lemma strict_remdups_adj: "sorted xs \<Longrightarrow> sorted_wrt (<) (remdups_adj xs)"
  by (induction xs rule: remdups_adj.induct) (auto simp: less_le)

lemma strict_sortuniq: "sorted_wrt (<) (sortuniq a)"
  by (simp add: sortuniq_remdups strict_remdups_adj)

section \<open>The binary search finds the outermost index\<close>

text \<open>
  \<open>col D off i\<close> orders the words of a range by their character at \<open>off\<close>, the words
  that end before it first.  On a range where this column is ascending the search returns the
  first or the last index with the character asked for.
\<close>

definition col :: "ustr list \<Rightarrow> nat \<Rightarrow> int \<Rightarrow> nat" where
  "col D off i = (let w = D ! nat i in if length w \<le> off then 0 else Suc (w ! off))"

definition col_mono :: "ustr list \<Rightarrow> nat \<Rightarrow> int \<Rightarrow> int \<Rightarrow> bool" where
  "col_mono D off l r \<longleftrightarrow> (\<forall>i j. l \<le> i \<and> i \<le> j \<and> j \<le> r \<longrightarrow> col D off i \<le> col D off j)"

lemma dictSeek_loop_col:
  "dictSeek_loop D l r ch off pos ans =
     (if l \<le> r then
        (let m = (l + r) div 2 in
         if col D off m < Suc ch then dictSeek_loop D (m + 1) r ch off pos ans
         else if col D off m > Suc ch then dictSeek_loop D l (m - 1) ch off pos ans
         else if pos = LEFT then dictSeek_loop D l (m - 1) ch off pos (Some m)
         else dictSeek_loop D (m + 1) r ch off pos (Some m))
      else ans)"
  by (subst dictSeek_loop.simps) (auto simp: col_def Let_def)

lemma col_mono_sub: "col_mono D off l r \<Longrightarrow> l \<le> l' \<Longrightarrow> r' \<le> r \<Longrightarrow> col_mono D off l' r'"
  by (auto simp: col_mono_def)

lemma dictSeek_loop_absent:
  "\<forall>i. l \<le> i \<and> i \<le> r \<longrightarrow> col D off i \<noteq> Suc ch \<Longrightarrow>
     dictSeek_loop D l r ch off pos ans = ans"
proof (induction "nat (r - l + 1)" arbitrary: l r ans rule: less_induct)
  case less
  show ?case
  proof (cases "l \<le> r")
    case True
    let ?m = "(l + r) div 2"
    from True have m: "l \<le> ?m" "?m \<le> r" by auto
    with less.prems have "col D off ?m \<noteq> Suc ch" by blast
    moreover have "dictSeek_loop D (?m + 1) r ch off pos ans = ans"
      using m less.prems by (intro less.hyps) auto
    moreover have "dictSeek_loop D l (?m - 1) ch off pos ans = ans"
      using m less.prems by (intro less.hyps) auto
    ultimately show ?thesis
      by (subst dictSeek_loop_col) (auto simp: Let_def True)
  next
    case False
    then show ?thesis by (subst dictSeek_loop_col) simp
  qed
qed

text \<open>\<open>outermost D off pos l r ch i\<close>: index \<open>i\<close> of the range has \<open>ch\<close> in the column
  and nothing beyond it on the side \<open>pos\<close> does.\<close>

definition outermost :: "ustr list \<Rightarrow> nat \<Rightarrow> side \<Rightarrow> int \<Rightarrow> int \<Rightarrow> nat \<Rightarrow> int \<Rightarrow> bool" where
  "outermost D off pos l r ch i \<longleftrightarrow>
     l \<le> i \<and> i \<le> r \<and> col D off i = Suc ch \<and>
     (\<forall>j. l \<le> j \<and> j \<le> r \<and> col D off j = Suc ch \<longrightarrow> (if pos = LEFT then i \<le> j else j \<le> i))"

lemma outermost_above:
  assumes "outermost D off pos (m + 1) r ch i" and "l \<le> m"
    and "\<And>j. l \<le> j \<Longrightarrow> j \<le> m \<Longrightarrow> col D off j = Suc ch \<Longrightarrow> pos = RIGHT"
  shows "outermost D off pos l r ch i"
  using assms unfolding outermost_def
  by (smt (verit) side.exhaust side.distinct)

lemma outermost_below:
  assumes "outermost D off pos l (m - 1) ch i" and "m \<le> r"
    and "\<And>j. m \<le> j \<Longrightarrow> j \<le> r \<Longrightarrow> col D off j = Suc ch \<Longrightarrow> pos = LEFT"
  shows "outermost D off pos l r ch i"
  using assms unfolding outermost_def
  by (smt (verit) side.exhaust side.distinct)

lemma dictSeek_loop_finds:
  "col_mono D off l r \<Longrightarrow> l \<le> k \<Longrightarrow> k \<le> r \<Longrightarrow> col D off k = Suc ch \<Longrightarrow>
     \<exists>i. dictSeek_loop D l r ch off pos ans = Some i \<and> outermost D off pos l r ch i"
proof (induction "nat (r - l + 1)" arbitrary: l r k ans rule: less_induct)
  case less
  let ?m = "(l + r) div 2"
  let ?loop = "\<lambda>l r ans. dictSeek_loop D l r ch off pos ans"
  from less.prems have lr: "l \<le> r" by simp
  then have m: "l \<le> ?m" "?m \<le> r" by auto
  have mono: "l \<le> i \<Longrightarrow> i \<le> j \<Longrightarrow> j \<le> r \<Longrightarrow> col D off i \<le> col D off j" for i j
    using less.prems(1) unfolding col_mono_def by blast
  have up: "\<exists>i. ?loop (?m + 1) r a = Some i \<and> outermost D off pos (?m + 1) r ch i"
    if "?m < j" "j \<le> r" "col D off j = Suc ch" for j a
    using m that less.prems(1) by (intro less.hyps [of _ _ j]) (auto elim: col_mono_sub)
  have down: "\<exists>i. ?loop l (?m - 1) a = Some i \<and> outermost D off pos l (?m - 1) ch i"
    if "l \<le> j" "j < ?m" "col D off j = Suc ch" for j a
    using m that less.prems(1) by (intro less.hyps [of _ _ j]) (auto elim: col_mono_sub)
  consider (lo) "col D off ?m < Suc ch" | (hi) "Suc ch < col D off ?m"
    | (left) "col D off ?m = Suc ch" "pos = LEFT" | (right) "col D off ?m = Suc ch" "pos = RIGHT"
    by (meson linorder_neqE_nat side.exhaust)
  then show ?case
  proof cases
    case lo
    with less.prems mono m have "?m < k" by (metis leD not_le)
    with up [of k] less.prems obtain i where
      i: "?loop (?m + 1) r ans = Some i" "outermost D off pos (?m + 1) r ch i" by blast
    have "outermost D off pos l r ch i"
      by (rule outermost_above [OF i(2) m(1)]) (use lo mono [OF _ _ m(2)] in fastforce)
    with i lo lr show ?thesis by (subst dictSeek_loop_col) (simp add: Let_def)
  next
    case hi
    with less.prems mono m have "k < ?m" by (metis leD not_le)
    with down [of k] less.prems obtain i where
      i: "?loop l (?m - 1) ans = Some i" "outermost D off pos l (?m - 1) ch i" by blast
    have "outermost D off pos l r ch i"
      by (rule outermost_below [OF i(2) m(2)]) (use hi mono [OF m(1)] in fastforce)
    with i hi lr show ?thesis by (subst dictSeek_loop_col) (simp add: Let_def)
  next
    case left
    then have step: "?loop l r ans = ?loop l (?m - 1) (Some ?m)"
      using lr by (subst dictSeek_loop_col) (simp add: Let_def)
    show ?thesis
    proof (cases "\<exists>j. l \<le> j \<and> j < ?m \<and> col D off j = Suc ch")
      case True
      then obtain i where "?loop l (?m - 1) (Some ?m) = Some i"
        "outermost D off pos l (?m - 1) ch i" using down by blast
      with step left m outermost_below show ?thesis by metis
    next
      case False
      then have "?loop l (?m - 1) (Some ?m) = Some ?m" by (intro dictSeek_loop_absent) auto
      moreover have "outermost D off pos l r ch ?m"
        using False left m by (auto simp: outermost_def not_less)
      ultimately show ?thesis using step by simp
    qed
  next
    case right
    then have step: "?loop l r ans = ?loop (?m + 1) r (Some ?m)"
      using lr by (subst dictSeek_loop_col) (simp add: Let_def)
    show ?thesis
    proof (cases "\<exists>j. ?m < j \<and> j \<le> r \<and> col D off j = Suc ch")
      case True
      then obtain i where "?loop (?m + 1) r (Some ?m) = Some i"
        "outermost D off pos (?m + 1) r ch i" using up by blast
      with step right m outermost_above show ?thesis by metis
    next
      case False
      then have "?loop (?m + 1) r (Some ?m) = Some ?m" by (intro dictSeek_loop_absent) auto
      moreover have "outermost D off pos l r ch ?m"
        using False right m by (auto simp: outermost_def not_less)
      ultimately show ?thesis using step by simp
    qed
  qed
qed

section \<open>The range of a prefix\<close>

definition prefix_range :: "ustr list \<Rightarrow> ustr \<Rightarrow> int \<Rightarrow> int \<Rightarrow> bool" where
  "prefix_range D p l r \<longleftrightarrow>
     0 \<le> l \<and> r < int (length D) \<and>
     (\<forall>i. 0 \<le> i \<and> i < int (length D) \<longrightarrow> (l \<le> i \<and> i \<le> r) = prefix p (D ! nat i))"

lemma append_le_append [simp]: "(p @ x \<le> p @ y) = (x \<le> (y :: 'a :: linorder list))"
  by (induction p) auto

lemma append_le_self [simp]: "(p @ x \<le> p) = (x = ([] :: 'a :: linorder list))"
  using append_le_append [of p x "[]"] by simp

lemma prefix_snoc_nth:
  "prefix (p @ [c]) w \<longleftrightarrow> prefix p w \<and> length p < length w \<and> w ! length p = c"
  by (auto simp: prefix_def nth_append neq_Nil_conv)

lemma prefix_rangeD:
  assumes "prefix_range D p l r" and "l \<le> i" and "i \<le> r"
  shows "0 \<le> i" and "i < int (length D)" and "prefix p (D ! nat i)"
proof -
  show "0 \<le> i" and "i < int (length D)"
    using assms by (auto simp: prefix_range_def)
  with assms show "prefix p (D ! nat i)"
    unfolding prefix_range_def by blast
qed

lemma col_monoD: "col_mono D off l r \<Longrightarrow> l \<le> i \<Longrightarrow> i \<le> j \<Longrightarrow> j \<le> r \<Longrightarrow> col D off i \<le> col D off j"
  by (simp add: col_mono_def)

lemma prefix_col_le:
  assumes "prefix p v" and "prefix p w" and "v \<le> (w :: ustr)"
  shows "(if length v \<le> length p then 0 else Suc (v ! length p))
       \<le> (if length w \<le> length p then 0 else Suc (w ! length p))"
proof -
  obtain x y where "v = p @ x" and "w = p @ y"
    using assms(1,2) by (auto simp: prefix_def)
  with assms(3) show ?thesis
    by (cases x; cases y) (auto simp: nth_append)
qed

lemma prefix_range_mono:
  assumes "sorted D" and "prefix_range D p l r"
  shows "col_mono D (length p) l r"
  unfolding col_mono_def
proof (intro allI impI)
  fix i j assume ij: "l \<le> i \<and> i \<le> j \<and> j \<le> r"
  with prefix_rangeD(3) [OF assms(2)] have "prefix p (D ! nat i)" and "prefix p (D ! nat j)"
    by auto
  moreover have "D ! nat i \<le> D ! nat j"
    using assms ij by (intro sorted_nth_mono) (auto simp: prefix_range_def)
  ultimately show "col D (length p) i \<le> col D (length p) j"
    unfolding col_def Let_def by (rule prefix_col_le)
qed

lemma prefix_snoc_col:
  "prefix_range D p l r \<Longrightarrow> 0 \<le> i \<Longrightarrow> i < int (length D) \<Longrightarrow>
     prefix (p @ [c]) (D ! nat i) \<longleftrightarrow> l \<le> i \<and> i \<le> r \<and> col D (length p) i = Suc c"
  unfolding prefix_range_def col_def Let_def prefix_snoc_nth by auto

lemma prefix_range_step:
  assumes "sorted D" and R: "prefix_range D p l r"
    and L: "outermost D (length p) LEFT l r c i" and H: "outermost D (length p) RIGHT i r c j"
  shows "prefix_range D (p @ [c]) i j"
  unfolding prefix_range_def
proof (intro conjI allI impI)
  from R L show "0 \<le> i" by (auto simp: prefix_range_def outermost_def)
  from R H show "j < int (length D)" by (auto simp: prefix_range_def outermost_def)
  have mono: "col_mono D (length p) l r" using assms(1) R by (rule prefix_range_mono)
  fix k assume k: "0 \<le> k \<and> k < int (length D)"
  have "i \<le> k \<and> k \<le> j \<longleftrightarrow> l \<le> k \<and> k \<le> r \<and> col D (length p) k = Suc c"
  proof
    assume ikj: "i \<le> k \<and> k \<le> j"
    have "col D (length p) i \<le> col D (length p) k" "col D (length p) k \<le> col D (length p) j"
      using ikj L H col_monoD [OF mono, of i k] col_monoD [OF mono, of k j]
      by (auto simp: outermost_def)
    with ikj L H show "l \<le> k \<and> k \<le> r \<and> col D (length p) k = Suc c"
      by (auto simp: outermost_def)
  next
    assume "l \<le> k \<and> k \<le> r \<and> col D (length p) k = Suc c"
    with L H show "i \<le> k \<and> k \<le> j" by (auto simp: outermost_def)
  qed
  with prefix_snoc_col [OF R, of k c] k
  show "(i \<le> k \<and> k \<le> j) = prefix (p @ [c]) (D ! nat k)" by auto
qed

section \<open>The acceptor recognises the dictionary\<close>

definition dacc_inv :: "ustr list \<Rightarrow> ustr \<Rightarrow> dict_acceptor \<Rightarrow> bool" where
  "dacc_inv D p a \<longleftrightarrow>
     \<not> acc_error a \<and> acc_off a = length p \<and> prefix_range D p (acc_l a) (acc_r a) \<and>
     (p \<noteq> [] \<longrightarrow> acc_l a \<le> acc_r a \<and> acc_final a = (p \<in> set D))"

lemma dacc_inv_init: "dacc_inv D [] (dict_createAcceptor D)"
  by (auto simp: dacc_inv_def dict_createAcceptor_def prefix_range_def)

text \<open>In a sorted array the first word of a prefix's range is the prefix itself, if it occurs.\<close>

lemma first_of_range:
  assumes "sorted D" and R: "prefix_range D p l r" and "l \<le> r"
  shows "length (D ! nat l) = length p \<longleftrightarrow> p \<in> set D"
proof
  assume len: "length (D ! nat l) = length p"
  have "prefix p (D ! nat l)" and "nat l < length D"
    using prefix_rangeD [OF R, of l] \<open>l \<le> r\<close> by auto
  with len show "p \<in> set D"
    by (metis nth_mem append_eq_conv_conj prefix_def take_all_iff order_refl)
next
  assume "p \<in> set D"
  then obtain k where k: "k < length D" "D ! k = p" by (auto simp: in_set_conv_nth)
  with R have "l \<le> int k"
    unfolding prefix_range_def by (metis nat_int of_nat_0_le_iff of_nat_less_iff prefix_order.refl)
  moreover have "0 \<le> l" and "prefix p (D ! nat l)"
    using prefix_rangeD [OF R, of l] \<open>l \<le> r\<close> by auto
  ultimately have "D ! nat l \<le> p"
    using sorted_nth_mono [OF \<open>sorted D\<close>, of "nat l" k] k by auto
  with \<open>prefix p (D ! nat l)\<close> show "length (D ! nat l) = length p"
    by (auto simp: prefix_def)
qed

lemma dict_transit_some:
  assumes "sorted D" and I: "dacc_inv D p a" and w: "w \<in> set D" "prefix (p @ [c]) w"
  shows "dacc_inv D (p @ [c]) (dict_transit D a c)"
proof -
  let ?l = "acc_l a" and ?r = "acc_r a"
  from I have R: "prefix_range D p ?l ?r" and off: "acc_off a = length p" and ok: "\<not> acc_error a"
    by (auto simp: dacc_inv_def)
  obtain k where k: "k < length D" "D ! k = w" using w(1) by (auto simp: in_set_conv_nth)
  with prefix_snoc_col [OF R, of "int k" c] w(2)
  have kr: "?l \<le> int k" "int k \<le> ?r" "col D (length p) (int k) = Suc c" by auto
  have mono: "col_mono D (length p) ?l ?r" using assms(1) R by (rule prefix_range_mono)
  obtain i where i: "dictSeek D ?l ?r c (length p) LEFT = Some i"
      "outermost D (length p) LEFT ?l ?r c i"
    using dictSeek_loop_finds [OF mono kr] by (auto simp: dictSeek_def)
  then have ik: "?l \<le> i" "i \<le> int k" using kr by (auto simp: outermost_def)
  obtain j where j: "dictSeek D i ?r c (length p) RIGHT = Some j"
      "outermost D (length p) RIGHT i ?r c j"
    using dictSeek_loop_finds [OF col_mono_sub [OF mono ik(1) order_refl] ik(2) kr(2,3)]
    by (auto simp: dictSeek_def)
  have R': "prefix_range D (p @ [c]) i j"
    using assms(1) R i(2) j(2) by (rule prefix_range_step)
  have "i \<le> j" using j(2) by (auto simp: outermost_def)
  with first_of_range [OF assms(1) R'] R' ok
  show ?thesis
    by (simp add: dacc_inv_def dict_transit_def off i(1) j(1) Let_def dict_isFinal_def)
qed

lemma dict_transit_none:
  assumes I: "dacc_inv D p a" and none: "\<forall>w \<in> set D. \<not> prefix (p @ [c]) w"
  shows "acc_error (dict_transit D a c)"
proof -
  from I have R: "prefix_range D p (acc_l a) (acc_r a)" and off: "acc_off a = length p"
    by (auto simp: dacc_inv_def)
  have "col D (length p) i \<noteq> Suc c" if "acc_l a \<le> i \<and> i \<le> acc_r a" for i
  proof -
    have "0 \<le> i" "i < int (length D)" using prefix_rangeD [OF R, of i] that by auto
    moreover from this have "D ! nat i \<in> set D" by simp
    ultimately show ?thesis using prefix_snoc_col [OF R, of i c] that none by blast
  qed
  then have "dictSeek D (acc_l a) (acc_r a) c (length p) LEFT = None"
    unfolding dictSeek_def by (intro dictSeek_loop_absent) auto
  then show ?thesis by (simp add: dict_transit_def off)
qed

text \<open>
  A run of the acceptor the way \<open>Acceptors.transit\<close> drives it: an acceptor in error is
  dropped and never stepped again.
\<close>

fun dict_run :: "ustr list \<Rightarrow> dict_acceptor \<Rightarrow> ustr \<Rightarrow> dict_acceptor option" where
  "dict_run D a [] = Some a"
| "dict_run D a (c # cs) =
     (let a' = dict_transit D a c in if acc_error a' then None else dict_run D a' cs)"

lemma dict_run_inv:
  assumes "sorted D" and "dacc_inv D p a" and "q = [] \<longrightarrow> (\<exists>w \<in> set D. prefix p w)"
  shows "case dict_run D a q of
           None \<Rightarrow> \<not> (\<exists>w \<in> set D. prefix (p @ q) w)
         | Some a' \<Rightarrow> dacc_inv D (p @ q) a' \<and> (\<exists>w \<in> set D. prefix (p @ q) w)"
  using assms(2,3)
proof (induction q arbitrary: p a)
  case (Cons c cs)
  let ?a = "dict_transit D a c"
  show ?case
  proof (cases "\<exists>w \<in> set D. prefix (p @ [c]) w")
    case True
    then have inv: "dacc_inv D (p @ [c]) ?a"
      using dict_transit_some [OF assms(1) Cons.prems(1)] by blast
    then have "\<not> acc_error ?a" by (simp add: dacc_inv_def)
    with Cons.IH [OF inv] True show ?thesis by (auto simp: Let_def split: option.splits)
  next
    case False
    then have "acc_error ?a"
      using dict_transit_none [OF Cons.prems(1)] by blast
    moreover have "\<not> prefix (p @ c # cs) w" if "w \<in> set D" for w
      using False that by (metis append_Cons append_Nil append_assoc append_prefixD)
    ultimately show ?thesis by (auto simp: Let_def)
  qed
qed auto

section \<open>Properties\<close>

text \<open>
  Whatever words a dictionary was given, finalising it keeps exactly those words,
  in strictly ascending order (so without repetitions).
\<close>
theorem finalizeDict_correct:
  "set (finalizeDict ws) = set ws \<and> sorted_wrt (<) (finalizeDict ws)"
  by (simp add: finalizeDict_def strict_sortuniq)

text \<open>
  Property C4.  The dictionary acceptor recognises the dictionary: fed a non-empty string, it
  falls into error exactly when no word starts with that string, and otherwise it is final
  exactly when the string is a word.
\<close>
theorem dict_acceptor_recognises:
  "case dict_run (finalizeDict ws) (dict_createAcceptor (finalizeDict ws)) (c # cs) of
     None \<Rightarrow> \<not> (\<exists>w \<in> set ws. prefix (c # cs) w)
   | Some a \<Rightarrow> (\<exists>w \<in> set ws. prefix (c # cs) w) \<and> acc_final a = (c # cs \<in> set ws)"
  using dict_run_inv [OF _ dacc_inv_init, of "finalizeDict ws" "c # cs"]
  by (auto simp: finalizeDict_def dacc_inv_def simp del: dict_run.simps split: option.splits)

text \<open>
  \<open>init\<close> ends with the compiled-in words of more than one character and the
  additional words, whatever dictionary files it was asked for: the path arguments have no effect.
\<close>
theorem init_dict_words:
  "set (init_dict builtin dflt p withDefault words)
     = {w \<in> set (split_lines builtin). length w > 1} \<union> (case words of None \<Rightarrow> {} | Some ws \<Rightarrow> set ws)
   \<and> init_dict builtin dflt p withDefault words = init_dict builtin dflt NoPath False words"
  by (auto simp: init_dict_def addFiles_def addWords_def finalizeDict_def Let_def split: option.splits)

end
