(* ===== verification/Wordcut.thy ===== *)
theory Wordcut
  imports Wordcut_Dict
begin

text \<open>
  The Thai word cutter of \<open>site/assets/javascripts/lunr/wordcut.js\<close>: the acceptor pool
  (module 1), the Latin and Thai rules (modules 3 and 6), the path builder and selector (modules
  4 and 5), the core loop (module 8) and the object that wires them (module 7).

  A text of \<open>n\<close> characters is cut by building a path of \<open>n + 1\<close> entries, one per
  boundary; entry \<open>k\<close> says where the segment that ends at boundary \<open>k\<close> starts.  An
  access that would throw a TypeError, or a loop that would not end, is the value \<open>None\<close>;
  the properties show that neither happens.
\<close>

section \<open>Acceptors\<close>

datatype tag = DICT | WORD_RULE | NUMBER_RULE | SPACE_RULE | SINSYM | THAI_RULE | PART | UNK | INIT

record rule_state =
  strOffset :: nat
  isFinal :: bool
  isError :: bool

definition rule_init :: rule_state where
  "rule_init = \<lparr>strOffset = 0, isFinal = False, isError = False\<rparr>"

datatype acceptor =
    WordAcc rule_state
  | NumberAcc rule_state
  | SpaceAcc rule_state
  | SymbolAcc rule_state
  | Rule0Acc rule_state
  | PartAcc "ustr list" rule_state
  | DictAcc "ustr list" dict_acceptor

datatype creator =
    WordRule | NumberRule | SpaceRule | SingleSymbolRule | Rule0 | PartRule | WordcutDict "ustr list"

fun a_tag :: "acceptor \<Rightarrow> tag" where
  "a_tag (WordAcc s) = WORD_RULE"
| "a_tag (NumberAcc s) = NUMBER_RULE"
| "a_tag (SpaceAcc s) = SPACE_RULE"
| "a_tag (SymbolAcc s) = SINSYM"
| "a_tag (Rule0Acc s) = THAI_RULE"
| "a_tag (PartAcc pats s) = PART"
| "a_tag (DictAcc D a) = DICT"

fun a_off :: "acceptor \<Rightarrow> nat" where
  "a_off (WordAcc s) = strOffset s"
| "a_off (NumberAcc s) = strOffset s"
| "a_off (SpaceAcc s) = strOffset s"
| "a_off (SymbolAcc s) = strOffset s"
| "a_off (Rule0Acc s) = strOffset s"
| "a_off (PartAcc pats s) = strOffset s"
| "a_off (DictAcc D a) = acc_off a"

fun a_final :: "acceptor \<Rightarrow> bool" where
  "a_final (WordAcc s) = isFinal s"
| "a_final (NumberAcc s) = isFinal s"
| "a_final (SpaceAcc s) = isFinal s"
| "a_final (SymbolAcc s) = isFinal s"
| "a_final (Rule0Acc s) = isFinal s"
| "a_final (PartAcc pats s) = isFinal s"
| "a_final (DictAcc D a) = acc_final a"

fun a_error :: "acceptor \<Rightarrow> bool" where
  "a_error (WordAcc s) = isError s"
| "a_error (NumberAcc s) = isError s"
| "a_error (SpaceAcc s) = isError s"
| "a_error (SymbolAcc s) = isError s"
| "a_error (Rule0Acc s) = isError s"
| "a_error (PartAcc pats s) = isError s"
| "a_error (DictAcc D a) = acc_error a"

text \<open>Every acceptor has \<open>w: 1\<close>; only the part rule has \<open>unk: 1\<close>, and none has \<open>mw\<close>.\<close>

definition a_w :: "acceptor \<Rightarrow> nat" where
  "a_w a = 1"

definition a_unk :: "acceptor \<Rightarrow> nat" where
  "a_unk a = (if a_tag a = PART then 1 else 0)"

definition a_mw :: "acceptor \<Rightarrow> nat" where
  "a_mw a = 0"

section \<open>The rules\<close>

text \<open>One step of a rule: accept the character, or fall into error.\<close>

definition accept :: "rule_state \<Rightarrow> bool \<Rightarrow> rule_state" where
  "accept s final = s\<lparr>isFinal := final, strOffset := Suc (strOffset s)\<rparr>"

definition reject :: "rule_state \<Rightarrow> rule_state" where
  "reject s = s\<lparr>isError := True\<rparr>"

text \<open>
  \<open>ch.toLowerCase()\<close> as far as the test \<open>lch >= "a" && lch <= "z"\<close> sees it: besides
  the ASCII letters, U+0130 lowers to \<open>i\<close> and a combining dot, and U+212A to \<open>k\<close>; the
  lower case of every other code unit starts with the unit itself or with one above \<open>z\<close>.
\<close>

definition lower_unit :: "nat \<Rightarrow> ustr" where
  "lower_unit ch =
     (if 65 \<le> ch \<and> ch \<le> 90 then [ch + 32]
      else if ch = 0x130 then [105, 0x307]
      else if ch = 0x212A then [107]
      else [ch])"

definition is_word_unit :: "nat \<Rightarrow> bool" where
  "is_word_unit ch \<longleftrightarrow> u ''a'' \<le> lower_unit ch \<and> lower_unit ch \<le> u ''z''"

definition is_space_unit :: "nat \<Rightarrow> bool" where
  "is_space_unit ch \<longleftrightarrow> ch \<in> {32, 9, 13, 10, 0xA0, 0x2003}"

definition is_symbol_unit :: "nat \<Rightarrow> bool" where
  "is_symbol_unit ch \<longleftrightarrow> ch \<in> set (u ''@()/,-.\"`'')"

definition word_transit :: "rule_state \<Rightarrow> nat \<Rightarrow> rule_state" where
  "word_transit s ch = (if is_word_unit ch then accept s True else reject s)"

definition number_transit :: "rule_state \<Rightarrow> nat \<Rightarrow> rule_state" where
  "number_transit s ch = (if is_dec ch then accept s True else reject s)"

definition space_transit :: "rule_state \<Rightarrow> nat \<Rightarrow> rule_state" where
  "space_transit s ch = (if is_space_unit ch then accept s True else reject s)"

definition symbol_transit :: "rule_state \<Rightarrow> nat \<Rightarrow> rule_state" where
  "symbol_transit s ch =
     (if strOffset s = 0 \<and> is_symbol_unit ch then accept s True else reject s)"

text \<open>
  The Thai patterns: a consonant of the pattern stands for any consonant, the mark U+0E49 for
  any of the four tone marks.
\<close>

definition is_consonant :: "nat \<Rightarrow> bool" where
  "is_consonant ch \<longleftrightarrow> 0x0E01 \<le> ch \<and> ch \<le> 0x0E2E"

definition isMatch :: "ustr \<Rightarrow> nat \<Rightarrow> nat \<Rightarrow> bool" where
  "isMatch pat offset ch =
     (if length pat \<le> offset then False
      else (let c = pat ! offset in
            c = ch
            \<or> (c \<in> {0x0E01, 0x0E02} \<and> is_consonant ch)
            \<or> (c \<in> {0x0E21, 0x0E1A} \<and> is_consonant ch)
            \<or> (c = 0x0E49 \<and> 0x0E48 \<le> ch \<and> ch \<le> 0x0E4B)))"

definition rule0_pat :: ustr where
  "rule0_pat = [0x0E40, 0x0E2B, 0x0E01, 0x0E47, 0x0E21]"

definition rule0_transit :: "rule_state \<Rightarrow> nat \<Rightarrow> rule_state" where
  "rule0_transit s ch =
     (if isMatch rule0_pat (strOffset s) ch
      then accept s (strOffset s + 1 = length rule0_pat)
      else reject s)"

definition part_patterns :: "ustr list" where
  "part_patterns =
     [[0x0E41, 0x0E01], [0x0E40, 0x0E01], [0x0E01, 0x0E49], [0x0E01, 0x0E01, 0x0E4C],
      [0x0E01, 0x0E32], [0x0E01, 0x0E35], [0x0E01, 0x0E34], [0x0E01, 0x0E37, 0x0E01]]"

definition part_transit :: "ustr list \<Rightarrow> rule_state \<Rightarrow> nat \<Rightarrow> acceptor" where
  "part_transit pats s ch =
     (let offset = strOffset s; pats' = filter (\<lambda>pat. isMatch pat offset ch) pats
      in if pats' \<noteq> []
         then PartAcc pats' (accept s (list_ex (\<lambda>pat. length pat = 1 + offset) pats'))
         else PartAcc pats' (reject s))"

fun transit :: "acceptor \<Rightarrow> nat \<Rightarrow> acceptor" where
  "transit (WordAcc s) ch = WordAcc (word_transit s ch)"
| "transit (NumberAcc s) ch = NumberAcc (number_transit s ch)"
| "transit (SpaceAcc s) ch = SpaceAcc (space_transit s ch)"
| "transit (SymbolAcc s) ch = SymbolAcc (symbol_transit s ch)"
| "transit (Rule0Acc s) ch = Rule0Acc (rule0_transit s ch)"
| "transit (PartAcc pats s) ch = part_transit pats s ch"
| "transit (DictAcc D a) ch = DictAcc D (dict_transit D a ch)"

section \<open>The acceptor pool\<close>

record acceptors =
  creators :: "creator list"
  current :: "acceptor list"
  tags :: "(tag \<times> acceptor) list"

text \<open>\<open>tags\<close> is the object \<open>tag\<close>; its newest entry for a key comes first.\<close>

fun createAcceptor :: "creator \<Rightarrow> (tag \<times> acceptor) list \<Rightarrow> acceptor option" where
  "createAcceptor WordRule tg =
     (if map_of tg WORD_RULE \<noteq> None then None else Some (WordAcc rule_init))"
| "createAcceptor NumberRule tg =
     (if map_of tg NUMBER_RULE \<noteq> None then None else Some (NumberAcc rule_init))"
| "createAcceptor SpaceRule tg =
     (if map_of tg SPACE_RULE \<noteq> None then None else Some (SpaceAcc rule_init))"
| "createAcceptor SingleSymbolRule tg = Some (SymbolAcc rule_init)"
| "createAcceptor Rule0 tg = Some (Rule0Acc rule_init)"
| "createAcceptor PartRule tg = Some (PartAcc part_patterns rule_init)"
| "createAcceptor (WordcutDict D) tg = Some (DictAcc D (dict_createAcceptor D))"

definition acceptors_init :: acceptors where
  "acceptors_init = \<lparr>creators = [], current = [], tags = []\<rparr>"

definition acceptors_reset :: "acceptors \<Rightarrow> acceptors" where
  "acceptors_reset s = s\<lparr>current := [], tags := []\<rparr>"

definition acceptors_transit :: "acceptors \<Rightarrow> nat \<Rightarrow> acceptors" where
  "acceptors_transit s ch =
     (let started = current s @ List.map_filter (\<lambda>cr. createAcceptor cr (tags s)) (creators s);
          alive = filter (\<lambda>a. \<not> a_error a) (map (\<lambda>a. transit a ch) started)
      in s\<lparr>current := alive, tags := foldl (\<lambda>tg a. (a_tag a, a) # tg) [] alive\<rparr>)"

definition getFinalAcceptors :: "acceptors \<Rightarrow> acceptor list" where
  "getFinalAcceptors s = filter a_final (current s)"

text \<open>\<open>initNoDict\<close> and \<open>init\<close> of module 7: the creators in the order they are pushed.\<close>

definition latinRules :: "creator list" where
  "latinRules = [WordRule, SpaceRule, SingleSymbolRule, NumberRule]"

definition thaiRules :: "creator list" where
  "thaiRules = [Rule0, PartRule]"

definition initNoDict :: acceptors where
  "initNoDict = acceptors_init\<lparr>creators := latinRules @ thaiRules\<rparr>"

definition wordcut_init :: "ustr \<Rightarrow> ustr \<Rightarrow> dict_path \<Rightarrow> bool \<Rightarrow> ustr list option \<Rightarrow> acceptors" where
  "wordcut_init builtin dflt p withDefault words =
     (let s = initNoDict
      in s\<lparr>creators := creators s @ [WordcutDict (init_dict builtin dflt p withDefault words)]\<rparr>)"

end
