(* ===== verification/Wordcut_Pool.thy ===== *)
theory Wordcut_Pool
  imports Wordcut
begin

text \<open>
  What the acceptor pool holds after a text: the contract between the rules and the pool.

  A rule is seen by the pool only through \<open>transit\<close>, \<open>isError\<close>, \<open>isFinal\<close> and
  \<open>strOffset\<close>.  The locales state what a rule has to promise for its language; they are
  interpreted on the four rules that start a new acceptor at every character and on the three
  that start one only where none is running.
\<close>

section \<open>Steppers and recognisers\<close>

text \<open>A run the way \<open>Acceptors.transit\<close> drives it: what falls into error is dropped.\<close>

fun scan :: "('s \<Rightarrow> nat \<Rightarrow> 's) \<Rightarrow> ('s \<Rightarrow> bool) \<Rightarrow> 's \<Rightarrow> ustr \<Rightarrow> 's option" where
  "scan step failed s [] = Some s"
| "scan step failed s (c # cs) =
     (let s' = step s c in if failed s' then None else scan step failed s' cs)"

lemma scan_snoc:
  "scan step failed s (w @ [c]) =
     (case scan step failed s w of None \<Rightarrow> None
      | Some t \<Rightarrow> if failed (step t c) then None else Some (step t c))"
  by (induction w arbitrary: s) (auto simp: Let_def)

lemma scan_last:
  "scan step failed s w = Some t \<Longrightarrow> w \<noteq> [] \<Longrightarrow> \<not> failed t"
  by (cases w rule: rev_cases) (auto simp: scan_snoc split: option.splits if_splits)

locale step_counter =
  fixes step :: "'s \<Rightarrow> nat \<Rightarrow> 's" and failed :: "'s \<Rightarrow> bool" and off :: "'s \<Rightarrow> nat"
  assumes step_off: "\<not> failed (step s c) \<Longrightarrow> off (step s c) = Suc (off s)"
begin

lemma scan_off: "scan step failed s w = Some t \<Longrightarrow> off t = off s + length w"
proof (induction w arbitrary: t rule: rev_induct)
  case (snoc c w)
  then obtain t' where t': "scan step failed s w = Some t'" "\<not> failed (step t' c)" "t = step t' c"
    by (auto simp: scan_snoc split: option.splits if_splits)
  with snoc.IH step_off [of t' c] show ?case by simp
qed simp

lemma advance_off:
  assumes "\<forall>s \<in> set ss. off s \<le> i"
  shows "\<forall>s \<in> set (filter (\<lambda>s. \<not> failed s) (map (\<lambda>s. step s c) ss)). 0 < off s \<and> off s \<le> Suc i"
  using assms by (auto simp: step_off)

end

text \<open>A recogniser stays out of error on the words of its language, and is final on just those.\<close>

locale recogniser = step_counter step failed off
  for step :: "'s \<Rightarrow> nat \<Rightarrow> 's" and failed off +
  fixes start :: 's and final :: "'s \<Rightarrow> bool" and lang :: "ustr \<Rightarrow> bool"
  assumes start_off: "off start = 0"
    and final_iff: "scan step failed start w = Some s \<Longrightarrow> w \<noteq> [] \<Longrightarrow> final s \<longleftrightarrow> lang w"
    and lang_alive: "lang w \<Longrightarrow> w \<noteq> [] \<Longrightarrow> \<exists>s. scan step failed start w = Some s"
begin

lemma recognises:
  assumes "w \<noteq> []"
  shows "(\<exists>s. scan step failed start w = Some s \<and> final s \<and> off s = k) \<longleftrightarrow> lang w \<and> length w = k"
  using final_iff [OF _ assms] lang_alive [OF _ assms] scan_off [of start w] start_off by fastforce

end

section \<open>The pool\<close>

text \<open>The pool after the characters of \<open>q\<close>: the states \<open>buildPath\<close> runs through.\<close>

definition pool_run :: "acceptors \<Rightarrow> ustr \<Rightarrow> acceptors" where
  "pool_run P q = foldl acceptors_transit (acceptors_reset P) q"

lemma pool_run_Nil [simp]: "current (pool_run P []) = []" "tags (pool_run P []) = []"
  by (simp_all add: pool_run_def acceptors_reset_def)

lemma pool_run_snoc: "pool_run P (q @ [c]) = acceptors_transit (pool_run P q) c"
  by (simp add: pool_run_def)

lemma creators_pool_run [simp]: "creators (pool_run P q) = creators P"
  unfolding pool_run_def
  by (induction q rule: rev_induct) (simp_all add: acceptors_reset_def acceptors_transit_def Let_def)

lemma set_map_filter_eq [simp]: "set (List.map_filter f xs) = {a. \<exists>x \<in> set xs. f x = Some a}"
  by (induction xs) (auto simp: List.map_filter_simps split: option.splits)

text \<open>\<open>tag\<close> has a key for every tag of the running acceptors.\<close>

lemma map_of_tags: "map_of (foldl (\<lambda>tg a. (a_tag a, a) # tg) tg as) t = None \<longleftrightarrow>
    map_of tg t = None \<and> t \<notin> a_tag ` set as"
  by (induction as arbitrary: tg) auto

lemma tags_pool_run: "map_of (tags (pool_run P q)) t = None \<longleftrightarrow> t \<notin> a_tag ` set (current (pool_run P q))"
  by (cases q rule: rev_cases)
     (simp_all add: pool_run_snoc map_of_tags acceptors_transit_def Let_def image_Un)

lemma in_pool_step:
  "a \<in> set (current (pool_run P (q @ [c]))) \<longleftrightarrow>
     \<not> a_error a \<and> (\<exists>a0. a = transit a0 c \<and>
       (a0 \<in> set (current (pool_run P q)) \<or>
        (\<exists>cr \<in> set (creators P). createAcceptor cr (tags (pool_run P q)) = Some a0)))"
  by (auto simp: pool_run_snoc acceptors_transit_def Let_def image_iff)

text \<open>The tag of an acceptor is that of its creator.\<close>

fun c_tag :: "creator \<Rightarrow> tag" where
  "c_tag WordRule = WORD_RULE"
| "c_tag NumberRule = NUMBER_RULE"
| "c_tag SpaceRule = SPACE_RULE"
| "c_tag SingleSymbolRule = SINSYM"
| "c_tag Rule0 = THAI_RULE"
| "c_tag PartRule = PART"
| "c_tag (WordcutDict D) = DICT"

lemma created_tag: "createAcceptor cr tg = Some a \<Longrightarrow> a_tag a = c_tag cr"
  by (cases cr) (auto split: if_splits)

lemma transit_tag [simp]: "a_tag (transit a c) = a_tag a"
  by (cases a) (simp_all add: part_transit_def Let_def)

lemma part_transit_off:
  "\<not> a_error (part_transit pats s ch) \<Longrightarrow> a_off (part_transit pats s ch) = Suc (strOffset s)"
  by (auto simp: part_transit_def Let_def accept_def reject_def)

lemmas rule_transit_defs =
  word_transit_def number_transit_def space_transit_def symbol_transit_def rule0_transit_def
  accept_def reject_def

interpretation dict_step: step_counter "dict_transit D" acc_error acc_off for D
  by unfold_locales (auto simp: dict_transit_def Let_def split: option.splits)

interpretation acceptor_step: step_counter transit a_error a_off
proof
  fix a c
  assume "\<not> a_error (transit a c)"
  then show "a_off (transit a c) = Suc (a_off a)"
    by (cases a) (auto simp: part_transit_off dict_step.step_off rule_transit_defs split: if_splits)
qed

lemma createAcceptor_off [simp]: "createAcceptor cr tg = Some a \<Longrightarrow> a_off a = 0"
  by (cases cr) (auto simp: rule_init_def dict_createAcceptor_def split: if_splits)

lemma acceptors_transit_off:
  assumes "\<forall>a \<in> set (current P). a_off a \<le> i"
  shows "\<forall>a \<in> set (current (acceptors_transit P ch)). 0 < a_off a \<and> a_off a \<le> Suc i"
proof -
  let ?started = "current P @ List.map_filter (\<lambda>cr. createAcceptor cr (tags P)) (creators P)"
  have "\<forall>a \<in> set ?started. a_off a \<le> i"
    using assms by (auto dest: createAcceptor_off)
  from acceptor_step.advance_off [OF this, of ch] show ?thesis
    unfolding acceptors_transit_def Let_def by simp
qed

lemma rule_init_simps [simp]:
  "strOffset rule_init = 0" "\<not> isFinal rule_init" "\<not> isError rule_init"
  by (simp_all add: rule_init_def)

section \<open>Rules that start at every character\<close>

lemma suffix_snoc:
  "(\<exists>v w. q @ [c] = v @ w \<and> w \<noteq> [] \<and> P w) \<longleftrightarrow> (\<exists>v w. q = v @ w \<and> P (w @ [c]))"
proof
  assume "\<exists>v w. q @ [c] = v @ w \<and> w \<noteq> [] \<and> P w"
  then obtain v w where "q @ [c] = v @ w" "w \<noteq> []" "P w" by blast
  then show "\<exists>v w. q = v @ w \<and> P (w @ [c])"
    by (cases w rule: rev_cases) auto
next
  assume "\<exists>v w. q = v @ w \<and> P (w @ [c])"
  then obtain v w where "q = v @ w" "P (w @ [c])" by blast
  then show "\<exists>v w. q @ [c] = v @ w \<and> w \<noteq> [] \<and> P w"
    by (intro exI [of _ v] exI [of _ "w @ [c]"]) simp
qed

text \<open>No other creator of the pool makes acceptors with this tag.\<close>

definition sole_creator :: "creator \<Rightarrow> acceptors \<Rightarrow> bool" where
  "sole_creator cr P \<longleftrightarrow>
     cr \<in> set (creators P) \<and> (\<forall>cr' \<in> set (creators P). c_tag cr' = c_tag cr \<longrightarrow> cr' = cr)"

locale free_rule = recogniser transit a_error a_off start a_final lang for start lang +
  fixes cr :: creator
  assumes created: "createAcceptor cr tg = Some start"
begin

lemma start_tag: "a_tag start = c_tag cr"
  using created created_tag by blast

lemma starts:
  assumes "sole_creator cr P"
  shows "(\<exists>cr' \<in> set (creators P). createAcceptor cr' tg = Some a) \<and> a_tag a = c_tag cr \<longleftrightarrow> a = start"
  using assms created start_tag created_tag [of _ tg a] unfolding sole_creator_def by (metis option.inject)

lemma pool_scan:
  assumes "sole_creator cr P"
  shows "a \<in> set (current (pool_run P q)) \<and> a_tag a = c_tag cr \<longleftrightarrow>
    (\<exists>v w. q = v @ w \<and> w \<noteq> [] \<and> scan transit a_error start w = Some a)"
proof (induction q arbitrary: a rule: rev_induct)
  case (snoc c q)
  have "a \<in> set (current (pool_run P (q @ [c]))) \<and> a_tag a = c_tag cr \<longleftrightarrow>
      (\<exists>a0. \<not> a_error a \<and> a = transit a0 c \<and>
         (a0 \<in> set (current (pool_run P q)) \<and> a_tag a0 = c_tag cr \<or> a0 = start))"
    unfolding in_pool_step starts [OF assms, of "tags (pool_run P q)", symmetric] by auto
  also have "\<dots> \<longleftrightarrow> (\<exists>v w. q = v @ w \<and> scan transit a_error start (w @ [c]) = Some a)"
    unfolding snoc.IH by (auto simp: scan_snoc split: option.splits) (metis append_Nil2 scan.simps(1) option.inject)+
  finally show ?case unfolding suffix_snoc .
qed simp

lemma pool_final:
  assumes "sole_creator cr P"
  shows "(\<exists>a \<in> set (getFinalAcceptors (pool_run P q)). a_tag a = c_tag cr \<and> a_off a = k) \<longleftrightarrow>
    0 < k \<and> (\<exists>v w. q = v @ w \<and> length w = k \<and> lang w)"
proof -
  have "(\<exists>a \<in> set (getFinalAcceptors (pool_run P q)). a_tag a = c_tag cr \<and> a_off a = k) \<longleftrightarrow>
      (\<exists>a. (a \<in> set (current (pool_run P q)) \<and> a_tag a = c_tag cr) \<and> a_final a \<and> a_off a = k)"
    by (auto simp: getFinalAcceptors_def)
  also have "\<dots> \<longleftrightarrow> (\<exists>v w. q = v @ w \<and> w \<noteq> [] \<and>
      (\<exists>a. scan transit a_error start w = Some a \<and> a_final a \<and> a_off a = k))"
    unfolding pool_scan [OF assms] by blast
  also have "\<dots> \<longleftrightarrow> (\<exists>v w. q = v @ w \<and> w \<noteq> [] \<and> lang w \<and> length w = k)"
    using recognises by metis
  finally show ?thesis by (simp del: length_greater_0_conv) (metis length_greater_0_conv)
qed

end

section \<open>The languages of the four free rules\<close>

definition symbol_lang :: "ustr \<Rightarrow> bool" where
  "symbol_lang w \<longleftrightarrow> length w = 1 \<and> is_symbol_unit (hd w)"

lemma scan_symbol:
  "scan transit a_error (SymbolAcc rule_init) w = Some a \<Longrightarrow>
     w = [] \<or> symbol_lang w \<and> a_final a"
  by (cases w; cases "tl w")
     (auto simp: symbol_lang_def symbol_transit_def accept_def reject_def rule_init_def Let_def split: if_splits)

interpretation symbol_rule: free_rule "SymbolAcc rule_init" symbol_lang SingleSymbolRule
proof
  fix w
  show "scan transit a_error (SymbolAcc rule_init) w = Some a \<Longrightarrow> w \<noteq> [] \<Longrightarrow> a_final a \<longleftrightarrow> symbol_lang w" for a
    using scan_symbol by blast
  show "symbol_lang w \<Longrightarrow> w \<noteq> [] \<Longrightarrow> \<exists>a. scan transit a_error (SymbolAcc rule_init) w = Some a"
    by (cases w) (auto simp: symbol_lang_def symbol_transit_def accept_def rule_init_def)
qed (simp_all add: rule_init_def)

text \<open>The characters read so far fit the pattern.\<close>

definition fits :: "ustr \<Rightarrow> ustr \<Rightarrow> bool" where
  "fits pat w \<longleftrightarrow> list_all (\<lambda>(i, c). isMatch pat i c) (enumerate 0 w)"

lemma fits_Nil [simp]: "fits pat []"
  by (simp add: fits_def)

lemma fits_snoc [simp]: "fits pat (w @ [c]) \<longleftrightarrow> fits pat w \<and> isMatch pat (length w) c"
  by (simp add: fits_def enumerate_append_eq)

definition rule0_lang :: "ustr \<Rightarrow> bool" where
  "rule0_lang w \<longleftrightarrow> length w = length rule0_pat \<and> fits rule0_pat w"

lemma scan_rule0:
  "scan transit a_error (Rule0Acc rule_init) w =
     (if fits rule0_pat w
      then Some (Rule0Acc \<lparr>strOffset = length w, isFinal = (w \<noteq> [] \<and> length w = length rule0_pat), isError = False\<rparr>)
      else None)"
  by (induction w rule: rev_induct)
     (simp_all add: scan_snoc rule0_transit_def accept_def reject_def rule_init_def)

interpretation thai_rule: free_rule "Rule0Acc rule_init" rule0_lang Rule0
  by unfold_locales (auto simp: scan_rule0 rule0_lang_def split: if_splits)

definition part_lang :: "ustr \<Rightarrow> bool" where
  "part_lang w \<longleftrightarrow> list_ex (\<lambda>pat. length pat = length w \<and> fits pat w) part_patterns"

lemma scan_part:
  "scan transit a_error (PartAcc part_patterns rule_init) w =
     (if w = [] \<or> list_ex (\<lambda>pat. fits pat w) part_patterns
      then Some (PartAcc (filter (\<lambda>pat. fits pat w) part_patterns)
                  \<lparr>strOffset = length w, isFinal = (w \<noteq> [] \<and> part_lang w), isError = False\<rparr>)
      else None)"
proof (induction w rule: rev_induct)
  case Nil
  then show ?case by (simp add: rule_init_def)
next
  case (snoc c w)
  have ex: "list_ex P (filter Q xs) \<longleftrightarrow> list_ex (\<lambda>x. Q x \<and> P x) xs" for P Q :: "ustr \<Rightarrow> bool" and xs
    by (induction xs) auto
  have none: "filter (\<lambda>pat. fits pat w \<and> isMatch pat (length w) c) part_patterns \<noteq> [] \<longleftrightarrow>
      list_ex (\<lambda>pat. fits pat w \<and> isMatch pat (length w) c) part_patterns"
    by (auto simp: filter_empty_conv list_ex_iff)
  have "part_lang (w @ [c]) \<longleftrightarrow>
      list_ex (\<lambda>pat. (fits pat w \<and> isMatch pat (length w) c) \<and> length pat = Suc (length w)) part_patterns"
    unfolding part_lang_def by (auto simp: list_ex_iff)
  moreover have "list_ex (\<lambda>pat. fits pat w) part_patterns"
    if "list_ex (\<lambda>pat. fits pat w \<and> isMatch pat (length w) c) part_patterns"
    using that by (auto simp: list_ex_iff)
  ultimately show ?case
    using none by (auto simp: snoc.IH scan_snoc part_transit_def accept_def reject_def ex Let_def conj_commute)
qed

interpretation part_rule: free_rule "PartAcc part_patterns rule_init" part_lang PartRule
  by unfold_locales (auto simp: scan_part part_lang_def list_ex_iff split: if_splits)

lemma dict_run_scan: "dict_run D d w = scan (dict_transit D) acc_error d w"
  by (induction D d w rule: dict_run.induct) (auto simp: Let_def)

interpretation dict: recogniser "dict_transit (finalizeDict ws)" acc_error acc_off
  "dict_createAcceptor (finalizeDict ws)" acc_final "\<lambda>w. w \<in> set ws" for ws
proof
  fix w d
  have D: "sorted (finalizeDict ws)" "set (finalizeDict ws) = set ws" by (simp_all add: finalizeDict_def)
  note run = dict_run_inv [OF D(1) dacc_inv_init, of w, unfolded D(2) dict_run_scan]
  show "scan (dict_transit (finalizeDict ws)) acc_error (dict_createAcceptor (finalizeDict ws)) w = Some d \<Longrightarrow>
      w \<noteq> [] \<Longrightarrow> acc_final d \<longleftrightarrow> w \<in> set ws"
    using run by (simp add: dacc_inv_def D(2))
  show "w \<in> set ws \<Longrightarrow> w \<noteq> [] \<Longrightarrow>
      \<exists>d. scan (dict_transit (finalizeDict ws)) acc_error (dict_createAcceptor (finalizeDict ws)) w = Some d"
    using run by (auto split: option.splits)
qed (simp add: dict_createAcceptor_def)

lemma scan_DictAcc:
  "scan transit a_error (DictAcc D d) w = map_option (DictAcc D) (scan (dict_transit D) acc_error d w)"
  by (induction w arbitrary: d) (auto simp: Let_def)

interpretation dict_rule: free_rule "DictAcc (finalizeDict ws) (dict_createAcceptor (finalizeDict ws))"
  "\<lambda>w. w \<in> set ws" "WordcutDict (finalizeDict ws)" for ws
  by unfold_locales (auto simp: scan_DictAcc dict.start_off dict.final_iff dest: dict.lang_alive)

section \<open>Rules that start only where none is running\<close>

text \<open>
  The three Latin rules create no acceptor while the last pool holds one with their tag, so that
  the pool holds at most one, which has read the whole run of their characters.
\<close>

definition run_length :: "(nat \<Rightarrow> bool) \<Rightarrow> ustr \<Rightarrow> nat" where
  "run_length unit_ok q = length (takeWhile unit_ok (rev q))"

locale run_rule =
  fixes mk :: "rule_state \<Rightarrow> acceptor" and cr :: creator and unit_ok :: "nat \<Rightarrow> bool"
  assumes created: "createAcceptor cr tg = (if map_of tg (c_tag cr) = None then Some (mk rule_init) else None)"
    and steps: "transit (mk s) c = mk (if unit_ok c then accept s True else reject s)"
    and reads: "a_error (mk s) = isError s" "a_off (mk s) = strOffset s" "a_final (mk s) = isFinal s"
    and tagged: "a_tag a = c_tag cr \<longleftrightarrow> (\<exists>s. a = mk s)"
begin

lemma mk_tag: "a_tag (mk s) = c_tag cr"
  unfolding tagged by blast

lemma scan_run:
  "scan transit a_error (mk rule_init) w =
     (if list_all unit_ok w then Some (mk \<lparr>strOffset = length w, isFinal = (w \<noteq> []), isError = False\<rparr>) else None)"
  by (induction w rule: rev_induct)
     (simp_all add: scan_snoc steps reads accept_def reject_def rule_init_def)

sublocale recogniser transit a_error a_off "mk rule_init" a_final "list_all unit_ok"
  by unfold_locales (auto simp: scan_run reads split: if_splits)

lemma pool_runs:
  assumes "sole_creator cr P"
  shows "a \<in> set (current (pool_run P q)) \<and> a_tag a = c_tag cr \<longleftrightarrow>
    0 < run_length unit_ok q \<and> a = mk \<lparr>strOffset = run_length unit_ok q, isFinal = True, isError = False\<rparr>"
proof (induction q arbitrary: a rule: rev_induct)
  case (snoc c q)
  let ?k = "run_length unit_ok q"
  let ?s = "if 0 < ?k then \<lparr>strOffset = ?k, isFinal = True, isError = False\<rparr> else rule_init"
  have running: "c_tag cr \<in> a_tag ` set (current (pool_run P q)) \<longleftrightarrow> 0 < ?k"
  proof -
    have "c_tag cr \<in> a_tag ` set (current (pool_run P q)) \<longleftrightarrow>
        (\<exists>a. a \<in> set (current (pool_run P q)) \<and> a_tag a = c_tag cr)" by force
    then show ?thesis unfolding snoc.IH by blast
  qed
  have started: "(\<exists>cr' \<in> set (creators P). createAcceptor cr' (tags (pool_run P q)) = Some a0) \<and> a_tag a0 = c_tag cr
      \<longleftrightarrow> ?k = 0 \<and> a0 = mk rule_init" for a0
  proof -
    have new: "createAcceptor cr (tags (pool_run P q)) = (if ?k = 0 then Some (mk rule_init) else None)"
      unfolding created using running tags_pool_run [of P q "c_tag cr"] by (cases "?k = 0") auto
    have cr: "cr' = cr" if "cr' \<in> set (creators P)" "createAcceptor cr' (tags (pool_run P q)) = Some a0"
        "a_tag a0 = c_tag cr" for cr'
      using that assms created_tag [OF that(2)] by (simp add: sole_creator_def)
    have "cr \<in> set (creators P)" using assms by (simp add: sole_creator_def)
    have "a0 = mk rule_init \<and> ?k = 0"
      if "cr' \<in> set (creators P)" "createAcceptor cr' (tags (pool_run P q)) = Some a0" "a_tag a0 = c_tag cr" for cr'
      using new that(2) cr [OF that] by (simp split: if_splits)
    moreover have "\<exists>cr' \<in> set (creators P). createAcceptor cr' (tags (pool_run P q)) = Some (mk rule_init)" if "?k = 0"
      using new that \<open>cr \<in> set (creators P)\<close> by auto
    ultimately show ?thesis using mk_tag by blast
  qed
  have "a \<in> set (current (pool_run P (q @ [c]))) \<and> a_tag a = c_tag cr \<longleftrightarrow>
      (\<exists>a0. \<not> a_error a \<and> a = transit a0 c \<and>
        (a0 \<in> set (current (pool_run P q)) \<and> a_tag a0 = c_tag cr \<or> ?k = 0 \<and> a0 = mk rule_init))"
    unfolding in_pool_step started [symmetric] by auto
  also have "\<dots> \<longleftrightarrow> \<not> a_error a \<and> a = transit (mk ?s) c"
    unfolding snoc.IH by auto
  also have "\<dots> \<longleftrightarrow> 0 < run_length unit_ok (q @ [c]) \<and>
      a = mk \<lparr>strOffset = run_length unit_ok (q @ [c]), isFinal = True, isError = False\<rparr>"
    by (auto simp: steps reads run_length_def accept_def reject_def rule_init_def)
  finally show ?case .
qed (simp add: run_length_def)

lemma pool_final:
  assumes "sole_creator cr P"
  shows "(\<exists>a \<in> set (getFinalAcceptors (pool_run P q)). a_tag a = c_tag cr \<and> a_off a = k) \<longleftrightarrow>
    0 < k \<and> k = run_length unit_ok q"
proof -
  have "(\<exists>a \<in> set (getFinalAcceptors (pool_run P q)). a_tag a = c_tag cr \<and> a_off a = k) \<longleftrightarrow>
      (\<exists>a. (a \<in> set (current (pool_run P q)) \<and> a_tag a = c_tag cr) \<and> a_final a \<and> a_off a = k)"
    by (auto simp: getFinalAcceptors_def)
  then show ?thesis unfolding pool_runs [OF assms] by (auto simp: reads)
qed

end

interpretation word_rule: run_rule WordAcc WordRule is_word_unit
proof
  show "a_tag a = c_tag WordRule \<longleftrightarrow> (\<exists>s. a = WordAcc s)" for a by (cases a) simp_all
qed (simp_all add: word_transit_def)

interpretation number_rule: run_rule NumberAcc NumberRule is_dec
proof
  show "a_tag a = c_tag NumberRule \<longleftrightarrow> (\<exists>s. a = NumberAcc s)" for a by (cases a) simp_all
qed (simp_all add: number_transit_def)

interpretation space_rule: run_rule SpaceAcc SpaceRule is_space_unit
proof
  show "a_tag a = c_tag SpaceRule \<longleftrightarrow> (\<exists>s. a = SpaceAcc s)" for a by (cases a) simp_all
qed (simp_all add: space_transit_def)

section \<open>Properties\<close>

lemma set_init_dict: "\<exists>ws. init_dict builtin dflt p withDefault words = finalizeDict ws \<and>
    set ws = set (init_dict builtin dflt p withDefault words)"
  by (auto simp: init_dict_def finalizeDict_def Let_def)

lemma sole_creators:
  "sole_creator WordRule (wordcut_init builtin dflt p withDefault words)"
  "sole_creator NumberRule (wordcut_init builtin dflt p withDefault words)"
  "sole_creator SpaceRule (wordcut_init builtin dflt p withDefault words)"
  "sole_creator SingleSymbolRule (wordcut_init builtin dflt p withDefault words)"
  "sole_creator Rule0 (wordcut_init builtin dflt p withDefault words)"
  "sole_creator PartRule (wordcut_init builtin dflt p withDefault words)"
  "sole_creator (WordcutDict (init_dict builtin dflt p withDefault words))
     (wordcut_init builtin dflt p withDefault words)"
  by (auto simp: sole_creator_def wordcut_init_def initNoDict_def latinRules_def thaiRules_def
      acceptors_init_def Let_def)

text \<open>
  Property C9.  The pool finds the dictionary words: after any text, the pool of
  \<open>Wordcut.init\<close> holds a final dictionary acceptor of offset \<open>k\<close> exactly when the last
  \<open>k\<close> characters are a word of its dictionary.
\<close>
theorem pool_finds_words:
  "(\<exists>a \<in> set (getFinalAcceptors (pool_run (wordcut_init builtin dflt p withDefault words) q)).
      a_tag a = DICT \<and> a_off a = k)
   = (\<exists>w v. q = v @ w \<and> w \<noteq> [] \<and> length w = k \<and>
            w \<in> set (init_dict builtin dflt p withDefault words))"
proof -
  obtain ws where ws: "init_dict builtin dflt p withDefault words = finalizeDict ws"
      "set ws = set (init_dict builtin dflt p withDefault words)"
    using set_init_dict by blast
  from dict_rule.pool_final [of ws "wordcut_init builtin dflt p withDefault words" q k]
    sole_creators(7) [of builtin dflt p withDefault words]
  show ?thesis unfolding ws(1) [symmetric] ws(2) c_tag.simps by fastforce
qed

text \<open>
  Property C10.  The pool finds what the rules stand for: a final acceptor of offset \<open>k\<close> with the
  tag of the word, number or space rule is there exactly when the maximal run of such characters at
  the end of the text has length \<open>k\<close>; one with the tag of a pattern rule exactly when the last
  \<open>k\<close> characters are a symbol, or fit a whole Thai pattern.
\<close>
theorem pool_finds_rules:
  "let found = (\<lambda>t k. \<exists>a \<in> set (getFinalAcceptors (pool_run (wordcut_init builtin dflt p withDefault words) q)).
         a_tag a = t \<and> a_off a = k);
       run = (\<lambda>ok k. 0 < k \<and> k = length (takeWhile ok (rev q)));
       tail = (\<lambda>lang k. 0 < k \<and> (\<exists>v w. q = v @ w \<and> length w = k \<and> lang w))
   in found WORD_RULE = run is_word_unit \<and> found NUMBER_RULE = run is_dec \<and>
      found SPACE_RULE = run is_space_unit \<and> found SINSYM = tail symbol_lang \<and>
      found THAI_RULE = tail rule0_lang \<and> found PART = tail part_lang"
  unfolding Let_def fun_eq_iff
  using word_rule.pool_final [OF sole_creators(1)] number_rule.pool_final [OF sole_creators(2)]
    space_rule.pool_final [OF sole_creators(3)] symbol_rule.pool_final [OF sole_creators(4)]
    thai_rule.pool_final [OF sole_creators(5)] part_rule.pool_final [OF sole_creators(6)]
  unfolding c_tag.simps run_length_def by (intro conjI allI)

end
