(* ===== verification/Wordcut_Core.thy ===== *)
theory Wordcut_Core
  imports Wordcut_Pool
begin

text \<open>
  The path of the word cutter: the path builder (module 4), the path selector (module 5) and the
  core loop with the functions that turn a path into ranges, text and segments (module 8).
\<close>

section \<open>Path entries\<close>

text \<open>An entry of the path: \<open>p\<close> is \<open>null\<close> in the first one, \<open>merge\<close> may be undefined.\<close>

record path_info =
  p_start :: "nat option"
  p_mw :: nat
  p_w :: nat
  p_unk :: nat
  p_type :: tag
  p_merge :: "nat option"

definition createPath :: "path_info list" where
  "createPath = [\<lparr>p_start = None, p_mw = 0, p_w = 0, p_unk = 0, p_type = INIT, p_merge = None\<rparr>]"

section \<open>The path builder\<close>

text \<open>
  \<open>path[j].merge = p\<close> for \<open>j\<close> from \<open>p + 1\<close> to \<open>i\<close>; an entry that does not exist
  throws.
\<close>

definition set_merges :: "path_info list \<Rightarrow> nat \<Rightarrow> nat \<Rightarrow> path_info list option" where
  "set_merges path p i =
     (if p < i \<and> length path \<le> i then None
      else Some (fold (\<lambda>j path. path[j := (path ! j)\<lparr>p_merge := Some p\<rparr>]) [p + 1..<i + 1] path))"

text \<open>
  \<open>buildByAcceptors\<close>: one candidate per final acceptor, in order; a part acceptor marks the
  entries inside it on the way.  The result is the path with the marks and the candidates.
\<close>

fun buildByAcceptors ::
    "path_info list \<Rightarrow> acceptor list \<Rightarrow> nat \<Rightarrow> (path_info list \<times> path_info list) option" where
  "buildByAcceptors path [] i = Some (path, [])"
| "buildByAcceptors path (a # as) i =
     (let p = int i - int (a_off a) + 1 in
      if p < 0 \<or> int (length path) \<le> p then None
      else
        (let prev = path ! nat p;
             info = \<lparr>p_start = Some (nat p), p_mw = p_mw prev + a_mw a, p_w = a_w a + p_w prev,
                     p_unk = a_unk a + p_unk prev, p_type = a_tag a,
                     p_merge = (if a_tag a = PART then Some (nat p) else None)\<rparr>
         in (case (if a_tag a = PART then set_merges path (nat p) i else Some path) of
               None \<Rightarrow> None
             | Some path' \<Rightarrow>
                 (case buildByAcceptors path' as i of
                    None \<Rightarrow> None
                  | Some (path'', infos) \<Rightarrow> Some (path'', info # infos)))))"

text \<open>U+0E48 to U+0E4E: the marks that combine with the character before them.\<close>

definition is_combining :: "nat \<Rightarrow> bool" where
  "is_combining ch \<longleftrightarrow> 0x0E48 \<le> ch \<and> ch \<le> 0x0E4E"

definition fallback :: "path_info list \<Rightarrow> nat \<Rightarrow> ustr \<Rightarrow> nat \<Rightarrow> path_info option" where
  "fallback path leftBoundary text i =
     (if length path \<le> leftBoundary \<or> length text \<le> i then None
      else
        (let info = path ! leftBoundary in
         if is_combining (text ! i)
         then (let p = (if leftBoundary \<noteq> 0 then p_start (path ! leftBoundary) else Some leftBoundary)
               in Some \<lparr>p_start = p, p_mw = 0, p_w = 1 + p_w info, p_unk = 1 + p_unk info,
                        p_type = UNK, p_merge = None\<rparr>)
         else Some \<lparr>p_start = Some leftBoundary, p_mw = p_mw info, p_w = 1 + p_w info,
                    p_unk = 1 + p_unk info, p_type = UNK, p_merge = None\<rparr>))"

definition build ::
    "path_info list \<Rightarrow> acceptor list \<Rightarrow> nat \<Rightarrow> nat \<Rightarrow> ustr \<Rightarrow> (path_info list \<times> path_info list) option" where
  "build path finals i leftBoundary text =
     (case buildByAcceptors path finals i of
        None \<Rightarrow> None
      | Some (path', infos) \<Rightarrow>
          if length infos > 0 then Some (path', infos)
          else map_option (\<lambda>info. (path', [info])) (fallback path' leftBoundary text i))"

section \<open>The path selector\<close>

definition better :: "path_info \<Rightarrow> path_info \<Rightarrow> bool" where
  "better path selected \<longleftrightarrow>
     (if p_unk path < p_unk selected then True
      else if p_unk path = p_unk selected then
        (if p_mw path < p_mw selected then True
         else p_mw path = p_mw selected \<and> p_w path < p_w selected)
      else False)"

text \<open>The reduction starts from \<open>null\<close>, which is also its value on no candidates.\<close>

definition selectPath :: "path_info list \<Rightarrow> path_info option" where
  "selectPath paths =
     foldl (\<lambda>selected path.
              case selected of
                None \<Rightarrow> Some path
              | Some s \<Rightarrow> if better path s then Some path else Some s) None paths"

section \<open>The core loop\<close>

text \<open>The loop of \<open>buildPath\<close> over the characters from position \<open>i\<close> on.\<close>

function buildPath_loop ::
    "ustr \<Rightarrow> nat \<Rightarrow> acceptors \<Rightarrow> path_info list \<Rightarrow> nat \<Rightarrow> path_info list option" where
  "buildPath_loop text i acc path leftBoundary =
     (if i < length text then
        (let acc' = acceptors_transit acc (text ! i) in
         case build path (getFinalAcceptors acc') i leftBoundary text of
           None \<Rightarrow> None
         | Some (path', infos) \<Rightarrow>
             (case selectPath infos of
                None \<Rightarrow> None
              | Some selected \<Rightarrow>
                  buildPath_loop text (i + 1) acc' (path' @ [selected])
                    (if p_type selected \<noteq> UNK then i else leftBoundary)))
      else Some path)"
  by pat_completeness auto
termination
  by (relation "measure (\<lambda>(text, i, _). length text - i)") auto

declare buildPath_loop.simps [simp del]

definition buildPath :: "acceptors \<Rightarrow> ustr \<Rightarrow> path_info list option" where
  "buildPath acc text = buildPath_loop text 0 (acceptors_reset acc) createPath 0"

section \<open>From a path to ranges and segments\<close>

record range =
  r_s :: "nat option"
  r_e :: nat

text \<open>
  \<open>pathToRanges\<close> walks from the last boundary to the front.  \<open>null > 0\<close> is false, so a
  \<open>null\<close> start ends the loop; a missing entry throws (\<open>None\<close>), and a path whose entries do
  not lead to the front would make the loop run forever (\<open>None\<close> as well).
\<close>

partial_function (option) ranges_loop ::
    "path_info list \<Rightarrow> nat \<Rightarrow> range list \<Rightarrow> range list option" where
  "ranges_loop path e ranges =
     (if e > 0 then
        (if length path \<le> e then None
         else
           (let info = path ! e;
                merging = (p_merge info \<noteq> None \<and> ranges \<noteq> []);
                s = (if merging then p_merge info else p_start info);
                ranges' = (if merging then (butlast ranges) @ [(last ranges)\<lparr>r_s := s\<rparr>]
                           else ranges @ [\<lparr>r_s = s, r_e = e\<rparr>])
            in (case s of None \<Rightarrow> Some (rev ranges')
                | Some e' \<Rightarrow> ranges_loop path e' ranges')))
      else Some (rev ranges))"

declare ranges_loop.simps [code]

definition pathToRanges :: "path_info list \<Rightarrow> range list option" where
  "pathToRanges path = ranges_loop path (length path - 1) []"

text \<open>\<open>text.substring(s, e)\<close>: clamps, swaps bounds in the wrong order, reads \<open>null\<close> as 0.\<close>

definition js_substring :: "ustr \<Rightarrow> nat option \<Rightarrow> nat \<Rightarrow> ustr" where
  "js_substring text s e =
     (let s' = (case s of None \<Rightarrow> 0 | Some k \<Rightarrow> k) in slice (min s' e) (max s' e) text)"

definition rangesToText :: "ustr \<Rightarrow> range list \<Rightarrow> ustr \<Rightarrow> ustr" where
  "rangesToText text ranges delimiter =
     join_with delimiter (map (\<lambda>r. js_substring text (r_s r) (r_e r)) ranges)"

definition cut_ranges :: "acceptors \<Rightarrow> ustr \<Rightarrow> range list option" where
  "cut_ranges acc text = Option.bind (buildPath acc text) pathToRanges"

definition cut :: "acceptors \<Rightarrow> ustr \<Rightarrow> ustr option \<Rightarrow> ustr option" where
  "cut acc text delimiter =
     map_option (\<lambda>rs. rangesToText text rs (case delimiter of None \<Rightarrow> u ''|'' | Some d \<Rightarrow> d))
       (cut_ranges acc text)"

text \<open>\<open>cutIntoRanges\<close>: the ranges, with their text unless \<open>noText\<close> is set.\<close>

definition cutIntoRanges :: "acceptors \<Rightarrow> ustr \<Rightarrow> bool \<Rightarrow> (range \<times> ustr option) list option" where
  "cutIntoRanges acc text noText =
     map_option (map (\<lambda>r. (r, if noText then None else Some (js_substring text (r_s r) (r_e r)))))
       (cut_ranges acc text)"

definition cutIntoArray :: "acceptors \<Rightarrow> ustr \<Rightarrow> ustr list option" where
  "cutIntoArray acc text =
     map_option (map (\<lambda>r. js_substring text (r_s r) (r_e r))) (cut_ranges acc text)"

section \<open>The path is well formed\<close>

text \<open>Every entry but the first starts before its own boundary, and so does its merge mark.\<close>

definition wf_entry :: "nat \<Rightarrow> path_info \<Rightarrow> bool" where
  "wf_entry k info \<longleftrightarrow>
     (\<exists>q. p_start info = Some q \<and> q < k) \<and> (\<forall>m. p_merge info = Some m \<longrightarrow> m < k)"

definition wf_path :: "path_info list \<Rightarrow> bool" where
  "wf_path path \<longleftrightarrow> path \<noteq> [] \<and> (\<forall>k. 0 < k \<and> k < length path \<longrightarrow> wf_entry k (path ! k))"

lemma wf_createPath [simp]: "wf_path createPath"
  by (simp add: wf_path_def createPath_def)

lemma wf_path_snoc:
  "wf_path path \<Longrightarrow> wf_entry (length path) info \<Longrightarrow> wf_path (path @ [info])"
  by (auto simp: wf_path_def nth_append less_Suc_eq)

lemma wf_path_merge:
  assumes "wf_path path" and "p < j" and "j < length path"
  shows "wf_path (path[j := (path ! j)\<lparr>p_merge := Some p\<rparr>])"
  using assms by (auto simp: wf_path_def wf_entry_def nth_list_update)

lemma fold_merges:
  assumes "wf_path path" and "\<forall>j \<in> set js. p < j \<and> j < length path"
  shows "wf_path (fold (\<lambda>j path. path[j := (path ! j)\<lparr>p_merge := Some p\<rparr>]) js path)
       \<and> length (fold (\<lambda>j path. path[j := (path ! j)\<lparr>p_merge := Some p\<rparr>]) js path) = length path"
  using assms
proof (induction js arbitrary: path)
  case (Cons j js)
  have "wf_path (path[j := (path ! j)\<lparr>p_merge := Some p\<rparr>])"
    using Cons.prems by (intro wf_path_merge) auto
  with Cons.IH [OF this] Cons.prems show ?case by simp
qed simp

lemma set_merges_wf:
  assumes "wf_path path" and "length path = Suc i"
  shows "\<exists>path'. set_merges path p i = Some path' \<and> wf_path path' \<and> length path' = Suc i"
  using fold_merges [OF assms(1), of "[p + 1..<i + 1]" p] assms(2)
  by (auto simp: set_merges_def)

lemma buildByAcceptors_wf:
  assumes "wf_path path" and "length path = Suc i"
    and "\<forall>a \<in> set as. 0 < a_off a \<and> a_off a \<le> Suc i"
  shows "\<exists>path' infos. buildByAcceptors path as i = Some (path', infos) \<and> wf_path path' \<and>
           length path' = Suc i \<and> length infos = length as \<and>
           (\<forall>info \<in> set infos. wf_entry (Suc i) info)"
  using assms
proof (induction as arbitrary: path)
  case (Cons a as)
  define p where "p = i + 1 - a_off a"
  have a: "0 < a_off a" "a_off a \<le> Suc i" using Cons.prems(3) by auto
  then have p: "int i - int (a_off a) + 1 = int p" "p \<le> i"
    by (auto simp: p_def)
  obtain path1 where
    path1: "(if a_tag a = PART then set_merges path p i else Some path) = Some path1"
      "wf_path path1" "length path1 = Suc i"
    using set_merges_wf [OF Cons.prems(1,2), of p] Cons.prems(1,2) by (cases "a_tag a = PART") auto
  from Cons.IH [OF path1(2,3)] Cons.prems(3) obtain path' infos where
    rest: "buildByAcceptors path1 as i = Some (path', infos)" "wf_path path'"
      "length path' = Suc i" "length infos = length as" "\<forall>info \<in> set infos. wf_entry (Suc i) info"
    by auto
  show ?case
    using p path1(1) rest Cons.prems(2)
    by (cases "a_tag a = PART") (simp_all add: Let_def wf_entry_def)
qed simp

lemma fallback_wf:
  assumes "wf_path path" and "length path = Suc i" and "lb \<le> i" and "i < length text"
  shows "\<exists>info. fallback path lb text i = Some info \<and> wf_entry (Suc i) info"
proof -
  have "\<exists>q. p_start (path ! lb) = Some q \<and> q < Suc i" if "lb \<noteq> 0"
    using assms that unfolding wf_path_def wf_entry_def
    by (metis gr0I le_imp_less_Suc less_SucI less_trans)
  with assms show ?thesis
    by (auto simp: fallback_def Let_def wf_entry_def)
qed

lemma build_wf:
  assumes "wf_path path" and "length path = Suc i" and "lb \<le> i" and "i < length text"
    and "\<forall>a \<in> set as. 0 < a_off a \<and> a_off a \<le> Suc i"
  shows "\<exists>path' infos. build path as i lb text = Some (path', infos) \<and> wf_path path' \<and>
           length path' = Suc i \<and> infos \<noteq> [] \<and> (\<forall>info \<in> set infos. wf_entry (Suc i) info)"
proof -
  obtain path' infos where
    b: "buildByAcceptors path as i = Some (path', infos)" "wf_path path'" "length path' = Suc i"
      "\<forall>info \<in> set infos. wf_entry (Suc i) info"
    using buildByAcceptors_wf [OF assms(1,2,5)] by blast
  from fallback_wf [OF b(2,3) assms(3,4)] b show ?thesis
    by (cases infos) (auto simp: build_def)
qed

section \<open>The selector picks a minimum\<close>

lemma selectPath_Cons:
  "selectPath (p # ps) = Some (foldl (\<lambda>s path. if better path s then path else s) p ps)"
proof -
  have "foldl (\<lambda>selected path. case selected of None \<Rightarrow> Some path
                 | Some s \<Rightarrow> if better path s then Some path else Some s) (Some s) ps
        = Some (foldl (\<lambda>s path. if better path s then path else s) s ps)" for s
    by (induction ps arbitrary: s) auto
  then show ?thesis by (simp add: selectPath_def)
qed

interpretation selector: strict_weak_order better
  by unfold_locales (auto simp: better_def split: if_splits)

section \<open>Totality of the loop\<close>

lemma buildPath_loop_wf:
  assumes "wf_path path" and "length path = Suc i" and "i \<le> length text" and "lb \<le> i"
    and "\<forall>a \<in> set (current acc). a_off a \<le> i"
  shows "\<exists>path'. buildPath_loop text i acc path lb = Some path' \<and> wf_path path' \<and>
           length path' = Suc (length text)"
  using assms
proof (induction "length text - i" arbitrary: i acc path lb)
  case 0
  then show ?case by (subst buildPath_loop.simps) auto
next
  case (Suc n)
  let ?acc = "acceptors_transit acc (text ! i)"
  from Suc.hyps(2) have i: "i < length text" by simp
  have pool: "\<forall>a \<in> set (current ?acc). 0 < a_off a \<and> a_off a \<le> Suc i"
    using Suc.prems(5) by (rule acceptors_transit_off)
  then have "\<forall>a \<in> set (getFinalAcceptors ?acc). 0 < a_off a \<and> a_off a \<le> Suc i"
    by (simp add: getFinalAcceptors_def)
  from build_wf [OF Suc.prems(1,2,4) i this] obtain path' infos where
    b: "build path (getFinalAcceptors ?acc) i lb text = Some (path', infos)" "wf_path path'"
      "length path' = Suc i" "infos \<noteq> []" "\<forall>info \<in> set infos. wf_entry (Suc i) info"
    by blast
  obtain sel where sel: "selectPath infos = Some sel" "sel \<in> set infos"
    using b(4) selector.foldl_least by (cases infos) (auto simp: selectPath_Cons)
  let ?lb = "if p_type sel \<noteq> UNK then i else lb"
  have "wf_path (path' @ [sel])"
    using b sel by (intro wf_path_snoc) auto
  with Suc.hyps(1) [of "Suc i" "path' @ [sel]" ?lb ?acc] Suc.hyps(2) Suc.prems b(3) pool i
  show ?case
    by (subst buildPath_loop.simps) (auto simp: b(1) sel(1) Let_def i)
qed

lemma buildPath_wf:
  "\<exists>path. buildPath acc text = Some path \<and> wf_path path \<and> length path = Suc (length text)"
  unfolding buildPath_def
  by (rule buildPath_loop_wf) (simp_all add: createPath_def acceptors_reset_def wf_path_def)

section \<open>The ranges tile the text\<close>

text \<open>\<open>chain a rs b\<close>: the ranges are non-empty and lead from \<open>a\<close> to \<open>b\<close> without a gap.\<close>

fun chain :: "nat \<Rightarrow> range list \<Rightarrow> nat \<Rightarrow> bool" where
  "chain a [] b \<longleftrightarrow> a = b"
| "chain a (r # rs) b \<longleftrightarrow> r_s r = Some a \<and> a < r_e r \<and> chain (r_e r) rs b"

lemma chain_le: "chain a rs b \<Longrightarrow> a \<le> b"
  by (induction rs arbitrary: a) (auto dest: less_imp_le order_trans)

lemma ranges_loop_chain:
  assumes "wf_path path" and "e < length path" and "chain e (rev ranges) n"
  shows "\<exists>rs. ranges_loop path e ranges = Some rs \<and> chain 0 rs n"
  using assms(2,3)
proof (induction e arbitrary: ranges rule: less_induct)
  case (less e)
  show ?case
  proof (cases "e > 0")
    case True
    let ?info = "path ! e"
    from True assms(1) less.prems(1) have wf: "wf_entry e ?info" by (simp add: wf_path_def)
    define merging where "merging \<longleftrightarrow> p_merge ?info \<noteq> None \<and> ranges \<noteq> []"
    obtain s where s: "(if merging then p_merge ?info else p_start ?info) = Some s" "s < e"
      using wf unfolding wf_entry_def by (cases merging) (auto simp: merging_def)
    let ?ranges = "if merging then butlast ranges @ [(last ranges)\<lparr>r_s := Some s\<rparr>]
                   else ranges @ [\<lparr>r_s = Some s, r_e = e\<rparr>]"
    have "chain s (rev ?ranges) n"
    proof (cases merging)
      case True
      then obtain xs r where "ranges = xs @ [r]" by (metis merging_def rev_exhaust)
      with less.prems(2) s(2) True show ?thesis by (auto dest: less_trans)
    qed (use less.prems(2) s(2) in simp)
    with less.IH [OF s(2)] s(2) less.prems(1)
    obtain rs where "ranges_loop path s ?ranges = Some rs" "chain 0 rs n" by auto
    then show ?thesis
      using True less.prems(1) s(1)
      by (cases merging) (auto simp: ranges_loop.simps [of path e] merging_def)
  next
    case False
    with less.prems(2) show ?thesis by (simp add: ranges_loop.simps)
  qed
qed

lemma cut_ranges_chain: "\<exists>rs. cut_ranges acc text = Some rs \<and> chain 0 rs (length text)"
proof -
  obtain path where "buildPath acc text = Some path" "wf_path path" "length path = Suc (length text)"
    using buildPath_wf by blast
  then show ?thesis
    using ranges_loop_chain [of path "length text" "[]" "length text"]
    by (simp add: cut_ranges_def pathToRanges_def)
qed

lemma chain_concat:
  "chain a rs b \<Longrightarrow> b \<le> length text \<Longrightarrow>
     concat (map (\<lambda>r. js_substring text (r_s r) (r_e r)) rs) = slice a b text"
proof (induction rs arbitrary: a)
  case (Cons r rs)
  then have "a < r_e r" "r_e r \<le> b" by (auto dest: chain_le)
  with Cons.prems Cons.IH [of "r_e r"] show ?case
    by (simp add: js_substring_def [where s = "Some a"] slice_append)
qed simp

lemma chain_nonempty:
  "chain a rs b \<Longrightarrow> b \<le> length text \<Longrightarrow> r \<in> set rs \<Longrightarrow> js_substring text (r_s r) (r_e r) \<noteq> []"
proof (induction rs arbitrary: a)
  case (Cons q rs)
  then show ?case
    by (auto simp: js_substring_def slice_def dest: chain_le)
qed simp

section \<open>Properties\<close>

text \<open>
  Property C1.  Cutting loses nothing: with any pool of rules and any dictionary, the segments
  of a text exist (no access throws and no loop runs forever), none of them is empty, and put
  together they are the text.
\<close>
theorem cutIntoArray_total:
  "\<exists>segs. cutIntoArray acc text = Some segs \<and> concat segs = text \<and> [] \<notin> set segs"
proof -
  obtain rs where rs: "cut_ranges acc text = Some rs" "chain 0 rs (length text)"
    using cut_ranges_chain by blast
  with chain_concat [OF rs(2) order_refl] chain_nonempty [OF rs(2) order_refl]
  show ?thesis by (fastforce simp: cutIntoArray_def)
qed


text \<open>
  The selector returns one of its candidates, and no candidate is better: fewer
  unknown characters first, then the smaller \<open>mw\<close>, then fewer words.
\<close>
theorem selectPath_minimum:
  "\<exists>s. selectPath (p # ps) = Some s \<and> s \<in> set (p # ps) \<and>
       \<not> (\<exists>q \<in> set (p # ps). p_unk q < p_unk s \<or>
             (p_unk q = p_unk s \<and> (p_mw q < p_mw s \<or> (p_mw q = p_mw s \<and> p_w q < p_w s))))"
proof -
  let ?s = "foldl (\<lambda>s path. if better path s then path else s) p ps"
  have "\<not> (p_unk q < p_unk ?s \<or> (p_unk q = p_unk ?s \<and>
           (p_mw q < p_mw ?s \<or> (p_mw q = p_mw ?s \<and> p_w q < p_w ?s))))"
    if "q \<in> set (p # ps)" for q
  proof -
    have "\<not> better q ?s" using selector.foldl_least [of p ps] that by blast
    then show ?thesis using better_def [of q ?s] by presburger
  qed
  then show ?thesis
    using selector.foldl_least [of p ps] unfolding selectPath_Cons by blast
qed

text \<open>
  What follows a recognised segment can take its last character along: after the
  Latin word \<open>ab\<close>, the unknown character U+0E01 is cut together with the \<open>b\<close>, because
  \<open>leftBoundary\<close> is set to the index of the last recognised character and not to the boundary
  after it.
\<close>
theorem unknown_takes_last_character:
  "cutIntoArray (wordcut_init [] [] NoPath False None) [97, 98, 0x0E01]
     = Some [[97], [98, 0x0E01]]"
  by code_simp

end
