(* ===== verification/Wordcut_Tokens.thy ===== *)
theory Wordcut_Tokens
  imports Wordcut_Core
begin

text \<open>
  What the whole cutter does to a text of Latin letters, digits, spaces and symbols: pool, path and
  ranges together cut it into its maximal runs.
\<close>

section \<open>Plain texts\<close>

definition plain_unit :: "nat \<Rightarrow> bool" where
  "plain_unit c \<longleftrightarrow> is_word_unit c \<or> is_dec c \<or> is_space_unit c \<or> is_symbol_unit c"

text \<open>Two characters that no cut separates.\<close>

definition same_run :: "nat \<Rightarrow> nat \<Rightarrow> bool" where
  "same_run c d \<longleftrightarrow>
     is_word_unit c \<and> is_word_unit d \<or> is_dec c \<and> is_dec d \<or> is_space_unit c \<and> is_space_unit d"

text \<open>A text cut into its runs: no run can be split, and none continues in the next.\<close>

definition run :: "ustr \<Rightarrow> bool" where
  "run s \<longleftrightarrow> s \<noteq> [] \<and>
     (list_all is_word_unit s \<or> list_all is_dec s \<or> list_all is_space_unit s \<or> symbol_lang s)"

definition cut_in_runs :: "ustr list \<Rightarrow> bool" where
  "cut_in_runs segs \<longleftrightarrow> list_all run segs \<and> successively (\<lambda>s t. \<not> same_run (last s) (hd t)) segs"

lemma is_word_unit_iff:
  "is_word_unit c \<longleftrightarrow> 65 \<le> c \<and> c \<le> 90 \<or> 97 \<le> c \<and> c \<le> 122 \<or> c = 0x130 \<or> c = 0x212A"
  by (auto simp: is_word_unit_def lower_unit_def u_def)

lemma is_symbol_unit_iff: "is_symbol_unit c \<longleftrightarrow> c \<in> {64, 40, 41, 47, 44, 45, 46, 34, 96}"
  by (auto simp: is_symbol_unit_def u_def)

lemmas unit_classes = is_word_unit_iff is_symbol_unit_iff is_space_unit_def

lemma classes_disjoint:
  "is_word_unit c \<Longrightarrow> \<not> is_dec c \<and> \<not> is_space_unit c \<and> \<not> is_symbol_unit c"
  "is_dec c \<Longrightarrow> \<not> is_space_unit c \<and> \<not> is_symbol_unit c"
  "is_space_unit c \<Longrightarrow> \<not> is_symbol_unit c"
  by (auto simp: unit_classes)

lemma plain_not_thai: "plain_unit c \<Longrightarrow> 0x0E01 \<le> c \<Longrightarrow> c \<le> 0x0E4F \<Longrightarrow> False"
  by (auto simp: plain_unit_def unit_classes)

text \<open>The length of the segment that ends a plain text.\<close>

definition tail_length :: "ustr \<Rightarrow> nat" where
  "tail_length q =
     (if is_word_unit (last q) then run_length is_word_unit q
      else if is_dec (last q) then run_length is_dec q
      else if is_space_unit (last q) then run_length is_space_unit q
      else 1)"

lemma run_length_pos: "q \<noteq> [] \<Longrightarrow> 0 < run_length P q \<longleftrightarrow> P (last q)"
  by (cases q rule: rev_cases) (simp_all add: run_length_def)

lemma run_length_le: "run_length P q \<le> length q"
  using length_takeWhile_le [of P "rev q"] by (simp add: run_length_def)

lemma run_length_suffix:
  "list_all P (drop (length q - run_length P q) q)"
  "run_length P q < length q \<Longrightarrow> \<not> P (q ! (length q - run_length P q - 1))"
proof -
  have "takeWhile P (rev q) = take (run_length P q) (rev q)"
    unfolding run_length_def by (rule takeWhile_eq_take)
  then have "rev (takeWhile P (rev q)) = drop (length q - run_length P q) q"
    by (simp only: rev_take rev_rev_ident length_rev)
  moreover have "list_all P (rev (takeWhile P (rev q)))"
    by (auto simp: list_all_iff dest: set_takeWhileD)
  ultimately show "list_all P (drop (length q - run_length P q) q)" by simp
  assume less: "run_length P q < length q"
  then have "\<not> P (rev q ! run_length P q)"
    using nth_length_takeWhile [of P "rev q"] by (simp add: run_length_def)
  with less show "\<not> P (q ! (length q - run_length P q - 1))" by (simp add: rev_nth)
qed

lemma tail_length_bounds:
  assumes "q \<noteq> []"
  shows "0 < tail_length q" and "tail_length q \<le> length q"
  using run_length_pos [OF assms] run_length_le [of _ q] assms
  by (auto simp: tail_length_def Suc_le_eq)

lemma same_run_last:
  assumes "P = is_word_unit \<or> P = (\<lambda>c. is_dec c) \<or> P = is_space_unit" and "P d" and "\<not> P c"
  shows "\<not> same_run c d"
  using assms classes_disjoint [of d] unfolding same_run_def by auto

lemma tail_is_run:
  assumes "q \<noteq> []" and "plain_unit (last q)"
  shows "run (drop (length q - tail_length q) q)"
    and "tail_length q < length q \<Longrightarrow>
      \<not> same_run (q ! (length q - tail_length q - 1)) (q ! (length q - tail_length q))"
proof -
  let ?k = "tail_length q"
  have runs: "run (drop (length q - ?k) q) \<and>
      (?k < length q \<longrightarrow> \<not> same_run (q ! (length q - ?k - 1)) (q ! (length q - ?k)))"
    if P: "P = is_word_unit \<or> P = (\<lambda>c. is_dec c) \<or> P = is_space_unit" and k: "?k = run_length P q" for P
  proof -
    have all: "list_all P (drop (length q - ?k) q)" using run_length_suffix(1) [of P q] k by simp
    have ne: "drop (length q - ?k) q \<noteq> []" using tail_length_bounds [OF assms(1)] by simp
    with all P have "run (drop (length q - ?k) q)" unfolding run_def by blast
    moreover have "P (q ! (length q - ?k))"
      using ne all by (simp add: list_all_iff) (metis hd_drop_conv_nth hd_in_set ne not_le drop_eq_Nil)
    ultimately show ?thesis
      using same_run_last [OF P] run_length_suffix(2) [of P q] k by simp
  qed
  have "run (drop (length q - ?k) q) \<and>
      (?k < length q \<longrightarrow> \<not> same_run (q ! (length q - ?k - 1)) (q ! (length q - ?k)))"
  proof (cases "is_word_unit (last q) \<or> is_dec (last q) \<or> is_space_unit (last q)")
    case True
    then have "?k = run_length is_word_unit q \<or> ?k = run_length (\<lambda>c. is_dec c) q \<or> ?k = run_length is_space_unit q"
      unfolding tail_length_def by argo
    with runs show ?thesis by blast
  next
    case False
    have "drop (length q - 1) q = [last q]" using assms(1) by (cases q rule: rev_cases) simp_all
    moreover from False have "?k = 1" "is_symbol_unit (last q)"
      using assms(2) by (auto simp: tail_length_def plain_unit_def)
    ultimately show ?thesis
      using False assms(1) by (simp add: run_def symbol_lang_def same_run_def last_conv_nth)
  qed
  then show "run (drop (length q - ?k) q)"
    and "?k < length q \<Longrightarrow> \<not> same_run (q ! (length q - ?k - 1)) (q ! (length q - ?k))" by blast+
qed

section \<open>The pool on a plain text\<close>

lemma isMatch_thai:
  assumes "list_all (\<lambda>c. 0x0E01 \<le> c \<and> c \<le> 0x0E4F) pat" and "isMatch pat i c"
  shows "0x0E01 \<le> c \<and> c \<le> 0x0E4F"
proof -
  have "pat ! i \<in> set pat" using assms(2) by (auto simp: isMatch_def split: if_splits)
  with assms show ?thesis
    by (auto simp: isMatch_def is_consonant_def list_all_iff Let_def split: if_splits)
qed

lemma fits_not_plain:
  assumes "list_all (\<lambda>c. 0x0E01 \<le> c \<and> c \<le> 0x0E4F) pat" and "fits pat w" and "w \<noteq> []"
  shows "\<not> plain_unit (last w)"
  using assms plain_not_thai isMatch_thai [OF assms(1)] by (cases w rule: rev_cases) auto

lemma pattern_lang_not_plain:
  "w \<noteq> [] \<Longrightarrow> rule0_lang w \<or> part_lang w \<Longrightarrow> \<not> plain_unit (last w)"
proof -
  have "list_all (\<lambda>c. 0x0E01 \<le> c \<and> c \<le> 0x0E4F) pat" if "pat = rule0_pat \<or> pat \<in> set part_patterns" for pat
    using that by (auto simp: rule0_pat_def part_patterns_def)
  then show "w \<noteq> [] \<Longrightarrow> rule0_lang w \<or> part_lang w \<Longrightarrow> ?thesis"
    using fits_not_plain by (auto simp: rule0_lang_def part_lang_def list_ex_iff)
qed

text \<open>A dictionary that has no word to offer for plain texts.\<close>

definition no_plain_words :: "ustr list \<Rightarrow> bool" where
  "no_plain_words D \<longleftrightarrow> list_all (\<lambda>w. w = [] \<or> \<not> list_all plain_unit w) D"

lemma plain_finals:
  assumes q: "q \<noteq> []" "list_all plain_unit q"
    and D: "no_plain_words (init_dict builtin dflt p withDefault words)"
  defines "F \<equiv> getFinalAcceptors (pool_run (wordcut_init builtin dflt p withDefault words) q)"
  shows "F \<noteq> []" and "a \<in> set F \<Longrightarrow> a_off a = tail_length q \<and> a_tag a \<noteq> PART \<and> a_tag a \<noteq> UNK"
proof -
  note sole = sole_creators [of builtin dflt p withDefault words]
  obtain ws where ws: "init_dict builtin dflt p withDefault words = finalizeDict ws"
      "set ws = set (init_dict builtin dflt p withDefault words)"
    using set_init_dict by blast
  note runs = word_rule.pool_final [OF sole(1), of q] number_rule.pool_final [OF sole(2), of q]
    space_rule.pool_final [OF sole(3), of q]
  note finals = runs symbol_rule.pool_final [OF sole(4), of q]
    thai_rule.pool_final [OF sole(5), of q] part_rule.pool_final [OF sole(6), of q]
    dict_rule.pool_final [of ws, OF sole(7) [unfolded ws(1)], of q]
  have plain_tail: "plain_unit (last w)" "last w = last q" "list_all plain_unit w"
    if "q = v @ w" "0 < length w" for v w
    using that q by (auto simp: list_all_iff)
  have found: "\<exists>b \<in> set (getFinalAcceptors (pool_run (wordcut_init builtin dflt p withDefault words) q)).
      a_tag b = t \<and> a_off b = a_off a" if "a \<in> set F" "a_tag a = t" for t
    using that unfolding F_def by blast
  note finals = finals [unfolded c_tag.simps]
  show "a_off a = tail_length q \<and> a_tag a \<noteq> PART \<and> a_tag a \<noteq> UNK" if "a \<in> set F"
  proof (cases "a_tag a")
    case WORD_RULE
    from finals(1) [THEN iffD1, OF found [OF that this]] have "a_off a = run_length is_word_unit q" "0 < a_off a" by auto
    with run_length_pos [OF q(1), of is_word_unit] WORD_RULE show ?thesis by (simp add: tail_length_def)
  next
    case NUMBER_RULE
    from finals(2) [THEN iffD1, OF found [OF that this]] have "a_off a = run_length (\<lambda>c. is_dec c) q" "0 < a_off a" by auto
    with run_length_pos [OF q(1), of "\<lambda>c. is_dec c"] classes_disjoint [of "last q"] NUMBER_RULE
    show ?thesis by (auto simp: tail_length_def)
  next
    case SPACE_RULE
    from finals(3) [THEN iffD1, OF found [OF that this]] have "a_off a = run_length is_space_unit q" "0 < a_off a" by auto
    with run_length_pos [OF q(1), of is_space_unit] classes_disjoint [of "last q"] SPACE_RULE
    show ?thesis by (auto simp: tail_length_def)
  next
    case SINSYM
    from finals(4) [THEN iffD1, OF found [OF that this]] obtain v w where w: "q = v @ w" "length w = a_off a" "symbol_lang w"
      by auto
    then have "is_symbol_unit (last q)" "a_off a = 1" by (auto simp: symbol_lang_def length_Suc_conv)
    with classes_disjoint [of "last q"] SINSYM show ?thesis by (auto simp: tail_length_def)
  next
    case THAI_RULE
    from finals(5) [THEN iffD1, OF found [OF that this]] obtain v w where "q = v @ w" "0 < length w" "rule0_lang w"
      by metis
    with plain_tail(1) pattern_lang_not_plain have False by blast
    then show ?thesis ..
  next
    case PART
    from finals(6) [THEN iffD1, OF found [OF that this]] obtain v w where "q = v @ w" "0 < length w" "part_lang w"
      by metis
    with plain_tail(1) pattern_lang_not_plain have False by blast
    then show ?thesis ..
  next
    case DICT
    from finals(7) [THEN iffD1, OF found [OF that this]] obtain v w where "q = v @ w" "0 < length w" "w \<in> set ws"
      by metis
    with plain_tail(3) D ws(2) have False by (auto simp: no_plain_words_def list_all_iff)
    then show ?thesis ..
  qed (cases a; simp)+
  show "F \<noteq> []"
  proof -
    have some: "\<exists>a. a \<in> set F"
      if "\<exists>b \<in> set (getFinalAcceptors (pool_run (wordcut_init builtin dflt p withDefault words) q)).
        a_tag b = t \<and> a_off b = k" for t k
      using that unfolding F_def by blast
    have "\<exists>a. a \<in> set F"
    proof (cases "is_symbol_unit (last q)")
      case True
      have "q = butlast q @ [last q]" "symbol_lang [last q]" using q(1) True by (simp_all add: symbol_lang_def)
      then have "\<exists>v w. q = v @ w \<and> length w = 1 \<and> symbol_lang w" by fastforce
      with finals(4) [of 1] show ?thesis unfolding F_def by auto
    next
      case False
      then consider "is_word_unit (last q)" | "is_dec (last q)" | "is_space_unit (last q)"
        using plain_tail(1) [of "[]" q] q(1) by (auto simp: plain_unit_def)
      then show ?thesis
      proof cases
        case 1
        then show ?thesis by (intro some [OF finals(1) [THEN iffD2]]) (rule conjI [OF _ refl], simp add: run_length_pos [OF q(1)])
      next
        case 2
        then show ?thesis by (intro some [OF finals(2) [THEN iffD2]]) (rule conjI [OF _ refl], simp add: run_length_pos [OF q(1)])
      next
        case 3
        then show ?thesis by (intro some [OF finals(3) [THEN iffD2]]) (rule conjI [OF _ refl], simp add: run_length_pos [OF q(1)])
      qed
    qed
    then show ?thesis by auto
  qed
qed

section \<open>The path and its ranges\<close>

text \<open>Entry \<open>j\<close> starts where the segment that ends the first \<open>j\<close> characters starts.\<close>

definition run_path :: "ustr \<Rightarrow> path_info list \<Rightarrow> bool" where
  "run_path text path \<longleftrightarrow>
     (\<forall>j. 0 < j \<and> j < length path \<longrightarrow>
        p_start (path ! j) = Some (j - tail_length (take j text)) \<and> p_merge (path ! j) = None)"

lemma buildByAcceptors_alike:
  assumes "length path = Suc i" and "0 < k" and "k \<le> Suc i"
    and "\<forall>a \<in> set as. a_off a = k \<and> a_tag a \<noteq> PART \<and> a_tag a \<noteq> UNK"
  shows "\<exists>infos. buildByAcceptors path as i = Some (path, infos) \<and> length infos = length as \<and>
    (\<forall>info \<in> set infos. p_start info = Some (Suc i - k) \<and> p_merge info = None)"
  using assms(4)
proof (induction as)
  case (Cons a as)
  then obtain infos where "buildByAcceptors path as i = Some (path, infos)" "length infos = length as"
      "\<forall>info \<in> set infos. p_start info = Some (Suc i - k) \<and> p_merge info = None" by auto
  moreover have "int i - int k + 1 = int (Suc i - k)" using assms(2,3) by simp
  ultimately show ?case using Cons.prems assms(1-3) by (simp add: Let_def)
qed simp

lemma buildPath_loop_runs:
  fixes builtin dflt p withDefault words
  defines "P \<equiv> wordcut_init builtin dflt p withDefault words"
  assumes D: "no_plain_words (init_dict builtin dflt p withDefault words)" and plain: "list_all plain_unit text"
    and "run_path text path" and "length path = Suc i" and "i \<le> length text"
  shows "\<exists>path'. buildPath_loop text i (pool_run P (take i text)) path lb = Some path' \<and>
    run_path text path' \<and> length path' = Suc (length text)"
  using assms(4-6)
proof (induction "length text - i" arbitrary: i path lb)
  case 0
  then show ?case by (subst buildPath_loop.simps) auto
next
  case (Suc n)
  let ?q = "take (Suc i) text"
  from Suc.hyps(2) have i: "i < length text" by simp
  then have q: "?q \<noteq> []" "list_all plain_unit ?q" "length ?q = Suc i"
    using plain by (auto simp: list_all_iff dest: in_set_takeD)
  have next_pool: "acceptors_transit (pool_run P (take i text)) (text ! i) = pool_run P ?q"
    using i by (simp add: take_Suc_conv_app_nth pool_run_snoc)
  let ?as = "getFinalAcceptors (pool_run P ?q)"
  have as: "?as \<noteq> []" "\<forall>a \<in> set ?as. a_off a = tail_length ?q \<and> a_tag a \<noteq> PART \<and> a_tag a \<noteq> UNK"
    using plain_finals [OF q(1,2) D] unfolding P_def by blast+
  obtain infos where infos: "buildByAcceptors path ?as i = Some (path, infos)" "infos \<noteq> []"
      "\<forall>info \<in> set infos. p_start info = Some (Suc i - tail_length ?q) \<and> p_merge info = None"
    using buildByAcceptors_alike [OF Suc.prems(2) _ _ as(2)] tail_length_bounds [OF q(1)] q(3) as(1) by force
  then have b: "build path ?as i lb text = Some (path, infos)" by (simp add: build_def)
  obtain sel where sel: "selectPath infos = Some sel" "sel \<in> set infos"
    using infos(2) selector.foldl_least by (cases infos) (auto simp: selectPath_Cons)
  have "run_path text (path @ [sel])"
    using Suc.prems(1,2) infos(3) sel(2) by (auto simp: run_path_def nth_append less_Suc_eq)
  from Suc.hyps(1) [OF _ this, of "Suc i" "if p_type sel \<noteq> UNK then i else lb"] Suc.hyps(2) Suc.prems(2) i
  show ?case
    by (subst buildPath_loop.simps) (auto simp: next_pool b sel(1) Let_def)
qed

lemma successively_snoc:
  "successively R (xs @ [x]) \<longleftrightarrow> successively R xs \<and> (xs \<noteq> [] \<longrightarrow> R (last xs) x)"
  by (auto simp: successively_append_iff)

lemma ranges_loop_runs:
  assumes path: "run_path text path" "length path = Suc (length text)" and plain: "list_all plain_unit text"
    and "e \<le> length text"
  shows "\<exists>rs. ranges_loop path e ranges = Some (rs @ rev ranges) \<and>
    concat (map (\<lambda>r. js_substring text (r_s r) (r_e r)) rs) = take e text \<and>
    cut_in_runs (map (\<lambda>r. js_substring text (r_s r) (r_e r)) rs)"
  using assms(4)
proof (induction e arbitrary: ranges rule: less_induct)
  case (less e)
  show ?case
  proof (cases "e > 0")
    case False
    then show ?thesis by (simp add: ranges_loop.simps cut_in_runs_def)
  next
    case True
    let ?q = "take e text" and ?cut = "map (\<lambda>r. js_substring text (r_s r) (r_e r))"
    let ?s = "e - tail_length ?q"
    have q: "?q \<noteq> []" "length ?q = e" using True less.prems by auto
    then have "last ?q \<in> set text" by (meson in_set_takeD last_in_set)
    with plain have last_q: "plain_unit (last ?q)" by (simp add: list_all_iff)
    note k = tail_length_bounds [OF q(1)]
    have entry: "p_start (path ! e) = Some ?s" "p_merge (path ! e) = None" "e < length path"
      using path True less.prems by (auto simp: run_path_def)
    let ?r = "\<lparr>r_s = Some ?s, r_e = e\<rparr>"
    have lt: "?s < e" "?s \<le> length text" using k q(2) less.prems True by auto
    obtain rs where rs: "ranges_loop path ?s (ranges @ [?r]) = Some (rs @ rev (ranges @ [?r]))"
        "concat (?cut rs) = take ?s text" "cut_in_runs (?cut rs)"
      using less.IH [OF lt, of "ranges @ [?r]"] by blast
    have seg: "js_substring text (Some ?s) e = drop ?s ?q"
      using k by (simp add: js_substring_def slice_def drop_take)
    have "ranges_loop path e ranges = Some ((rs @ [?r]) @ rev ranges)"
      using True entry rs(1) by (simp add: ranges_loop.simps [of path e])
    moreover have "concat (?cut (rs @ [?r])) = ?q"
      using rs(2) seg append_take_drop_id [of ?s ?q] by (simp add: min_def)
    moreover have "cut_in_runs (?cut (rs @ [?r]))"
    proof -
      have "\<not> same_run (last (last (?cut rs))) (hd (drop ?s ?q))" if "?cut rs \<noteq> []"
      proof -
        have ne: "last (?cut rs) \<noteq> []"
          using rs(3) that last_in_set [OF that] by (auto simp: cut_in_runs_def run_def list_all_iff)
        have "?cut rs = butlast (?cut rs) @ [last (?cut rs)]" using that by simp
        then have "last (concat (?cut rs)) = last (last (?cut rs))" "concat (?cut rs) \<noteq> []"
          using ne by (metis concat.simps concat_append append_Nil2 last_appendR, metis concat_eq_Nil_conv last_in_set that)
        then have s: "0 < ?s" "last (last (?cut rs)) = text ! (?s - 1)"
          using rs(2) k less.prems by (auto simp: last_conv_nth)
        moreover have "hd (drop ?s ?q) = ?q ! ?s" "?q ! (?s - 1) = text ! (?s - 1)"
          using k q(2) True s(1) by (simp_all add: hd_drop_conv_nth)
        ultimately show ?thesis
          using tail_is_run(2) [OF q(1) last_q] q(2) by simp
      qed
      with rs(3) tail_is_run(1) [OF q(1) last_q] q(2) seg show ?thesis
        by (simp add: cut_in_runs_def successively_snoc)
    qed
    ultimately show ?thesis by blast
  qed
qed

section \<open>Property\<close>



end
