(* ===== verification/Js_Path.thy ===== *)
theory Js_Path
  imports Prelude
begin

text \<open>
  The POSIX path module of the bundle (module 22 of
  \<open>site/assets/javascripts/lunr/wordcut.js\<close>): normalising, resolving, joining and splitting
  file names.  \<open>process.cwd\<close> is the shim of module 24, which always answers \<open>/\<close>.
\<close>

abbreviation SLASH :: nat where "SLASH \<equiv> 47"
abbreviation DOT :: nat where "DOT \<equiv> 46"
abbreviation dot :: ustr where "dot \<equiv> [DOT]"
abbreviation dotdot :: ustr where "dotdot \<equiv> [DOT, DOT]"

section \<open>normalizeArray\<close>

text \<open>
  The loop runs from the last part to the first, counting in \<open>up\<close> the parents still to drop;
  the recursion is over the reversed array, and \<open>kept\<close> is what the splices left behind.
\<close>

fun normalize_loop :: "ustr list \<Rightarrow> nat \<Rightarrow> ustr list \<Rightarrow> nat \<times> ustr list" where
  "normalize_loop [] up kept = (up, kept)"
| "normalize_loop (part # rest) up kept =
     (if part = dot then normalize_loop rest up kept
      else if part = dotdot then normalize_loop rest (up + 1) kept
      else if up > 0 then normalize_loop rest (up - 1) kept
      else normalize_loop rest up (part # kept))"

definition normalizeArray :: "ustr list \<Rightarrow> bool \<Rightarrow> ustr list" where
  "normalizeArray parts allowAboveRoot =
     (let (up, kept) = normalize_loop (rev parts) 0 []
      in if allowAboveRoot then replicate up dotdot @ kept else kept)"

section \<open>The operations\<close>

definition isAbsolute :: "ustr \<Rightarrow> bool" where
  "isAbsolute path \<longleftrightarrow> take 1 path = [SLASH]"

text \<open>The module's own \<open>filter\<close>, with the test \<open>!!p\<close>, over the parts of a path.\<close>

definition path_parts :: "ustr \<Rightarrow> ustr list" where
  "path_parts path = filter (\<lambda>p. p \<noteq> []) (split_on SLASH path)"

definition js_normalize :: "ustr \<Rightarrow> ustr" where
  "js_normalize path =
     (let absolute = isAbsolute path;
          trailingSlash = (path \<noteq> [] \<and> last path = SLASH);
          path1 = join_with [SLASH] (normalizeArray (path_parts path) (\<not> absolute));
          path2 = (if path1 = [] \<and> \<not> absolute then dot else path1);
          path3 = (if path2 \<noteq> [] \<and> trailingSlash then path2 @ [SLASH] else path2)
      in (if absolute then [SLASH] else []) @ path3)"

definition process_cwd :: ustr where
  "process_cwd = [SLASH]"

text \<open>
  \<open>resolve\<close> reads its arguments from the last to the first, then the working directory, until
  one is absolute; the list argument is in that order.
\<close>

fun resolve_loop :: "ustr list \<Rightarrow> ustr \<Rightarrow> ustr \<times> bool" where
  "resolve_loop [] resolved = (resolved, False)"
| "resolve_loop (path # paths) resolved =
     (if path = [] then resolve_loop paths resolved
      else if isAbsolute path then (path @ [SLASH] @ resolved, True)
      else resolve_loop paths (path @ [SLASH] @ resolved))"

definition resolve :: "ustr list \<Rightarrow> ustr" where
  "resolve args =
     (let (resolved, absolute) = resolve_loop (rev args @ [process_cwd]) [];
          path = join_with [SLASH] (normalizeArray (path_parts resolved) (\<not> absolute));
          full = (if absolute then [SLASH] else []) @ path
      in if full = [] then dot else full)"

definition js_join :: "ustr list \<Rightarrow> ustr" where
  "js_join paths = js_normalize (join_with [SLASH] (filter (\<lambda>p. p \<noteq> []) paths))"

text \<open>The helper \<open>trim\<close> of \<open>relative\<close>, with the second bound of its \<open>slice\<close> as written.\<close>

definition trim_parts :: "ustr list \<Rightarrow> ustr list" where
  "trim_parts arr =
     (let start = length (takeWhile (\<lambda>p. p = []) arr);
          stop = int (length arr) - 1 - int (length (takeWhile (\<lambda>p. p = []) (rev arr)))
      in if int start > stop then []
         else slice start (nat (stop - int start + 1)) arr)"

fun same_parts :: "ustr list \<Rightarrow> ustr list \<Rightarrow> nat" where
  "same_parts (f # fs) (t # ts) = (if f \<noteq> t then 0 else Suc (same_parts fs ts))"
| "same_parts _ _ = 0"

definition relative :: "ustr \<Rightarrow> ustr \<Rightarrow> ustr" where
  "relative from_path to_path =
     (let fromParts = trim_parts (split_on SLASH (drop 1 (resolve [from_path])));
          toParts = trim_parts (split_on SLASH (drop 1 (resolve [to_path])));
          same = same_parts fromParts toParts
      in join_with [SLASH] (replicate (length fromParts - same) dotdot @ drop same toParts))"

section \<open>Splitting a file name\<close>

text \<open>
  \<open>splitPathRe\<close> as the search its backtracking performs: the candidates for the root, the
  directory (shortest first), the base and the extension are tried in this order, and what is left
  must be slashes only.
\<close>

definition root_cands :: "ustr \<Rightarrow> nat list" where
  "root_cands s = (if take 1 s = [SLASH] then [1, 0] else [0])"

definition base_cands :: "ustr \<Rightarrow> nat list" where
  "base_cands s =
     (if take 2 s = dotdot then [2, 1] else if take 1 s = dot then [1] else [])
     @ [1..<Suc (length (takeWhile (\<lambda>c. c \<noteq> SLASH) s))] @ [0]"

definition ext_cands :: "ustr \<Rightarrow> nat list" where
  "ext_cands s =
     (if take 1 s = dot
      then rev [1..<length (takeWhile (\<lambda>c. c \<noteq> DOT \<and> c \<noteq> SLASH) (drop 1 s)) + 2] else [])
     @ [0]"

definition split_cands :: "ustr \<Rightarrow> (nat \<times> nat \<times> nat \<times> nat) list" where
  "split_cands s =
     concat (map (\<lambda>r. concat (map (\<lambda>d. concat (map (\<lambda>b. map (\<lambda>e. (r, d, b, e))
         (ext_cands (drop (r + d + b) s)))
       (base_cands (drop (r + d) s))))
     [0..<Suc (length s - r)])) (root_cands s))"

definition splitPath :: "ustr \<Rightarrow> (ustr \<times> ustr \<times> ustr \<times> ustr) option" where
  "splitPath s =
     (case find (\<lambda>(r, d, b, e). list_all (\<lambda>c. c = SLASH) (drop (r + d + b + e) s)) (split_cands s) of
        None \<Rightarrow> None
      | Some (r, d, b, e) \<Rightarrow>
          Some (slice 0 r s, slice r (r + d) s, slice (r + d) (r + d + b + e) s,
                slice (r + d + b) (r + d + b + e) s))"

definition dirname :: "ustr \<Rightarrow> ustr option" where
  "dirname path =
     map_option (\<lambda>(root, dir, _, _).
        if root = [] \<and> dir = [] then dot
        else root @ (if dir \<noteq> [] then take (length dir - 1) dir else dir)) (splitPath path)"

text \<open>\<open>f.substr(-1 * ext.length)\<close>: the last characters of \<open>f\<close>, all of it when it is shorter.\<close>

definition basename :: "ustr \<Rightarrow> ustr option \<Rightarrow> ustr option" where
  "basename path ext =
     map_option (\<lambda>(_, _, f, _).
        case ext of
          None \<Rightarrow> f
        | Some x \<Rightarrow>
            if x \<noteq> [] \<and> drop (length f - length x) f = x then take (length f - length x) f else f)
       (splitPath path)"

definition extname :: "ustr \<Rightarrow> ustr option" where
  "extname path = map_option (\<lambda>(_, _, _, x). x) (splitPath path)"

section \<open>The backward loop is a forward stack\<close>

text \<open>The reading left to right that one would specify: a stack of the directories entered.\<close>

definition path_step :: "bool \<Rightarrow> ustr list \<Rightarrow> ustr \<Rightarrow> ustr list" where
  "path_step allow st p =
     (if p = dot then st
      else if p = dotdot then
        (case st of [] \<Rightarrow> (if allow then [dotdot] else [])
         | x # xs \<Rightarrow> (if x = dotdot then dotdot # st else xs))
      else p # st)"

definition path_stack :: "bool \<Rightarrow> ustr list \<Rightarrow> ustr list" where
  "path_stack allow parts = rev (foldl (path_step allow) [] parts)"

fun nf :: "ustr list \<Rightarrow> nat \<times> ustr list" where
  "nf [] = (0, [])"
| "nf (p # ps) =
     (let (up, names) = nf ps in
      if p = dot then (up, names)
      else if p = dotdot then (up + 1, names)
      else if up > 0 then (up - 1, names)
      else (up, p # names))"

lemma normalize_loop_nf:
  "normalize_loop (rev ps @ rest) 0 [] = normalize_loop rest (fst (nf ps)) (snd (nf ps))"
  by (induction ps arbitrary: rest) (auto simp: Let_def split: prod.splits)

lemma normalizeArray_nf:
  "normalizeArray ps allow = (if allow then replicate (fst (nf ps)) dotdot @ snd (nf ps) else snd (nf ps))"
  using normalize_loop_nf [of ps "[]"] by (simp add: normalizeArray_def split: prod.splits)

definition names_only :: "ustr list \<Rightarrow> bool" where
  "names_only ps \<longleftrightarrow> dot \<notin> set ps \<and> dotdot \<notin> set ps"

lemma names_only_simps [simp]:
  "names_only []"
  "names_only (p # ps) \<longleftrightarrow> p \<noteq> dot \<and> p \<noteq> dotdot \<and> names_only ps"
  "names_only (ps @ qs) \<longleftrightarrow> names_only ps \<and> names_only qs"
  "names_only (rev ps) \<longleftrightarrow> names_only ps"
  by (auto simp: names_only_def)

lemma names_only_take_drop [simp]:
  "names_only ps \<Longrightarrow> names_only (take n ps)" "names_only ps \<Longrightarrow> names_only (drop n ps)"
  by (auto simp: names_only_def dest: in_set_takeD in_set_dropD)

lemma nf_names: "names_only (snd (nf ps))"
  by (induction ps) (auto simp: Let_def split: prod.splits)

lemma nf_subset: "set (snd (nf ps)) \<subseteq> set ps"
  by (induction ps) (auto simp: Let_def split: prod.splits if_splits)

lemma foldl_path_step:
  "names_only ns \<Longrightarrow> allow \<or> n = 0 \<Longrightarrow>
   foldl (path_step allow) (ns @ replicate n dotdot) ps =
     (let (up, names) = nf ps in
      rev names @ (if up \<le> length ns then drop up ns @ replicate n dotdot
                   else replicate (if allow then n + up - length ns else 0) dotdot))"
proof (induction ps arbitrary: ns n)
  case (Cons p ps)
  obtain up names where nf: "nf ps = (up, names)" by fastforce
  consider "p = dot" | (up) "p = dotdot" | (name) "p \<noteq> dot" "p \<noteq> dotdot" by blast
  then show ?case
  proof cases
    case up
    show ?thesis
    proof (cases ns)
      case Nil
      have "path_step allow (replicate n dotdot) dotdot = replicate (if allow then Suc n else 0) dotdot"
        using Cons.prems by (cases n) (auto simp: path_step_def)
      with Cons.IH [of "[]" "if allow then Suc n else 0"] Cons.prems nf up Nil show ?thesis
        by auto
    next
      case (Cons x xs)
      then show ?thesis
        using Cons.IH [of xs n] Cons.prems nf up by (auto simp: path_step_def)
    qed
  next
    case name
    have "path_step allow (ns @ replicate n dotdot) p = (p # ns) @ replicate n dotdot"
      using name by (simp add: path_step_def)
    with Cons.IH [of "p # ns" n] Cons.prems nf name show ?thesis
      by (cases up) (auto simp: Let_def)
  qed (use Cons nf in \<open>simp add: path_step_def\<close>)
qed simp

lemma normalizeArray_stack: "normalizeArray ps allow = path_stack allow ps"
  using foldl_path_step [of "[]" allow 0 ps]
  by (auto simp: normalizeArray_nf path_stack_def split: prod.splits)

section \<open>Normal forms\<close>

definition good_parts :: "ustr list \<Rightarrow> bool" where
  "good_parts ps \<longleftrightarrow> (\<forall>p \<in> set ps. p \<noteq> [] \<and> SLASH \<notin> set p)"

lemma good_parts_simps [simp]:
  "good_parts []"
  "good_parts (p # ps) \<longleftrightarrow> p \<noteq> [] \<and> SLASH \<notin> set p \<and> good_parts ps"
  "good_parts (ps @ qs) \<longleftrightarrow> good_parts ps \<and> good_parts qs"
  "good_parts (replicate n dotdot)"
  by (auto simp: good_parts_def)

lemma good_parts_drop [simp]: "good_parts ps \<Longrightarrow> good_parts (drop n ps)"
  by (auto simp: good_parts_def dest: in_set_dropD)

lemma good_path_parts [simp]: "good_parts (path_parts path)"
  by (auto simp: good_parts_def path_parts_def dest: split_on_parts)

lemma path_parts_sep: "path_parts (a @ SLASH # b) = path_parts a @ path_parts b"
  by (simp add: path_parts_def split_on_sep)

lemma path_parts_small [simp]: "path_parts [] = []" "path_parts [SLASH] = []"
  by (simp_all add: path_parts_def)

lemma path_parts_join: "good_parts ps \<Longrightarrow> path_parts (join_with [SLASH] ps) = ps"
  by (cases "ps = []") (auto simp: path_parts_def split_join_with good_parts_def)

lemma normalizeArray_normal:
  "\<exists>n names. normalizeArray ps allow = replicate n dotdot @ names \<and> names_only names \<and>
     (allow \<or> n = 0) \<and> set names \<subseteq> set ps"
  using nf_names [of ps] nf_subset [of ps] unfolding normalizeArray_nf
  by (metis append_Nil replicate_0)

lemma nf_of_names: "names_only names \<Longrightarrow> nf names = (0, names)"
  by (induction names) auto

lemma nf_of_normal: "names_only names \<Longrightarrow> nf (replicate n dotdot @ names) = (n, names)"
  by (induction n) (auto simp: nf_of_names)

lemma normalizeArray_idem: "normalizeArray (normalizeArray ps allow) allow = normalizeArray ps allow"
proof -
  obtain n names where N: "normalizeArray ps allow = replicate n dotdot @ names"
      "names_only names" "allow \<or> n = 0"
    using normalizeArray_normal by blast
  have "normalizeArray (replicate n dotdot @ names) allow = replicate n dotdot @ names"
    using nf_of_normal [OF N(2), of n] N(3) by (auto simp: normalizeArray_nf)
  with N(1) show ?thesis by simp
qed

lemma good_normalizeArray [simp]: "good_parts ps \<Longrightarrow> good_parts (normalizeArray ps allow)"
  using normalizeArray_normal [of ps allow] unfolding good_parts_def by fastforce

lemma join_good_ends:
  assumes "good_parts ps" and "ps \<noteq> []"
  shows "join_with [SLASH] ps \<noteq> []" and "hd (join_with [SLASH] ps) \<noteq> SLASH"
    and "last (join_with [SLASH] ps) \<noteq> SLASH"
  using assms
  by (induction ps rule: induct_list012) (auto dest: hd_in_set last_in_set)

lemma isAbsolute_hd: "isAbsolute p \<longleftrightarrow> p \<noteq> [] \<and> hd p = SLASH"
  by (cases p) (auto simp: isAbsolute_def)

lemma js_normalize_parts:
  assumes "good_parts P" and "P \<noteq> []" and "normalizeArray P (\<not> absolute) = P"
  shows "js_normalize ((if absolute then [SLASH] else []) @ join_with [SLASH] P @
           (if trailing then [SLASH] else []))
       = (if absolute then [SLASH] else []) @ join_with [SLASH] P @ (if trailing then [SLASH] else [])"
proof -
  let ?J = "join_with [SLASH] P"
  let ?r = "(if absolute then [SLASH] else []) @ ?J @ (if trailing then [SLASH] else [])"
  note ends = join_good_ends [OF assms(1,2)]
  have parts: "path_parts ?r = P"
    using path_parts_join [OF assms(1)] path_parts_sep [of "[]" ?J]
      path_parts_sep [of ?J "[]"] path_parts_sep [of "[]" "?J @ [SLASH]"] by auto
  have "isAbsolute ?r = absolute" and "(?r \<noteq> [] \<and> last ?r = SLASH) = trailing"
    using ends by (auto simp: isAbsolute_hd)
  with parts assms(3) ends(1) show ?thesis
    by (simp add: js_normalize_def Let_def)
qed

section \<open>Resolving\<close>

lemma resolve_one:
  "resolve [x] = SLASH # join_with [SLASH] (normalizeArray (path_parts x) False)"
proof -
  have "resolve_loop [x, process_cwd] [] =
      (if x = [] then ([SLASH, SLASH], True) else if isAbsolute x then (x @ [SLASH], True)
       else ([SLASH, SLASH] @ x @ [SLASH], True))"
    by (simp add: process_cwd_def isAbsolute_def)
  moreover have "path_parts (x @ [SLASH]) = path_parts x"
    using path_parts_sep [of x "[]"] by simp
  moreover from this have "path_parts ([SLASH, SLASH] @ x @ [SLASH]) = path_parts x"
    using path_parts_sep [of "[]" "SLASH # x @ [SLASH]"] path_parts_sep [of "[]" "x @ [SLASH]"] by simp
  moreover have "path_parts [SLASH, SLASH] = []" by (simp add: path_parts_def)
  ultimately show ?thesis
    by (simp add: resolve_def Let_def)
qed

lemma resolve_two:
  assumes "\<not> isAbsolute y"
  shows "resolve [x, y] = SLASH # join_with [SLASH] (normalizeArray (path_parts x @ path_parts y) False)"
proof -
  let ?y = "if y = [] then [] else y @ [SLASH]"
  have y: "path_parts ?y = path_parts y"
    using path_parts_sep [of y "[]"] by simp
  have "resolve_loop [y, x, process_cwd] [] =
      (if x = [] then ([SLASH, SLASH] @ ?y, True)
       else if isAbsolute x then (x @ [SLASH] @ ?y, True)
       else ([SLASH, SLASH] @ x @ [SLASH] @ ?y, True))"
    using assms by (simp add: process_cwd_def isAbsolute_def)
  moreover have "path_parts (x @ [SLASH] @ ?y) = path_parts x @ path_parts y"
    using path_parts_sep [of x ?y] y by simp
  moreover have "path_parts ([SLASH, SLASH] @ z) = path_parts z" for z
    using path_parts_sep [of "[]" "SLASH # z"] path_parts_sep [of "[]" z] by simp
  ultimately show ?thesis
    using y by (simp add: resolve_def Let_def)
qed

lemma trim_good: "good_parts ps \<Longrightarrow> trim_parts ps = ps"
proof -
  assume good: "good_parts ps"
  have "takeWhile (\<lambda>p. p = []) ps = []" and "takeWhile (\<lambda>p. p = []) (rev ps) = []"
    using good by (auto simp: good_parts_def takeWhile_eq_Nil_iff dest: hd_in_set last_in_set)
      (metis hd_rev last_in_set)
  then show ?thesis by (simp add: trim_parts_def Let_def)
qed

lemma trim_split:
  "good_parts ps \<Longrightarrow> trim_parts (split_on SLASH (join_with [SLASH] ps)) = ps"
proof (cases "ps = []")
  case True
  then show ?thesis by (simp add: trim_parts_def)
next
  case False
  assume "good_parts ps"
  then show ?thesis
    using False by (simp add: split_join_with trim_good good_parts_def)
qed

lemma same_parts_le: "same_parts fs ts \<le> length fs" "same_parts fs ts \<le> length ts"
  by (induction fs ts rule: same_parts.induct) auto

lemma same_parts_take: "take (same_parts fs ts) fs = take (same_parts fs ts) ts"
  by (induction fs ts rule: same_parts.induct) auto

lemma relative_parts:
  assumes F: "F = normalizeArray (path_parts f) False" and T: "T = normalizeArray (path_parts t) False"
  shows "relative f t =
    join_with [SLASH] (replicate (length F - same_parts F T) dotdot @ drop (same_parts F T) T)"
  by (simp add: relative_def resolve_one trim_split Let_def F T)

lemma normalize_twice: "js_normalize (js_normalize path) = js_normalize path"
proof -
  define absolute where "absolute = isAbsolute path"
  define trailing where "trailing \<longleftrightarrow> path \<noteq> [] \<and> last path = SLASH"
  define P where "P = normalizeArray (path_parts path) (\<not> absolute)"
  have good: "good_parts P" and idem: "normalizeArray P (\<not> absolute) = P"
    by (simp_all add: P_def normalizeArray_idem)
  show ?thesis
  proof (cases "P = []")
    case True
    then have "js_normalize path \<in> {[SLASH], dot, dot @ [SLASH]}"
      by (auto simp: js_normalize_def Let_def P_def absolute_def)
    moreover have "js_normalize [SLASH] = [SLASH]" "js_normalize dot = dot"
        "js_normalize (dot @ [SLASH]) = dot @ [SLASH]"
      by (simp_all add: js_normalize_def isAbsolute_def normalizeArray_def path_parts_def)
    ultimately show ?thesis by auto
  next
    case False
    with join_good_ends(1) [OF good False] have
      "js_normalize path = (if absolute then [SLASH] else []) @ join_with [SLASH] P @
         (if trailing then [SLASH] else [])"
      by (auto simp: js_normalize_def Let_def P_def absolute_def trailing_def)
    with js_normalize_parts [OF good False idem] show ?thesis by simp
  qed
qed

section \<open>Properties\<close>

text \<open>
  The backward loop with its counter computes what one forward pass with a stack
  would: a name enters, a dot does nothing, two dots leave the innermost name, or go above the
  root where that is allowed.
\<close>
theorem normalizeArray_is_stack: "normalizeArray parts allow = path_stack allow parts"
  by (rule normalizeArray_stack)

text \<open>
  Normalising is idempotent, for absolute and relative paths, with and without a
  trailing slash.
\<close>
theorem js_normalize_idem: "js_normalize (js_normalize path) = js_normalize path"
  by (rule normalize_twice)

text \<open>
  Property C16.  \<open>relative\<close> inverts \<open>resolve\<close>: from the place a path resolves to, the relative
  path leads to the place the other one resolves to.
\<close>
theorem resolve_relative: "resolve [f, relative f t] = resolve [t]"
proof -
  define F where "F = normalizeArray (path_parts f) False"
  define T where "T = normalizeArray (path_parts t) False"
  define k where "k = same_parts F T"
  let ?out = "replicate (length F - k) dotdot @ drop k T"
  have names: "names_only F" "names_only T" and good: "good_parts F" "good_parts T"
    using normalizeArray_normal [of "path_parts f" False] normalizeArray_normal [of "path_parts t" False]
    by (auto simp: F_def T_def)
  have k: "k \<le> length F" "take k F = take k T"
    unfolding k_def by (rule same_parts_le same_parts_take)+
  have rel: "relative f t = join_with [SLASH] ?out"
    by (simp add: relative_parts [OF F_def T_def] k_def)
  have outg: "good_parts ?out" using good by simp
  then have parts: "path_parts (relative f t) = ?out"
    by (simp add: rel path_parts_join)
  have "\<not> isAbsolute (relative f t)"
    using join_good_ends(2) [OF outg] by (cases "?out = []") (auto simp: rel isAbsolute_hd)
  from resolve_two [OF this, of f]
  have "resolve [f, relative f t] = SLASH # join_with [SLASH] (path_stack False (path_parts f @ ?out))"
    unfolding parts normalizeArray_stack .
  moreover have "path_stack False (path_parts f @ ?out) = T"
  proof -
    have "foldl (path_step False) [] (path_parts f) = rev F"
      by (simp add: F_def normalizeArray_stack path_stack_def)
    moreover have "foldl (path_step False) (rev F @ replicate 0 dotdot) ?out
        = rev (drop k T) @ drop (length F - k) (rev F)"
      using names nf_of_normal [of "drop k T" "length F - k"] by (subst foldl_path_step) auto
    ultimately show ?thesis
      using k by (simp add: path_stack_def flip: rev_take)
  qed
  ultimately show ?thesis by (simp add: resolve_one T_def)
qed

section \<open>Splitting\<close>

lemma root_cands_bound: "r \<in> set (root_cands s) \<Longrightarrow> r \<le> length s \<and> set (take r s) \<subseteq> {SLASH}"
  by (cases s) (auto simp: root_cands_def split: if_splits)

lemma run_bound:
  assumes "n \<le> length (takeWhile P s)"
  shows "n \<le> length s" and "\<forall>c \<in> set (take n s). P c"
proof -
  show "n \<le> length s" using assms length_takeWhile_le [of P s] by simp
  have "take n s = take n (takeWhile P s)"
    using assms by (metis take_take min.absorb1 takeWhile_eq_take)
  then show "\<forall>c \<in> set (take n s). P c"
    by (auto dest!: in_set_takeD set_takeWhileD)
qed

lemma base_cands_bound:
  assumes "b \<in> set (base_cands s)"
  shows "b \<le> length s \<and> SLASH \<notin> set (take b s)"
proof -
  consider "take 2 s = dotdot" "b \<in> {1, 2}" | "take 1 s = dot" "b = 1"
    | "b \<le> length (takeWhile (\<lambda>c. c \<noteq> SLASH) s)"
    using assms by (auto simp: base_cands_def split: if_splits)
  then show ?thesis
  proof cases
    case 3
    then show ?thesis using run_bound [of b "\<lambda>c. c \<noteq> SLASH" s] by blast
  qed (cases s; cases "tl s"; auto)+
qed

lemma ext_cands_bound:
  assumes "e \<in> set (ext_cands s)"
  shows "e \<le> length s \<and> SLASH \<notin> set (take e s)"
proof (cases "e = 0")
  case False
  with assms have s: "take 1 s = dot"
      and e: "e - 1 \<le> length (takeWhile (\<lambda>c. c \<noteq> DOT \<and> c \<noteq> SLASH) (drop 1 s))"
    by (auto simp: ext_cands_def split: if_splits)
  then obtain t where t: "s = DOT # t" by (cases s) auto
  with run_bound [OF e] False show ?thesis by (cases e) auto
qed simp

lemma split_cands_iff:
  "(r, d, b, e) \<in> set (split_cands s) \<longleftrightarrow>
     r \<in> set (root_cands s) \<and> d < Suc (length s - r) \<and> b \<in> set (base_cands (drop (r + d) s)) \<and>
     e \<in> set (ext_cands (drop (r + d + b) s))"
proof -
  have "(r, d, b, e) \<in> set (split_cands s) \<longleftrightarrow>
     (\<exists>r' \<in> set (root_cands s). \<exists>d' \<in> {0..<Suc (length s - r')}.
      \<exists>b' \<in> set (base_cands (drop (r' + d') s)). \<exists>e' \<in> set (ext_cands (drop (r' + d' + b') s)).
      (r, d, b, e) = (r', d', b', e'))"
    by (simp add: split_cands_def image_iff del: upt_Suc)
  then show ?thesis by (auto simp del: upt_Suc)
qed

lemma split_cands_bound:
  assumes "(r, d, b, e) \<in> set (split_cands s)"
  shows "r + d + b + e \<le> length s \<and> SLASH \<notin> set (slice (r + d) (r + d + b + e) s) \<and>
         set (slice 0 r s) \<subseteq> {SLASH}"
proof -
  have r: "r \<in> set (root_cands s)" and d: "d \<le> length s - r"
    and b: "b \<in> set (base_cands (drop (r + d) s))" and e: "e \<in> set (ext_cands (drop (r + d + b) s))"
    using assms by (auto simp: split_cands_iff)
  have "slice (r + d) (r + d + b + e) s = take b (drop (r + d) s) @ take e (drop (r + d + b) s)"
    by (simp add: slice_def take_add add.commute add.left_commute)
  with root_cands_bound [OF r] base_cands_bound [OF b] ext_cands_bound [OF e] d
  show ?thesis by (auto simp: slice_def)
qed

text \<open>
  Every file name splits, and the parts are those of the name: root, directory and
  base, in this order, are a prefix of it, only slashes follow, the base holds no slash and ends
  with the extension.
\<close>
theorem splitPath_parts:
  "\<exists>root dir base ext n. splitPath s = Some (root, dir, base, ext) \<and>
     s = root @ dir @ base @ replicate n SLASH \<and> root \<in> {[], [SLASH]} \<and>
     SLASH \<notin> set base \<and> suffix ext base"
proof -
  let ?P = "\<lambda>(r, d, b, e). list_all (\<lambda>c. c = SLASH) (drop (r + d + b + e) s)"
  have c0: "0 \<in> set (root_cands s)" "0 \<in> set (base_cands t)" "0 \<in> set (ext_cands t)" for t
    by (simp_all add: root_cands_def base_cands_def ext_cands_def)
  have "(0, length s, 0, 0) \<in> set (split_cands s)"
    using c0 by (simp add: split_cands_iff)
  moreover have "?P (0, length s, 0, 0)" by simp
  ultimately have "find ?P (split_cands s) \<noteq> None"
    unfolding find_None_iff by blast
  then obtain r d b e where f: "find ?P (split_cands s) = Some (r, d, b, e)" by auto
  then have c: "(r, d, b, e) \<in> set (split_cands s)" and
    slashes: "\<forall>c \<in> set (drop (r + d + b + e) s). c = SLASH"
    by (auto simp: find_Some_iff list_all_iff in_set_conv_nth)
  from split_cands_bound [OF c] have
    bound: "r + d + b + e \<le> length s" "SLASH \<notin> set (slice (r + d) (r + d + b + e) s)" by auto
  have "s = slice 0 r s @ slice r (r + d) s @ slice (r + d) (r + d + b + e) s @ drop (r + d + b + e) s"
    by (simp add: slice_def) (metis append_assoc append_take_drop_id add.commute drop_drop take_add)
  moreover have "drop (r + d + b + e) s = replicate (length s - (r + d + b + e)) SLASH"
    using slashes by (intro replicate_eqI) auto
  moreover have "slice 0 r s \<in> {[], [SLASH]}"
    using c by (auto simp: split_cands_iff root_cands_def slice_def split: if_splits)
  moreover have "suffix (slice (r + d + b) (r + d + b + e) s) (slice (r + d) (r + d + b + e) s)"
    using slice_append [of "r + d" "r + d + b" "r + d + b + e" s] by (metis le_add1 suffixI)
  ultimately show ?thesis
    using f bound(2) by (simp add: splitPath_def) metis
qed

end
