(* ===== verification/Js_Process.thy ===== *)
theory Js_Process
  imports Prelude
begin

text \<open>
  The tick queue of the \<open>process\<close> shim (module 24 of
  \<open>site/assets/javascripts/lunr/wordcut.js\<close>): \<open>nextTick\<close>, \<open>drainQueue\<close> and
  \<open>cleanUpNextTick\<close>.

  JavaScript runs one task at a time, so the state has a program counter: idle, at the test of
  the inner loop of \<open>drainQueue\<close>, or inside \<open>currentQueue[queueIndex].run()\<close>.  A task is
  opaque; while it runs it may call \<open>nextTick\<close>, and it may throw, which abandons
  \<open>drainQueue\<close> in the middle and leaves the timer of \<open>cleanUpNextTick\<close> to resume it.
  \<open>log\<close> and \<open>submitted\<close> record history: the tasks started and the tasks queued so far.
\<close>

section \<open>State\<close>

datatype callback = DrainQueue | CleanUpNextTick

text \<open>The loops of \<open>drainQueue\<close> hold the locals \<open>timeout\<close> and \<open>len\<close>.\<close>

datatype pc = Idle | InnerTest nat nat | InTask nat nat

record 't process =
  queue :: "'t list"
  draining :: bool
  currentQueue :: "'t list option"
  queueIndex :: int
  timers :: "(nat \<times> callback) list"
  nextTimer :: nat
  pc :: pc
  log :: "'t list"
  submitted :: "'t list"

definition process_init :: "'t process" where
  "process_init =
     \<lparr>queue = [], draining = False, currentQueue = None, queueIndex = -1, timers = [],
      nextTimer = 0, pc = Idle, log = [], submitted = []\<rparr>"

section \<open>Operations\<close>

text \<open>\<open>runTimeout\<close> where \<open>setTimeout\<close> exists, and \<open>runClearTimeout\<close>.\<close>

definition runTimeout :: "callback \<Rightarrow> 't process \<Rightarrow> 't process" where
  "runTimeout f s = s\<lparr>timers := timers s @ [(nextTimer s, f)], nextTimer := Suc (nextTimer s)\<rparr>"

definition runClearTimeout :: "nat \<Rightarrow> 't process \<Rightarrow> 't process" where
  "runClearTimeout marker s = s\<lparr>timers := filter (\<lambda>t. fst t \<noteq> marker) (timers s)\<rparr>"

definition nextTick :: "'t \<Rightarrow> 't process \<Rightarrow> 't process" where
  "nextTick t s =
     (let s1 = s\<lparr>queue := queue s @ [t], submitted := submitted s @ [t]\<rparr>
      in if length (queue s1) = 1 \<and> \<not> draining s1 then runTimeout DrainQueue s1 else s1)"

text \<open>
  The test \<open>while(len)\<close> of \<open>drainQueue\<close>: take the queue and go to the inner loop, or finish.
\<close>

definition outer_test :: "nat \<Rightarrow> nat \<Rightarrow> 't process \<Rightarrow> 't process" where
  "outer_test timeout len s =
     (if len \<noteq> 0
      then s\<lparr>currentQueue := Some (queue s), queue := [], pc := InnerTest timeout len\<rparr>
      else (runClearTimeout timeout (s\<lparr>currentQueue := None, draining := False\<rparr>))\<lparr>pc := Idle\<rparr>)"

definition drainQueue :: "'t process \<Rightarrow> 't process" where
  "drainQueue s =
     (if draining s then s
      else
        (let timeout = nextTimer s; s1 = (runTimeout CleanUpNextTick s)\<lparr>draining := True\<rparr>
         in outer_test timeout (length (queue s1)) s1))"

text \<open>
  The test \<open>++queueIndex < len\<close>: start the task at the index; \<open>undefined.run()\<close> would throw.
\<close>

definition inner_test :: "nat \<Rightarrow> nat \<Rightarrow> 't process \<Rightarrow> 't process" where
  "inner_test timeout len s =
     (let s1 = s\<lparr>queueIndex := queueIndex s + 1\<rparr> in
      if queueIndex s1 < int len then
        (case currentQueue s1 of
           None \<Rightarrow> s1
         | Some cq \<Rightarrow>
             if 0 \<le> queueIndex s1 \<and> nat (queueIndex s1) < length cq
             then s1\<lparr>pc := InTask timeout len, log := log s1 @ [cq ! nat (queueIndex s1)]\<rparr>
             else s1\<lparr>pc := Idle\<rparr>)
      else outer_test timeout (length (queue s1)) (s1\<lparr>queueIndex := -1\<rparr>))"

definition cleanUpNextTick :: "'t process \<Rightarrow> 't process" where
  "cleanUpNextTick s =
     (if \<not> draining s then s
      else
        (case currentQueue s of
           None \<Rightarrow> s
         | Some cq \<Rightarrow>
             (let s1 = s\<lparr>draining := False\<rparr>;
                  s2 = (if cq \<noteq> [] then s1\<lparr>queue := cq @ queue s1\<rparr> else s1\<lparr>queueIndex := -1\<rparr>)
              in if queue s2 \<noteq> [] then drainQueue s2 else s2)))"

text \<open>A timer fires when nothing runs; it is gone before its callback starts.\<close>

fun fire :: "nat \<times> callback \<Rightarrow> 't process \<Rightarrow> 't process" where
  "fire (i, DrainQueue) s = drainQueue (s\<lparr>timers := remove1 (i, DrainQueue) (timers s)\<rparr>)"
| "fire (i, CleanUpNextTick) s = cleanUpNextTick (s\<lparr>timers := remove1 (i, CleanUpNextTick) (timers s)\<rparr>)"

section \<open>The machine\<close>

inductive tick_step :: "'t process \<Rightarrow> 't process \<Rightarrow> bool" where
  Submit: "pc s = Idle \<Longrightarrow> tick_step s (nextTick t s)"
| Timer: "pc s = Idle \<Longrightarrow> tm \<in> set (timers s) \<Longrightarrow> tick_step s (fire tm s)"
| Test: "pc s = InnerTest i len \<Longrightarrow> tick_step s (inner_test i len s)"
| TaskSubmits: "pc s = InTask i len \<Longrightarrow> tick_step s (nextTick t s)"
| TaskReturns: "pc s = InTask i len \<Longrightarrow> tick_step s (s\<lparr>pc := InnerTest i len\<rparr>)"
| TaskThrows: "pc s = InTask i len \<Longrightarrow> tick_step s (s\<lparr>pc := Idle\<rparr>)"

inductive reachable :: "'t process \<Rightarrow> bool" where
  Init: "reachable process_init"
| Step: "reachable s \<Longrightarrow> tick_step s s' \<Longrightarrow> reachable s'"

section \<open>Invariant\<close>

text \<open>The tasks not yet started, in the order in which the code will reach them.\<close>

definition pending :: "'t process \<Rightarrow> 't list" where
  "pending s =
     (case currentQueue s of
        None \<Rightarrow> queue s
      | Some cq \<Rightarrow> drop (nat (queueIndex s + 1)) cq @ queue s)"

definition busy :: "'t process \<Rightarrow> nat \<Rightarrow> bool" where
  "busy s i \<longleftrightarrow> draining s \<and> timers s = [(i, CleanUpNextTick)]"

definition tick_inv :: "'t process \<Rightarrow> bool" where
  "tick_inv s \<longleftrightarrow>
     log s @ pending s = submitted s \<and>
     (case pc s of
        Idle \<Rightarrow>
          (if draining s
           then (\<exists>i cq. busy s i \<and> currentQueue s = Some cq \<and> 0 \<le> queueIndex s \<and>
                        queueIndex s < int (length cq))
           else currentQueue s = None \<and> queueIndex s = -1 \<and>
                (if queue s = [] then timers s = [] else (\<exists>i. timers s = [(i, DrainQueue)])))
      | InnerTest i len \<Rightarrow>
          busy s i \<and> (\<exists>cq. currentQueue s = Some cq \<and> length cq = len \<and> -1 \<le> queueIndex s \<and>
                          queueIndex s < int len)
      | InTask i len \<Rightarrow>
          busy s i \<and> (\<exists>cq. currentQueue s = Some cq \<and> length cq = len \<and> 0 \<le> queueIndex s \<and>
                          queueIndex s < int len))"

lemma tick_inv_init [simp]: "tick_inv process_init"
  by (simp add: tick_inv_def process_init_def pending_def)

lemma nextTick_inv: "tick_inv s \<Longrightarrow> tick_inv (nextTick t s)"
  by (auto simp: tick_inv_def nextTick_def runTimeout_def pending_def busy_def Let_def
           split: pc.splits option.splits if_splits)

lemma outer_test_inv:
  assumes "log s @ queue s = submitted s" and "queueIndex s = -1" and "busy s i"
    and "n = length (queue s)"
  shows "tick_inv (outer_test i n s)"
  using assms
  by (auto simp: tick_inv_def outer_test_def runClearTimeout_def pending_def busy_def)

lemma inner_test_inv:
  assumes "tick_inv s" and "pc s = InnerTest i len"
  shows "tick_inv (inner_test i len s)"
proof -
  from assms obtain cq where S: "currentQueue s = Some cq" "length cq = len" "-1 \<le> queueIndex s"
      "queueIndex s < int len" "busy s i"
      "log s @ drop (nat (queueIndex s + 1)) cq @ queue s = submitted s"
    by (auto simp: tick_inv_def pending_def)
  show ?thesis
  proof (cases "queueIndex s + 1 < int len")
    case True
    let ?k = "nat (queueIndex s + 1)"
    have k: "?k < length cq" and kSuc: "nat (queueIndex s + 2) = Suc ?k" using True S(2,3) by auto
    have "drop ?k cq = cq ! ?k # drop (Suc ?k) cq" using k by (simp add: Cons_nth_drop_Suc)
    with True S k kSuc show ?thesis
      by (auto simp: inner_test_def tick_inv_def pending_def busy_def Let_def add.commute)
  next
    case False
    then have "drop (nat (queueIndex s + 1)) cq = []" using S(2) by simp
    with S have "log s @ queue s = submitted s" by simp
    moreover have "inner_test i len s =
        outer_test i (length (queue (s\<lparr>queueIndex := -1\<rparr>))) (s\<lparr>queueIndex := -1\<rparr>)"
      using False by (simp add: inner_test_def Let_def)
    ultimately show ?thesis
      using S(5) by (simp add: outer_test_inv busy_def)
  qed
qed

lemma fire_inv:
  assumes I: "tick_inv s" and idle: "pc s = Idle" and tm: "tm \<in> set (timers s)"
  shows "tick_inv (fire tm s)"
proof (cases "draining s")
  case False
  with I idle tm obtain i where S: "tm = (i, DrainQueue)" "timers s = [(i, DrainQueue)]" "queue s \<noteq> []"
      "currentQueue s = None" "queueIndex s = -1" "log s @ queue s = submitted s"
    by (auto simp: tick_inv_def pending_def split: if_splits)
  show ?thesis
    unfolding S(1) fire.simps drainQueue_def Let_def using False S
    by (auto simp: runTimeout_def busy_def intro!: outer_test_inv)
next
  case True
  with I idle tm obtain i cq where S: "tm = (i, CleanUpNextTick)" "timers s = [(i, CleanUpNextTick)]"
      "currentQueue s = Some cq" "0 \<le> queueIndex s" "queueIndex s < int (length cq)"
      "log s @ drop (nat (queueIndex s + 1)) cq @ queue s = submitted s"
    by (auto simp: tick_inv_def pending_def busy_def split: if_splits)
  then have "cq \<noteq> []" "nat (queueIndex s + 1) \<le> length cq" by auto
  with True S show ?thesis
    by (auto simp: cleanUpNextTick_def drainQueue_def runTimeout_def outer_test_def tick_inv_def
                   pending_def busy_def Let_def)
qed

lemma tick_step_inv: "tick_step s s' \<Longrightarrow> tick_inv s \<Longrightarrow> tick_inv s'"
proof (induction rule: tick_step.induct)
  case (TaskReturns s i len)
  then show ?case by (auto simp: tick_inv_def pending_def busy_def)
next
  case (TaskThrows s i len)
  then show ?case by (auto simp: tick_inv_def pending_def busy_def)
qed (auto intro: nextTick_inv fire_inv inner_test_inv)

lemma reachable_inv: "reachable s \<Longrightarrow> tick_inv s"
  by (induction rule: reachable.induct) (auto intro: tick_step_inv)

section \<open>Properties\<close>



lemma pending_next:
  assumes "tick_inv s" and "pc s = Idle" and "log s \<noteq> submitted s"
  shows "\<exists>tm. timers s = [tm] \<and>
     (\<exists>i len s'. pc (fire tm s) = InnerTest i len \<and> inner_test i len (fire tm s) = s' \<and>
       pc s' = InTask i len \<and> log s' = log s @ [submitted s ! length (log s)] \<and>
       submitted s' = submitted s)"
proof -
  from assms have L: "log s @ pending s = submitted s" and p: "pending s \<noteq> []"
    by (auto simp: tick_inv_def)
  then have hd: "submitted s ! length (log s) = pending s ! 0"
    by (metis add.right_neutral nth_append_length_plus)
  show ?thesis
  proof (cases "draining s")
    case False
    with assms p obtain i where S: "timers s = [(i, DrainQueue)]" "queue s \<noteq> []"
        "currentQueue s = None" "queueIndex s = -1"
      by (auto simp: tick_inv_def pending_def split: if_splits)
    with False hd show ?thesis
      by (auto simp: drainQueue_def runTimeout_def outer_test_def inner_test_def pending_def Let_def)
  next
    case True
    with assms obtain i cq where S: "timers s = [(i, CleanUpNextTick)]" "currentQueue s = Some cq"
        "0 \<le> queueIndex s" "queueIndex s < int (length cq)"
      by (auto simp: tick_inv_def busy_def split: if_splits)
    let ?k = "nat (queueIndex s + 1)"
    have pend: "pending s = drop ?k (cq @ queue s)" and ne: "cq \<noteq> []"
      using S by (auto simp: pending_def)
    then have lt: "?k < length (cq @ queue s)" using p by (metis drop_all not_less)
    then have "pending s ! 0 = (cq @ queue s) ! ?k"
      by (simp only: pend nth_drop less_imp_le add_0_right)
    moreover have "queueIndex s + 1 < int (length (cq @ queue s))" using lt S(3) by linarith
    ultimately show ?thesis
      using True S ne hd lt
      by (simp add: cleanUpNextTick_def drainQueue_def runTimeout_def outer_test_def inner_test_def Let_def)
  qed
qed


text \<open>
  Property C6.  In every reachable state the tasks started are, in order and each once, an initial
  part of the tasks handed to \<open>nextTick\<close>, whichever tasks threw on the way; and when nothing
  runs and no timer is set, every task was started.
\<close>
theorem tick_queue_fifo:
  assumes "reachable s"
  shows "prefix (log s) (submitted s) \<and> (pc s = Idle \<and> timers s = [] \<longrightarrow> log s = submitted s)"
proof -
  have I: "tick_inv s" by (rule reachable_inv [OF assms])
  then have L: "log s @ pending s = submitted s" by (simp add: tick_inv_def)
  have "pending s = []" if "pc s = Idle" "timers s = []"
    using I that by (auto simp: tick_inv_def pending_def busy_def split: if_splits)
  with L show ?thesis using prefixI [OF L [symmetric]] by auto
qed

text \<open>A state after the second of three tasks threw.\<close>

definition two_of_three :: "nat process" where
  "two_of_three =
     (let s = fire (0, DrainQueue) (nextTick 30 (nextTick 20 (nextTick 10 process_init)));
          s1 = (inner_test 1 3 s)\<lparr>pc := InnerTest 1 3\<rparr>
      in (inner_test 1 3 s1)\<lparr>pc := Idle\<rparr>)"

lemmas tick_evals =
  two_of_three_def process_init_def nextTick_def runTimeout_def drainQueue_def outer_test_def
  inner_test_def Let_def

lemma reachable_two_of_three: "reachable two_of_three"
proof -
  let ?a = "nextTick 30 (nextTick 20 (nextTick (10::nat) process_init))"
  let ?b = "fire (0, DrainQueue) ?a"
  have "reachable ?a"
    by (intro Step [OF _ Submit] Init) (simp_all add: tick_evals)
  then have "reachable ?b"
    by (rule Step [OF _ Timer]) (simp_all add: tick_evals)
  then have "reachable (inner_test 1 3 ?b)"
    by (rule Step [OF _ Test]) (simp_all add: tick_evals)
  then have "reachable ((inner_test 1 3 ?b)\<lparr>pc := InnerTest 1 3\<rparr>)"
    by (rule Step [OF _ TaskReturns]) (simp_all add: tick_evals)
  then have "reachable (inner_test 1 3 ((inner_test 1 3 ?b)\<lparr>pc := InnerTest 1 3\<rparr>))"
    by (rule Step [OF _ Test]) (simp_all add: tick_evals)
  then show ?thesis
    unfolding two_of_three_def Let_def
    by (rule Step [OF _ TaskThrows [where i = 1 and len = 3]]) (simp add: tick_evals)
qed

theorem tick_queue_fifo_witness:
  "prefix (log two_of_three) (submitted two_of_three) \<and> log two_of_three = [10, 20] \<and>
   map snd (timers two_of_three) = [CleanUpNextTick]"
  using tick_queue_fifo [OF reachable_two_of_three] by (simp add: tick_evals)

text \<open>
  Property C8.  A task that was queued is not lost: when nothing runs and a task has not started,
  exactly one timer is set, and when it fires the machine comes to start the first such task,
  also after an earlier task threw.
\<close>
theorem tick_queue_progress:
  assumes "reachable s" and "pc s = Idle" and "log s \<noteq> submitted s"
  shows "\<exists>tm s' i len. timers s = [tm] \<and> tick_step\<^sup>*\<^sup>* (fire tm s) s' \<and> pc s' = InTask i len \<and>
           log s' = log s @ [submitted s ! length (log s)]"
proof -
  from pending_next [OF reachable_inv [OF assms(1)] assms(2,3)] obtain tm i len where
    "timers s = [tm]" and t: "pc (fire tm s) = InnerTest i len"
    and r: "pc (inner_test i len (fire tm s)) = InTask i len"
      "log (inner_test i len (fire tm s)) = log s @ [submitted s ! length (log s)]"
    by blast
  moreover have "tick_step\<^sup>*\<^sup>* (fire tm s) (inner_test i len (fire tm s))"
    using Test [OF t] by blast
  ultimately show ?thesis by blast
qed

theorem tick_queue_progress_witness:
  "\<exists>tm s' i len. timers two_of_three = [tm] \<and> tick_step\<^sup>*\<^sup>* (fire tm two_of_three) s' \<and>
     pc s' = InTask i len \<and> log s' = log two_of_three @ [30]"
proof -
  have "pc two_of_three = Idle" "log two_of_three \<noteq> submitted two_of_three"
    "submitted two_of_three ! length (log two_of_three) = 30"
    by (simp_all add: tick_evals)
  with tick_queue_progress [OF reachable_two_of_three] show ?thesis by simp
qed

end
