(* ===== verification/Js_Events.thy ===== *)
theory Js_Events
  imports Prelude "HOL-Library.AList"
begin

text \<open>
  The event emitter (module 14 of \<open>site/assets/javascripts/lunr/wordcut.js\<close>).

  Listeners are opaque functions that may call the emitter again while it runs, and may throw.
  The model therefore keeps an agenda of the calls still to make: each function of the module is
  a definition that returns either the error it throws or the changed emitter with the calls it
  makes next, and \<open>ev_run\<close> works the agenda off.  \<open>react\<close> gives the calls a listener makes,
  which may depend on everything that was called before.  A listener array is an object with an
  identity, because \<open>removeAllListeners\<close> holds on to one while it is changed.

  Event names are those that \<open>Object.prototype\<close> does not define.
\<close>

section \<open>State\<close>

text \<open>\<open>Wrap i ty l\<close> is the function \<open>g\<close> that the \<open>i\<close>th call of \<open>once(ty, l)\<close> made.\<close>

datatype listener = Fn nat | Wrap nat ustr listener

datatype slot = One listener | Many nat

datatype 'a arg = AName ustr | AListener listener | AError 'a | AValue 'a

datatype 'a err = NotFunction | NotPositive | Uncaught | LengthOfUndefined | Raised 'a

record 'a emitter =
  events :: "(ustr \<times> slot) list"
  arrays :: "nat \<Rightarrow> listener list"
  nextArray :: nat
  warned :: "nat list"
  warnings :: "nat list"
  maxListeners :: "int option"
  nextOnce :: nat
  fired :: "nat list"
  calls :: "(nat \<times> 'a arg list) list"

definition EventEmitter :: "'a emitter" where
  "EventEmitter =
     \<lparr>events = [], arrays = (\<lambda>_. []), nextArray = 0, warned = [], warnings = [],
      maxListeners = None, nextOnce = 0, fired = [], calls = []\<rparr>"

abbreviation ev_error :: ustr where "ev_error \<equiv> u ''error''"
abbreviation ev_new :: ustr where "ev_new \<equiv> u ''newListener''"
abbreviation ev_removed :: ustr where "ev_removed \<equiv> u ''removeListener''"

definition slot_of :: "'a emitter \<Rightarrow> ustr \<Rightarrow> slot option" where
  "slot_of s ty = map_of (events s) ty"

definition listeners :: "'a emitter \<Rightarrow> ustr \<Rightarrow> listener list" where
  "listeners s ty =
     (case slot_of s ty of None \<Rightarrow> [] | Some (One l) \<Rightarrow> [l] | Some (Many a) \<Rightarrow> arrays s a)"

definition listenerCount :: "'a emitter \<Rightarrow> ustr \<Rightarrow> nat" where
  "listenerCount s ty =
     (case slot_of s ty of None \<Rightarrow> 0 | Some (One l) \<Rightarrow> 1 | Some (Many a) \<Rightarrow> length (arrays s a))"

section \<open>Calls\<close>

text \<open>What a listener may do, and what the functions of the module do between such calls.\<close>

datatype 'a action =
    Emit ustr "'a arg list"
  | AddListener ustr "listener option"
  | Once ustr "listener option"
  | RemoveListener ustr "listener option"
  | RemoveAllListeners "ustr option"
  | SetMaxListeners "int option"
  | Raise 'a

datatype 'a op =
    Do "'a action"
  | Call listener "'a arg list"
  | FireOnce nat listener "'a arg list"
  | Append ustr listener
  | RemoveKeys "ustr list"
  | RemoveLoop ustr nat
  | DeleteEvent ustr
  | ClearEvents

type_synonym 'a react = "(nat \<times> 'a arg list) list \<Rightarrow> nat \<Rightarrow> 'a arg list \<Rightarrow> 'a action list"
type_synonym 'a effect = "'a err + 'a emitter \<times> 'a op list"

text \<open>A number that is not NaN is \<open>Some\<close>; anything else is \<open>None\<close>.\<close>

definition setMaxListeners :: "int option \<Rightarrow> 'a emitter \<Rightarrow> 'a effect" where
  "setMaxListeners n s =
     (case n of None \<Rightarrow> Inl NotPositive
      | Some k \<Rightarrow> if k < 0 then Inl NotPositive else Inr (s\<lparr>maxListeners := Some k\<rparr>, []))"

definition emit :: "ustr \<Rightarrow> 'a arg list \<Rightarrow> 'a emitter \<Rightarrow> 'a effect" where
  "emit ty args s =
     (if ty = ev_error \<and>
         (case slot_of s ev_error of None \<Rightarrow> True | Some (One l) \<Rightarrow> False
          | Some (Many a) \<Rightarrow> arrays s a = [])
      then Inl (case args of AError e # _ \<Rightarrow> Raised e | _ \<Rightarrow> Uncaught)
      else
        (case slot_of s ty of
           None \<Rightarrow> Inr (s, [])
         | Some (One handler) \<Rightarrow> Inr (s, [Call handler args])
         | Some (Many a) \<Rightarrow> Inr (s, map (\<lambda>l. Call l args) (arrays s a))))"

text \<open>The value \<open>emit\<close> returns when it does not throw.\<close>

definition emit_result :: "ustr \<Rightarrow> 'a emitter \<Rightarrow> bool" where
  "emit_result ty s = (slot_of s ty \<noteq> None)"

fun call :: "'a react \<Rightarrow> listener \<Rightarrow> 'a arg list \<Rightarrow> 'a emitter \<Rightarrow> 'a effect" where
  "call react (Fn n) args s =
     Inr (s\<lparr>calls := calls s @ [(n, args)]\<rparr>, map Do (react (calls s) n args))"
| "call react (Wrap i ty l) args s =
     Inr (s, [Do (RemoveListener ty (Some (Wrap i ty l))), FireOnce i l args])"

definition fireOnce :: "nat \<Rightarrow> listener \<Rightarrow> 'a arg list \<Rightarrow> 'a emitter \<Rightarrow> 'a effect" where
  "fireOnce i l args s =
     (if i \<in> set (fired s) then Inr (s, []) else Inr (s\<lparr>fired := i # fired s\<rparr>, [Call l args]))"

definition addListener :: "ustr \<Rightarrow> listener option \<Rightarrow> 'a emitter \<Rightarrow> 'a effect" where
  "addListener ty listener s =
     (case listener of
        None \<Rightarrow> Inl NotFunction
      | Some f \<Rightarrow>
          Inr (s, (if slot_of s ev_new \<noteq> None
                   then [Do (Emit ev_new
                           [AName ty, AListener (case f of Wrap _ _ g \<Rightarrow> g | Fn _ \<Rightarrow> f)])]
                   else []) @ [Append ty f]))"

definition put_slot :: "ustr \<Rightarrow> slot \<Rightarrow> 'a emitter \<Rightarrow> 'a emitter" where
  "put_slot ty v s = s\<lparr>events := AList.update ty v (events s)\<rparr>"

definition put_array :: "nat \<Rightarrow> listener list \<Rightarrow> 'a emitter \<Rightarrow> 'a emitter" where
  "put_array a ls s = s\<lparr>arrays := (arrays s)(a := ls)\<rparr>"

definition delete_slot :: "ustr \<Rightarrow> 'a emitter \<Rightarrow> 'a emitter" where
  "delete_slot ty s = s\<lparr>events := AList.delete ty (events s)\<rparr>"

text \<open>The leak check: once per array, when it outgrows the limit (10 unless set; 0 is no limit).\<close>

definition leak_check :: "ustr \<Rightarrow> 'a emitter \<Rightarrow> 'a emitter" where
  "leak_check ty s =
     (case slot_of s ty of
        Some (Many a) \<Rightarrow>
          (let m = (case maxListeners s of None \<Rightarrow> 10 | Some k \<Rightarrow> k) in
           if a \<notin> set (warned s) \<and> m > 0 \<and> int (length (arrays s a)) > m
           then s\<lparr>warned := a # warned s, warnings := warnings s @ [length (arrays s a)]\<rparr>
           else s)
      | _ \<Rightarrow> s)"

definition append_listener :: "ustr \<Rightarrow> listener \<Rightarrow> 'a emitter \<Rightarrow> 'a effect" where
  "append_listener ty f s =
     Inr (leak_check ty
       (case slot_of s ty of
          None \<Rightarrow> put_slot ty (One f) s
        | Some (Many a) \<Rightarrow> put_array a (arrays s a @ [f]) s
        | Some (One g) \<Rightarrow>
            put_slot ty (Many (nextArray s))
              ((put_array (nextArray s) [g, f] s)\<lparr>nextArray := Suc (nextArray s)\<rparr>)), [])"

definition once :: "ustr \<Rightarrow> listener option \<Rightarrow> 'a emitter \<Rightarrow> 'a effect" where
  "once ty listener s =
     (case listener of
        None \<Rightarrow> Inl NotFunction
      | Some f \<Rightarrow>
          Inr (s\<lparr>nextOnce := Suc (nextOnce s)\<rparr>, [Do (AddListener ty (Some (Wrap (nextOnce s) ty f)))]))"

definition matches :: "listener \<Rightarrow> listener \<Rightarrow> bool" where
  "matches g f \<longleftrightarrow> g = f \<or> (case g of Wrap _ _ h \<Rightarrow> h = f | Fn _ \<Rightarrow> False)"

text \<open>The list without its last element that matches, and whether there was one.\<close>

fun remove_last_match :: "listener \<Rightarrow> listener list \<Rightarrow> listener list option" where
  "remove_last_match f [] = None"
| "remove_last_match f (g # gs) =
     (case remove_last_match f gs of
        Some gs' \<Rightarrow> Some (g # gs')
      | None \<Rightarrow> if matches g f then Some gs else None)"

definition removed_event :: "ustr \<Rightarrow> listener \<Rightarrow> 'a emitter \<Rightarrow> 'a op list" where
  "removed_event ty f s =
     (if slot_of s ev_removed \<noteq> None then [Do (Emit ev_removed [AName ty, AListener f])] else [])"

definition removeListener :: "ustr \<Rightarrow> listener option \<Rightarrow> 'a emitter \<Rightarrow> 'a effect" where
  "removeListener ty listener s =
     (case listener of
        None \<Rightarrow> Inl NotFunction
      | Some f \<Rightarrow>
          (case slot_of s ty of
             None \<Rightarrow> Inr (s, [])
           | Some (One g) \<Rightarrow>
               if matches g f
               then (let s' = delete_slot ty s in Inr (s', removed_event ty f s'))
               else Inr (s, [])
           | Some (Many a) \<Rightarrow>
               (case remove_last_match f (arrays s a) of
                  None \<Rightarrow> Inr (s, [])
                | Some ls \<Rightarrow>
                    (let s1 = put_array a ls s;
                         s' = (if length (arrays s a) = 1 then delete_slot ty s1 else s1)
                     in Inr (s', removed_event ty f s')))))"

definition removeAllListeners :: "ustr option \<Rightarrow> 'a emitter \<Rightarrow> 'a effect" where
  "removeAllListeners type s =
     (if slot_of s ev_removed = None then
        (case type of None \<Rightarrow> Inr (s\<lparr>events := []\<rparr>, []) | Some ty \<Rightarrow> Inr (delete_slot ty s, []))
      else
        (case type of
           None \<Rightarrow>
             Inr (s, [RemoveKeys (filter (\<lambda>k. k \<noteq> ev_removed) (map fst (events s))),
                      Do (RemoveAllListeners (Some ev_removed)), ClearEvents])
         | Some ty \<Rightarrow>
             (case slot_of s ty of
                None \<Rightarrow> Inl LengthOfUndefined
              | Some (One l) \<Rightarrow> Inr (s, [Do (RemoveListener ty (Some l)), DeleteEvent ty])
              | Some (Many a) \<Rightarrow> Inr (s, [RemoveLoop ty a, DeleteEvent ty]))))"

text \<open>\<open>for (key in events)\<close> visits the keys present at its start that are still there.\<close>

definition removeKeys :: "ustr list \<Rightarrow> 'a emitter \<Rightarrow> 'a effect" where
  "removeKeys keys s =
     (case keys of
        [] \<Rightarrow> Inr (s, [])
      | k # ks \<Rightarrow>
          Inr (s, (if slot_of s k \<noteq> None then [Do (RemoveAllListeners (Some k))] else []) @ [RemoveKeys ks]))"

definition removeLoop :: "ustr \<Rightarrow> nat \<Rightarrow> 'a emitter \<Rightarrow> 'a effect" where
  "removeLoop ty a s =
     (if arrays s a = [] then Inr (s, [])
      else Inr (s, [Do (RemoveListener ty (Some (last (arrays s a)))), RemoveLoop ty a]))"

section \<open>Running\<close>

fun exec_action :: "'a action \<Rightarrow> 'a emitter \<Rightarrow> 'a effect" where
  "exec_action (Emit ty args) s = emit ty args s"
| "exec_action (AddListener ty l) s = addListener ty l s"
| "exec_action (Once ty l) s = once ty l s"
| "exec_action (RemoveListener ty l) s = removeListener ty l s"
| "exec_action (RemoveAllListeners ty) s = removeAllListeners ty s"
| "exec_action (SetMaxListeners n) s = setMaxListeners n s"
| "exec_action (Raise e) s = Inl (Raised e)"

fun exec_op :: "'a react \<Rightarrow> 'a op \<Rightarrow> 'a emitter \<Rightarrow> 'a effect" where
  "exec_op react (Do a) s = exec_action a s"
| "exec_op react (Call l args) s = call react l args s"
| "exec_op react (FireOnce i l args) s = fireOnce i l args s"
| "exec_op react (Append ty f) s = append_listener ty f s"
| "exec_op react (RemoveKeys ks) s = removeKeys ks s"
| "exec_op react (RemoveLoop ty a) s = removeLoop ty a s"
| "exec_op react (DeleteEvent ty) s = Inr (delete_slot ty s, [])"
| "exec_op react ClearEvents s = Inr (s\<lparr>events := []\<rparr>, [])"

text \<open>An error leaves every function that is running: none of them catches.\<close>

datatype 'a outcome = Done "'a emitter" | Threw "'a err" "'a emitter" | OutOfFuel

fun ev_run :: "nat \<Rightarrow> 'a react \<Rightarrow> 'a op list \<Rightarrow> 'a emitter \<Rightarrow> 'a outcome" where
  "ev_run n react [] s = Done s"
| "ev_run 0 react (op # ops) s = OutOfFuel"
| "ev_run (Suc n) react (op # ops) s =
     (case exec_op react op s of Inl e \<Rightarrow> Threw e s | Inr (s', new) \<Rightarrow> ev_run n react (new @ ops) s')"

section \<open>Slots, arrays and the invariant\<close>

text \<open>No two events share an array, no array in use is empty, and the next array is fresh.\<close>

definition emitter_ok :: "'a emitter \<Rightarrow> bool" where
  "emitter_ok s \<longleftrightarrow>
     distinct (map fst (events s)) \<and>
     (\<forall>ty a. slot_of s ty = Some (Many a) \<longrightarrow> a < nextArray s \<and> arrays s a \<noteq> []) \<and>
     (\<forall>ty ty' a. slot_of s ty = Some (Many a) \<longrightarrow> slot_of s ty' = Some (Many a) \<longrightarrow> ty = ty')"

named_theorems emitter_simps \<open>projections of the state changes\<close>

lemma slot_put_slot [emitter_simps]:
  "slot_of (put_slot ty v s) ty' = (if ty' = ty then Some v else slot_of s ty')"
  by (simp add: slot_of_def put_slot_def update_conv)

lemma slot_delete_slot [emitter_simps]:
  "slot_of (delete_slot ty s) ty' = (if ty' = ty then None else slot_of s ty')"
  by (simp add: slot_of_def delete_slot_def delete_conv)

lemma slot_put_array [emitter_simps]: "slot_of (put_array a ls s) ty = slot_of s ty"
  by (simp add: slot_of_def put_array_def)

lemma slot_of_update [emitter_simps]:
  "slot_of (s\<lparr>warned := x, warnings := w\<rparr>) ty = slot_of s ty"
  "slot_of (s\<lparr>calls := c\<rparr>) ty = slot_of s ty" "slot_of (s\<lparr>fired := f\<rparr>) ty = slot_of s ty"
  "slot_of (s\<lparr>nextArray := n\<rparr>) ty = slot_of s ty" "slot_of (s\<lparr>nextOnce := n\<rparr>) ty = slot_of s ty"
  "slot_of (s\<lparr>maxListeners := m\<rparr>) ty = slot_of s ty" "slot_of (s\<lparr>events := []\<rparr>) ty = None"
  by (simp_all add: slot_of_def)

lemma fields_change [emitter_simps]:
  "arrays (put_slot ty v s) = arrays s" "arrays (delete_slot ty s) = arrays s"
  "arrays (put_array a ls s) = (arrays s)(a := ls)"
  "nextArray (put_slot ty v s) = nextArray s" "nextArray (delete_slot ty s) = nextArray s"
  "nextArray (put_array a ls s) = nextArray s"
  "events (put_slot ty v s) = AList.update ty v (events s)"
  "events (delete_slot ty s) = AList.delete ty (events s)" "events (put_array a ls s) = events s"
  "calls (put_slot ty v s) = calls s" "calls (delete_slot ty s) = calls s"
  "calls (put_array a ls s) = calls s"
  "fired (put_slot ty v s) = fired s" "fired (delete_slot ty s) = fired s"
  "fired (put_array a ls s) = fired s"
  by (simp_all add: put_slot_def delete_slot_def put_array_def)

lemma leak_check_fields [emitter_simps]:
  "slot_of (leak_check ty s) ty' = slot_of s ty'" "arrays (leak_check ty s) = arrays s"
  "nextArray (leak_check ty s) = nextArray s" "events (leak_check ty s) = events s"
  "calls (leak_check ty s) = calls s" "fired (leak_check ty s) = fired s"
  by (auto simp: leak_check_def Let_def slot_of_def split: option.splits slot.splits)

lemma emitter_okD:
  assumes "emitter_ok s" and "slot_of s ty = Some (Many a)"
  shows "a < nextArray s" and "arrays s a \<noteq> []"
    and "slot_of s ty' = Some (Many a) \<Longrightarrow> ty' = ty"
  using assms unfolding emitter_ok_def by blast+

lemma emitter_ok_init [simp]: "emitter_ok EventEmitter"
  by (simp add: emitter_ok_def EventEmitter_def slot_of_def)

lemma emitter_ok_delete [simp]: "emitter_ok s \<Longrightarrow> emitter_ok (delete_slot ty s)"
  by (auto simp: emitter_ok_def emitter_simps distinct_delete split: if_splits)

lemma emitter_ok_leak [simp]: "emitter_ok (leak_check ty s) = emitter_ok s"
  by (simp add: emitter_ok_def emitter_simps)

lemma emitter_okI:
  assumes "distinct (map fst (events s))"
    and "\<And>ty a. slot_of s ty = Some (Many a) \<Longrightarrow> a < nextArray s \<and> arrays s a \<noteq> []"
    and "\<And>ty ty' a. slot_of s ty = Some (Many a) \<Longrightarrow> slot_of s ty' = Some (Many a) \<Longrightarrow> ty = ty'"
  shows "emitter_ok s"
  using assms unfolding emitter_ok_def by blast

lemma emitter_ok_distinct: "emitter_ok s \<Longrightarrow> distinct (map fst (events s))"
  by (simp add: emitter_ok_def)

lemma emitter_ok_put_one: "emitter_ok s \<Longrightarrow> emitter_ok (put_slot ty (One f) s)"
  by (rule emitter_okI)
    (auto simp: emitter_simps distinct_update emitter_ok_distinct split: if_splits
          dest: emitter_okD(1) emitter_okD(2) emitter_okD(3))

lemma emitter_ok_put_array: "emitter_ok s \<Longrightarrow> ls \<noteq> [] \<Longrightarrow> emitter_ok (put_array a ls s)"
  by (rule emitter_okI)
    (auto simp: emitter_simps emitter_ok_distinct dest: emitter_okD(1) emitter_okD(2) emitter_okD(3))

lemma emitter_ok_new_array:
  assumes ok: "emitter_ok s" and "ls \<noteq> []"
  shows "emitter_ok (put_slot ty (Many (nextArray s))
           ((put_array (nextArray s) ls s)\<lparr>nextArray := Suc (nextArray s)\<rparr>))"
proof -
  have fresh: "slot_of s ty' = Some (Many a) \<Longrightarrow> a \<noteq> nextArray s \<and> a < Suc (nextArray s)" for ty' a
    using emitter_okD(1) [OF ok] by fastforce
  show ?thesis
    by (rule emitter_okI)
      (auto simp: emitter_simps distinct_update emitter_ok_distinct [OF ok] assms(2) split: if_splits
            dest: fresh emitter_okD(2) [OF ok] emitter_okD(3) [OF ok])
qed

lemma emitter_ok_append:
  assumes "emitter_ok s" and "append_listener ty f s = Inr (s', new)"
  shows "emitter_ok s'"
  using assms
  by (auto simp: append_listener_def emitter_ok_put_one emitter_ok_put_array emitter_ok_new_array
           split: option.splits slot.splits)

lemma remove_last_match_length:
  "remove_last_match f ls = Some ls' \<Longrightarrow> length ls = Suc (length ls')"
  by (induction ls arbitrary: ls') (auto split: option.splits if_splits)

lemma emitter_ok_remove:
  assumes ok: "emitter_ok s" and r: "removeListener ty l s = Inr (s', new)"
  shows "emitter_ok s'"
proof -
  consider "s' = s" | "s' = delete_slot ty s"
    | a ls where "slot_of s ty = Some (Many a)"
        "s' = (if ls = [] then delete_slot ty (put_array a ls s) else put_array a ls s)"
    using r
    by (force simp: removeListener_def Let_def dest: remove_last_match_length
              split: option.splits slot.splits if_splits)
  then show ?thesis
  proof cases
    case (3 a ls)
    show ?thesis
    proof (cases "ls = []")
      case True
      with 3 have s': "s' = delete_slot ty (put_array a [] s)" by simp
      show ?thesis
        unfolding s'
        by (rule emitter_okI)
          (auto simp: emitter_simps distinct_delete emitter_ok_distinct [OF ok] split: if_splits
                dest: emitter_okD(1) [OF ok] emitter_okD(2) [OF ok] emitter_okD(3) [OF ok]
                      emitter_okD(3) [OF ok 3(1)])
    qed (use 3 ok emitter_ok_put_array in simp)
  qed (use ok in simp_all)
qed

lemma emitter_ok_fields [simp]:
  "emitter_ok (s\<lparr>calls := c\<rparr>) = emitter_ok s" "emitter_ok (s\<lparr>fired := f\<rparr>) = emitter_ok s"
  "emitter_ok (s\<lparr>nextOnce := n\<rparr>) = emitter_ok s" "emitter_ok (s\<lparr>maxListeners := m\<rparr>) = emitter_ok s"
  "emitter_ok (s\<lparr>events := []\<rparr>)"
  by (simp_all add: emitter_ok_def emitter_simps)

lemma exec_action_ok:
  assumes "emitter_ok s" and "exec_action act s = Inr (s', new)"
  shows "emitter_ok s'"
proof (cases act)
  case (RemoveListener ty l)
  with assms emitter_ok_remove show ?thesis by simp
qed (use assms in
  \<open>auto simp: emit_def addListener_def once_def removeAllListeners_def setMaxListeners_def
         split: option.splits slot.splits if_splits\<close>)

lemma exec_op_ok:
  assumes "emitter_ok s" and "exec_op react op s = Inr (s', new)"
  shows "emitter_ok s'"
proof (cases op)
  case (Do act)
  with assms exec_action_ok show ?thesis by simp
next
  case (Call l args)
  with assms show ?thesis by (cases l) auto
next
  case (Append ty f)
  with assms emitter_ok_append show ?thesis by simp
qed (use assms in
  \<open>auto simp: fireOnce_def removeKeys_def removeLoop_def split: list.splits if_splits\<close>)

lemma ev_run_ok:
  "emitter_ok s \<Longrightarrow>
   case ev_run n react ops s of Done s' \<Rightarrow> emitter_ok s' | Threw e s' \<Rightarrow> emitter_ok s' | OutOfFuel \<Rightarrow> True"
proof (induction n react ops s rule: ev_run.induct)
  case (3 n react op ops s)
  then show ?case by (auto split: sum.splits dest: exec_op_ok)
qed auto

section \<open>Runs split along the agenda\<close>

lemma ev_run_append:
  assumes "ev_run n react (as @ bs) s = Done s'"
  shows "\<exists>k m t. ev_run k react as s = Done t \<and> ev_run m react bs t = Done s' \<and> m \<le> n"
  using assms
proof (induction n arbitrary: as s)
  case 0
  then show ?case by (cases "as @ bs") (auto intro!: exI [of _ 0])
next
  case (Suc n)
  show ?case
  proof (cases as)
    case Nil
    then have "ev_run 0 react as s = Done s" by simp
    with Nil Suc.prems show ?thesis by auto
  next
    case (Cons op ops)
    then obtain t new where t: "exec_op react op s = Inr (t, new)"
        "ev_run n react ((new @ ops) @ bs) t = Done s'"
      using Suc.prems by (auto split: sum.splits)
    from Suc.IH [OF t(2)] obtain k m w where
      "ev_run k react (new @ ops) t = Done w" "ev_run m react bs w = Done s'" "m \<le> n" by blast
    moreover from this t(1) have "ev_run (Suc k) react as s = Done w"
      by (simp add: Cons)
    ultimately show ?thesis using le_SucI by blast
  qed
qed

lemma exec_op_calls:
  "exec_op react op s = Inr (s', new) \<Longrightarrow> \<exists>cs. calls s' = calls s @ cs"
proof (cases op)
  case (Do act)
  moreover assume "exec_op react op s = Inr (s', new)"
  ultimately show ?thesis
    by (cases act)
      (auto simp: emit_def addListener_def once_def removeListener_def removeAllListeners_def
         setMaxListeners_def emitter_simps Let_def split: option.splits slot.splits if_splits)
next
  case (Call l args)
  moreover assume "exec_op react op s = Inr (s', new)"
  ultimately show ?thesis by (cases l) auto
qed (auto simp: fireOnce_def append_listener_def removeKeys_def removeLoop_def emitter_simps
       split: option.splits slot.splits list.splits if_splits)

lemma ev_run_calls: "ev_run n react ops s = Done s' \<Longrightarrow> \<exists>cs. calls s' = calls s @ cs"
proof (induction n react ops s rule: ev_run.induct)
  case (3 n react op ops s)
  from "3.prems" obtain t new where t: "exec_op react op s = Inr (t, new)"
      "ev_run n react (new @ ops) t = Done s'"
    by (auto split: sum.splits)
  from "3.IH" [OF t(1) refl t(2)] exec_op_calls [OF t(1)] show ?case by auto
qed auto

text \<open>The plain functions of a listener list.\<close>

definition plain :: "listener list \<Rightarrow> nat list" where
  "plain ls = List.map_filter (\<lambda>l. case l of Fn n \<Rightarrow> Some n | Wrap _ _ _ \<Rightarrow> None) ls"

lemma plain_simps [simp]:
  "plain [] = []" "plain (Fn n # ls) = n # plain ls" "plain (Wrap i ty l # ls) = plain ls"
  by (simp_all add: plain_def map_filter_simps)

lemma run_snapshot:
  "ev_run n react (map (\<lambda>l. Call l args) ls) s = Done s' \<Longrightarrow>
   \<exists>cs. calls s' = calls s @ cs \<and> subseq (map (\<lambda>n. (n, args)) (plain ls)) cs"
proof (induction ls arbitrary: n s)
  case Nil
  then show ?case by simp
next
  case (Cons l ls)
  from ev_run_append [of n react "[Call l args]" "map (\<lambda>l. Call l args) ls" s s'] Cons.prems
  obtain k m t where t: "ev_run k react [Call l args] s = Done t"
      "ev_run m react (map (\<lambda>l. Call l args) ls) t = Done s'" by auto
  from Cons.IH [OF t(2)] obtain cs where
    cs: "calls s' = calls t @ cs" "subseq (map (\<lambda>n. (n, args)) (plain ls)) cs" by blast
  show ?case
  proof (cases l)
    case (Fn f)
    with t(1) obtain k' where
      "ev_run k' react (map Do (react (calls s) f args)) (s\<lparr>calls := calls s @ [(f, args)]\<rparr>) = Done t"
      by (cases k) auto
    from ev_run_calls [OF this] obtain ds where "calls t = calls s @ (f, args) # ds" by auto
    with cs Fn show ?thesis
      by (auto intro: subseq_drop_many list_emb_append2)
  next
    case (Wrap i ty g)
    from ev_run_calls [OF t(1)] cs Wrap show ?thesis
      by (auto intro: subseq_drop_many list_emb_append2)
  qed
qed

section \<open>Removing a listener\<close>

definition quiet_removal :: "'a emitter \<Rightarrow> bool" where
  "quiet_removal s \<longleftrightarrow> slot_of s ev_removed = None"



lemma removeListener_listeners:
  assumes ok: "emitter_ok s" and q: "quiet_removal s"
  shows "\<exists>s'. removeListener ty (Some f) s = Inr (s', []) \<and> emitter_ok s' \<and> quiet_removal s' \<and>
     calls s' = calls s \<and> fired s' = fired s \<and>
     (\<forall>ty'. listeners s' ty' =
        (if ty' = ty then (case remove_last_match f (listeners s ty) of
                             None \<Rightarrow> listeners s ty | Some ls \<Rightarrow> ls)
         else listeners s ty'))"
proof -
  have "\<exists>r. removeListener ty (Some f) s = Inr r"
    by (simp add: removeListener_def Let_def split: option.split slot.split)
  then obtain s' new where r: "removeListener ty (Some f) s = Inr (s', new)" by auto
  have ok': "emitter_ok s'" using ok r by (rule emitter_ok_remove)
  have "new = [] \<and> quiet_removal s' \<and> calls s' = calls s \<and> fired s' = fired s"
    using r q
    by (auto simp: removeListener_def Let_def removed_event_def quiet_removal_def emitter_simps
             split: option.splits slot.splits if_splits)
  moreover have "listeners s' ty' =
        (if ty' = ty then (case remove_last_match f (listeners s ty) of
                             None \<Rightarrow> listeners s ty | Some ls \<Rightarrow> ls)
         else listeners s ty')" for ty'
  proof (cases "slot_of s ty")
    case None
    with r show ?thesis by (auto simp: removeListener_def listeners_def)
  next
    case (Some v)
    show ?thesis
    proof (cases v)
      case (One g)
      with Some r show ?thesis
        by (auto simp: removeListener_def listeners_def Let_def emitter_simps
                 split: if_splits option.splits slot.splits)
    next
      case (Many a)
      have other: "slot_of s ty' \<noteq> Some (Many a)" if "ty' \<noteq> ty"
        using emitter_okD(3) [OF ok] Some Many that by blast
      from Some Many r other show ?thesis
        by (auto simp: removeListener_def listeners_def Let_def emitter_simps
                 split: option.splits slot.splits if_splits dest!: remove_last_match_length)
    qed
  qed
  ultimately show ?thesis using r ok' by blast
qed

lemma append_listener_listeners:
  assumes ok: "emitter_ok s"
  shows "\<exists>s'. append_listener ty f s = Inr (s', []) \<and> calls s' = calls s \<and> fired s' = fired s \<and>
     (ty \<noteq> ev_removed \<longrightarrow> quiet_removal s' = quiet_removal s) \<and>
     (\<forall>ty'. listeners s' ty' = (if ty' = ty then listeners s ty @ [f] else listeners s ty'))"
proof -
  have fresh: "slot_of s ty' \<noteq> Some (Many (nextArray s))" for ty'
    using emitter_okD(1) [OF ok] by blast
  have other: "slot_of s ty' \<noteq> Some (Many a)" if "ty' \<noteq> ty" "slot_of s ty = Some (Many a)" for ty' a
    using emitter_okD(3) [OF ok] that by blast
  show ?thesis
    using fresh other
    by (auto simp: append_listener_def listeners_def quiet_removal_def emitter_simps
             split: option.splits slot.splits)
qed

lemma remove_last_match_snoc: "matches g f \<Longrightarrow> remove_last_match f (ls @ [g]) = Some ls"
  by (induction ls) auto

section \<open>Emitting to quiet listeners\<close>

lemma listeners_update [emitter_simps]:
  "listeners (s\<lparr>calls := c\<rparr>) ty = listeners s ty" "listeners (s\<lparr>fired := f\<rparr>) ty = listeners s ty"
  by (simp_all add: listeners_def emitter_simps split: option.split slot.split)

definition target :: "listener \<Rightarrow> nat" where
  "target l = (case l of Fn n \<Rightarrow> n | Wrap _ _ (Fn n) \<Rightarrow> n | Wrap _ _ (Wrap _ _ _) \<Rightarrow> 0)"

lemma target_simps [simp]: "target (Fn n) = n" "target (Wrap i ty (Fn n)) = n"
  by (simp_all add: target_def)

text \<open>
  The listeners of \<open>ty\<close> are plain functions and wrappers that \<open>once(ty, f)\<close> made of plain
  functions, none of them fired yet and none registered twice.
\<close>

fun ready1 :: "ustr \<Rightarrow> nat list \<Rightarrow> listener \<Rightarrow> bool" where
  "ready1 ty fd (Fn n) = True"
| "ready1 ty fd (Wrap i t (Fn n)) \<longleftrightarrow> t = ty \<and> i \<notin> set fd"
| "ready1 ty fd (Wrap i t (Wrap j t' l)) = False"

lemma ready1_Wrap: "ready1 ty fd (Wrap i t g) \<longleftrightarrow> (\<exists>n. g = Fn n) \<and> t = ty \<and> i \<notin> set fd"
  by (cases g) auto

definition once_ready :: "ustr \<Rightarrow> nat list \<Rightarrow> listener list \<Rightarrow> bool" where
  "once_ready ty fd ls \<longleftrightarrow>
     list_all (ready1 ty fd) ls \<and>
     distinct (List.map_filter (\<lambda>l. case l of Fn _ \<Rightarrow> None | Wrap i _ _ \<Rightarrow> Some i) ls)"

lemma once_ready_Fn [simp]: "once_ready ty fd (Fn n # ls) = once_ready ty fd ls"
  by (simp add: once_ready_def map_filter_simps)

lemma once_ready_Wrap:
  assumes "once_ready ty fd (Wrap i t g # ls)"
  obtains n where "g = Fn n" and "t = ty" and "i \<notin> set fd" and "once_ready ty (i # fd) ls"
    and "\<forall>l \<in> set ls. \<not> matches l (Wrap i ty (Fn n))"
proof -
  let ?ids = "List.map_filter (\<lambda>l. case l of Fn _ \<Rightarrow> None | Wrap i _ _ \<Rightarrow> Some i) ls"
  from assms obtain n where g: "g = Fn n" "t = ty" "i \<notin> set fd"
    by (auto simp: once_ready_def ready1_Wrap)
  have fresh: "i \<notin> set ?ids" and rest: "once_ready ty fd ls"
    using assms by (auto simp: once_ready_def map_filter_simps)
  have ids: "j \<noteq> i" if "Wrap j t' h \<in> set ls" for j t' h
    using that fresh by (force simp: map_filter_def)
  have shape: "\<exists>m. h = Fn m" if "Wrap j t' h \<in> set ls" for j t' h
    using that rest by (auto simp: once_ready_def list_all_iff ready1_Wrap dest!: bspec)
  have "\<forall>l \<in> set ls. \<not> matches l (Wrap i ty (Fn n))"
    using ids shape by (fastforce simp: matches_def split: listener.splits)
  moreover have "ready1 ty (i # fd) l" if "l \<in> set ls" for l
  proof -
    have "ready1 ty fd l" using that rest by (simp add: once_ready_def list_all_iff)
    then show ?thesis using ids that by (cases l) (auto simp: ready1_Wrap)
  qed
  then have "once_ready ty (i # fd) ls"
    using rest by (simp add: once_ready_def list_all_iff)
  ultimately show ?thesis using that g by blast
qed

lemma remove_last_match_middle:
  "\<lbrakk>\<forall>l \<in> set ls. \<not> matches l f; matches g f\<rbrakk> \<Longrightarrow> remove_last_match f (pre @ g # ls) = Some (pre @ ls)"
proof -
  assume no: "\<forall>l \<in> set ls. \<not> matches l f" and g: "matches g f"
  have "remove_last_match f ls = None" using no by (induction ls) auto
  with g show ?thesis by (induction pre) auto
qed

text \<open>Listeners that do not call the emitter.\<close>

definition no_reaction :: "'a react" where
  "no_reaction h n args = []"

lemma no_reaction_calls [simp]: "map Do (no_reaction h n args) = []"
  by (simp add: no_reaction_def)

lemma run_once:
  "\<lbrakk>emitter_ok s; quiet_removal s; listeners s ty = pre @ ls; once_ready ty (fired s) ls\<rbrakk> \<Longrightarrow>
    \<exists>n s'. ev_run n no_reaction (map (\<lambda>l. Call l args) ls) s = Done s' \<and>
      calls s' = calls s @ map (\<lambda>l. (target l, args)) ls \<and> listeners s' ty = pre @ map Fn (plain ls)"
proof (induction ls arbitrary: s pre)
  case Nil
  then show ?case by (auto intro!: exI [of _ 0])
next
  case (Cons l ls)
  show ?case
  proof (cases l)
    case (Fn f)
    let ?s = "s\<lparr>calls := calls s @ [(f, args)]\<rparr>"
    have "listeners ?s ty = (pre @ [Fn f]) @ ls" "quiet_removal ?s"
      using Cons.prems Fn by (simp_all add: quiet_removal_def emitter_simps)
    with Cons.IH [of ?s "pre @ [Fn f]"] Cons.prems Fn obtain n s' where
      "ev_run n no_reaction (map (\<lambda>l. Call l args) ls) ?s = Done s'"
      "calls s' = calls ?s @ map (\<lambda>l. (target l, args)) ls"
      "listeners s' ty = (pre @ [Fn f]) @ map Fn (plain ls)" by auto
    with Fn show ?thesis
      by (auto intro!: exI [of _ "Suc n"])
  next
    case (Wrap i t g)
    from Cons.prems(4) Wrap obtain f where W: "g = Fn f" "t = ty" "i \<notin> set (fired s)"
        "once_ready ty (i # fired s) ls" "\<forall>l \<in> set ls. \<not> matches l (Wrap i ty (Fn f))"
      using once_ready_Wrap by metis
    obtain s1 where r: "removeListener ty (Some (Wrap i ty (Fn f))) s = Inr (s1, [])"
        "emitter_ok s1" "quiet_removal s1" "calls s1 = calls s" "fired s1 = fired s"
        "listeners s1 ty = pre @ ls"
      using removeListener_listeners [OF Cons.prems(1,2), of ty "Wrap i ty (Fn f)"] Wrap W
        Cons.prems(3) remove_last_match_middle [OF W(5), of "Wrap i ty (Fn f)" pre]
      by (auto simp: matches_def)
    let ?s = "s1\<lparr>fired := i # fired s1, calls := calls s1 @ [(f, args)]\<rparr>"
    have "emitter_ok ?s" "quiet_removal ?s" "listeners ?s ty = pre @ ls"
      using r by (simp_all add: quiet_removal_def emitter_simps)
    from Cons.IH [OF this] W(4) r(5) obtain n s' where
      "ev_run n no_reaction (map (\<lambda>l. Call l args) ls) ?s = Done s'"
      "calls s' = calls ?s @ map (\<lambda>l. (target l, args)) ls"
      "listeners s' ty = pre @ map Fn (plain ls)" by auto
    with Wrap W r show ?thesis
      by (auto simp: fireOnce_def intro!: exI [of _ "Suc (Suc (Suc (Suc n)))"])
  qed
qed

section \<open>Properties\<close>

text \<open>
  Whatever listeners do while the emitter runs, the emitter stays well formed: after
  any run that started from a new emitter, \<open>listenerCount\<close> is the number of \<open>listeners\<close>,
  and an event with no listeners has no slot left, so \<open>emit\<close> returns false for it.
\<close>
theorem emitter_well_formed:
  "case ev_run n react (map Do actions) EventEmitter of
     OutOfFuel \<Rightarrow> True
   | Threw e s \<Rightarrow> listenerCount s ty = length (listeners s ty) \<and> emit_result ty s = (listeners s ty \<noteq> [])
   | Done s \<Rightarrow> listenerCount s ty = length (listeners s ty) \<and> emit_result ty s = (listeners s ty \<noteq> [])"
proof -
  have "listenerCount s ty = length (listeners s ty)" for s :: "'a emitter"
    by (auto simp: listenerCount_def listeners_def split: option.splits slot.splits)
  moreover have "emit_result ty s = (listeners s ty \<noteq> [])" if "emitter_ok s" for s :: "'a emitter"
    using emitter_okD(2) [OF that]
    by (auto simp: emit_result_def listeners_def split: option.splits slot.splits)
  ultimately show ?thesis
    using ev_run_ok [OF emitter_ok_init, of n react "map Do actions"] by (auto split: outcome.splits)
qed

text \<open>
  Property C19.  An emission works on the listeners as they were when it started: if it runs to
  its end, every plain function registered then was called with its arguments, in order of
  registration, even if another listener removed it on the way or added others.
\<close>
theorem emit_snapshot:
  assumes "ev_run n react [Do (Emit ty args)] s = Done s'"
  shows "\<exists>cs. calls s' = calls s @ cs \<and> subseq (map (\<lambda>k. (k, args)) (plain (listeners s ty))) cs"
proof (cases n)
  case (Suc m)
  show ?thesis
  proof (cases "listeners s ty = []")
    case True
    with ev_run_calls [OF assms] show ?thesis by auto
  next
    case False
    with assms Suc have "ev_run m react (map (\<lambda>l. Call l args) (listeners s ty)) s = Done s'"
      by (auto simp: emit_def listeners_def split: option.splits slot.splits if_splits)
    then show ?thesis by (rule run_snapshot)
  qed
qed (use assms in simp)

text \<open>A first listener that removes the second one.\<close>

definition remover :: "nat react" where
  "remover h n args = (if n = 1 then [RemoveListener (u ''x'') (Some (Fn 2))] else [])"

definition two_listeners :: "nat emitter" where
  "two_listeners =
     (case ev_run 9 remover [Do (AddListener (u ''x'') (Some (Fn 1))),
                             Do (AddListener (u ''x'') (Some (Fn 2)))] EventEmitter of
        Done s \<Rightarrow> s | _ \<Rightarrow> EventEmitter)"

theorem emit_snapshot_witness:
  "\<exists>s'. ev_run 9 remover [Do (Emit (u ''x'') [])] two_listeners = Done s' \<and>
     (\<exists>cs. calls s' = [] @ cs \<and> subseq [(1, []), (2, [])] cs) \<and> listeners s' (u ''x'') = [Fn 1]"
proof -
  define s' where "s' = (case ev_run 9 remover [Do (Emit (u ''x'') [])] two_listeners of
      Done s \<Rightarrow> s | _ \<Rightarrow> EventEmitter)"
  have run: "ev_run 9 remover [Do (Emit (u ''x'') [])] two_listeners = Done s'"
    and fin: "listeners s' (u ''x'') = [Fn 1]" and start: "calls two_listeners = []"
    and ls: "listeners two_listeners (u ''x'') = [Fn 1, Fn 2]"
    by (simp_all add: s'_def two_listeners_def remover_def EventEmitter_def numeral_eq_Suc emit_def
        addListener_def append_listener_def removeListener_def removed_event_def matches_def
        leak_check_def listeners_def slot_of_def put_slot_def put_array_def delete_slot_def Let_def)
  from emit_snapshot [OF run] fin start ls run show ?thesis by auto
qed

text \<open>
  Without reactions an emission calls every listener once, in order of registration,
  those registered with \<open>once\<close> included, and afterwards exactly the latter are gone.
\<close>
theorem emit_fires_once:
  assumes "emitter_ok s" and "slot_of s ev_removed = None" and "once_ready ty (fired s) (listeners s ty)"
    and "listeners s ty \<noteq> []"
  shows "\<exists>n s'. ev_run n no_reaction [Do (Emit ty args)] s = Done s' \<and>
           calls s' = calls s @ map (\<lambda>l. (target l, args)) (listeners s ty) \<and>
           listeners s' ty = map Fn (plain (listeners s ty))"
proof -
  from run_once [OF assms(1) _ _ assms(3), of "[]" args] assms(2) obtain n s' where
    "ev_run n no_reaction (map (\<lambda>l. Call l args) (listeners s ty)) s = Done s'"
    "calls s' = calls s @ map (\<lambda>l. (target l, args)) (listeners s ty)"
    "listeners s' ty = map Fn (plain (listeners s ty))"
    by (auto simp: quiet_removal_def)
  moreover from this(1) assms(4) have "ev_run (Suc n) no_reaction [Do (Emit ty args)] s = Done s'"
    by (auto simp: emit_def listeners_def split: option.splits slot.splits)
  ultimately show ?thesis by blast
qed

definition mixed_listeners :: "nat emitter" where
  "mixed_listeners =
     EventEmitter\<lparr>events := [(u ''x'', Many 0)],
       arrays := (\<lambda>_. [])(0 := [Fn 1, Wrap 0 (u ''x'') (Fn 2), Fn 3]), nextArray := 1, nextOnce := 1\<rparr>"

theorem emit_fires_once_witness:
  "\<exists>n s'. ev_run n no_reaction [Do (Emit (u ''x'') [])] mixed_listeners = Done s' \<and>
     calls s' = [(1, []), (2, []), (3, [])] \<and> listeners s' (u ''x'') = [Fn 1, Fn 3]"
proof -
  have ls: "listeners mixed_listeners (u ''x'') = [Fn 1, Wrap 0 (u ''x'') (Fn 2), Fn 3]"
    by (simp add: mixed_listeners_def listeners_def slot_of_def)
  have ok: "emitter_ok mixed_listeners"
    by (rule emitter_okI) (auto simp: mixed_listeners_def slot_of_def split: if_splits)
  have rm: "slot_of mixed_listeners ev_removed = None"
    by (simp add: mixed_listeners_def slot_of_def)
  have ready: "once_ready (u ''x'') (fired mixed_listeners) (listeners mixed_listeners (u ''x''))"
    unfolding ls by (simp add: once_ready_def mixed_listeners_def EventEmitter_def map_filter_simps)
  have "calls mixed_listeners = []" by (simp add: mixed_listeners_def EventEmitter_def)
  with emit_fires_once [OF ok rm ready, of "[]"] ls show ?thesis by simp
qed

text \<open>
  Removing a listener undoes adding it, by \<open>on\<close> or by \<open>once\<close>, also when the
  same function was registered before: it is the last registration that goes.
\<close>
theorem remove_undoes_add:
  assumes "emitter_ok s" and "slot_of s ev_new = None" and "slot_of s ev_removed = None"
    and "ty \<noteq> ev_new" and "ty \<noteq> ev_removed"
    and "add \<in> {AddListener ty (Some f), Once ty (Some f)}"
  shows "\<exists>n s'. ev_run n react [Do add, Do (RemoveListener ty (Some f))] s = Done s' \<and>
           listeners s' = listeners s \<and> calls s' = calls s"
proof -
  have undo: "\<exists>s'. ev_run 3 react [Do (AddListener ty (Some g)), Do (RemoveListener ty (Some f))] t = Done s' \<and>
           listeners s' = listeners t \<and> calls s' = calls t"
    if ok: "emitter_ok t" and new: "slot_of t ev_new = None" and rem: "slot_of t ev_removed = None"
      and fg: "matches g f" for t g
  proof -
    from append_listener_listeners [OF ok, of ty g] obtain t1 where
      t1: "append_listener ty g t = Inr (t1, [])" "calls t1 = calls t"
        "quiet_removal t1" "\<forall>ty'. listeners t1 ty' = (if ty' = ty then listeners t ty @ [g] else listeners t ty')"
      using assms(5) rem by (auto simp: quiet_removal_def)
    from emitter_ok_append [OF ok t1(1)] t1(3) removeListener_listeners [of t1 ty f] obtain t2 where
      t2: "removeListener ty (Some f) t1 = Inr (t2, [])" "calls t2 = calls t1"
        "\<forall>ty'. listeners t2 ty' = (if ty' = ty then (case remove_last_match f (listeners t1 ty) of
            None \<Rightarrow> listeners t1 ty | Some ls \<Rightarrow> ls) else listeners t1 ty')" by blast
    have "listeners t2 = listeners t"
      using t1(4) t2(3) remove_last_match_snoc [OF fg] by (auto intro!: ext)
    with t1 t2 new show ?thesis
      by (simp add: numeral_eq_Suc addListener_def)
  qed
  show ?thesis
  proof (cases "add = AddListener ty (Some f)")
    case True
    with undo [of s f] assms show ?thesis by (auto simp: matches_def)
  next
    case False
    let ?t = "s\<lparr>nextOnce := Suc (nextOnce s)\<rparr>"
    have "listeners ?t = listeners s"
      by (auto simp: listeners_def slot_of_def split: option.split slot.split)
    moreover obtain s' where "ev_run 3 react [Do (AddListener ty (Some (Wrap (nextOnce s) ty f))),
          Do (RemoveListener ty (Some f))] ?t = Done s'" "listeners s' = listeners ?t" "calls s' = calls ?t"
      using undo [of ?t "Wrap (nextOnce s) ty f"] assms by (auto simp: matches_def emitter_simps)
    moreover from False assms(6) have "add = Once ty (Some f)" by simp
    ultimately have "ev_run 4 react [Do add, Do (RemoveListener ty (Some f))] s = Done s'"
        "listeners s' = listeners s" "calls s' = calls s"
      by (simp_all add: numeral_eq_Suc once_def)
    then show ?thesis by blast
  qed
qed

theorem remove_undoes_add_witness:
  "\<exists>n s'. ev_run n remover [Do (Once (u ''x'') (Some (Fn 1))), Do (RemoveListener (u ''x'') (Some (Fn 1)))]
     mixed_listeners = Done s' \<and> listeners s' = listeners mixed_listeners \<and> calls s' = calls mixed_listeners"
proof (rule remove_undoes_add)
  show "emitter_ok mixed_listeners"
    by (rule emitter_okI) (auto simp: mixed_listeners_def slot_of_def split: if_splits)
qed (simp_all add: mixed_listeners_def slot_of_def)

text \<open>
  \<open>removeAllListeners(ty)\<close> leaves no listener of the event when it returns,
  whatever the \<open>removeListener\<close> handlers did; but for an event without listeners it throws a
  TypeError as soon as anything listens to removals.
\<close>
theorem removeAllListeners_clears:
  "if slot_of s ty = None \<and> slot_of s ev_removed \<noteq> None
   then ev_run (Suc n) react [Do (RemoveAllListeners (Some ty))] s = Threw LengthOfUndefined s
   else (case ev_run (Suc n) react [Do (RemoveAllListeners (Some ty))] s of
           Done s' \<Rightarrow> listeners s' ty = [] | Threw _ _ \<Rightarrow> True | OutOfFuel \<Rightarrow> True)"
proof -
  have del: "listeners s' ty = []" if "ev_run m react [op, DeleteEvent ty] s = Done s'" for m op s'
  proof -
    from ev_run_append [of m react "[op]" "[DeleteEvent ty]" s s'] that obtain k t where
      "ev_run k react [DeleteEvent ty] t = Done s'" by auto
    then show ?thesis by (cases k) (auto simp: listeners_def emitter_simps)
  qed
  show ?thesis
    by (cases "slot_of s ev_removed"; cases "slot_of s ty"; cases "the (slot_of s ty)")
      (auto simp: removeAllListeners_def listeners_def emitter_simps dest: del split: outcome.splits)
qed


end
