(* ===== verification/Js_Balanced.thy ===== *)
theory Js_Balanced
  imports Prelude
begin

text \<open>
  \<open>balanced-match\<close> (module 10 of \<open>site/assets/javascripts/lunr/wordcut.js\<close>) and its
  specification: \<open>range\<close> finds the leftmost opening delimiter that has a matching closing one.

  The loop keeps the positions of the next opening and the next closing delimiter and a stack of
  open ones.  Its variable \<open>i\<close> is \<open>next_index ai bi\<close> whenever the loop tests it: the code
  computes it so at the end of each round, and before the first one the opening position is the
  smaller.
\<close>

section \<open>The code\<close>

text \<open>An index that is \<open>-1\<close> weighs nothing; any other one weighs what lies after it.\<close>

definition index_weight :: "'a list \<Rightarrow> int \<Rightarrow> nat" where
  "index_weight s i = (if i < 0 then 0 else Suc (nat (int (length s) - i)))"

lemma index_weight_next:
  assumes "0 \<le> i"
  shows "index_weight s (index_from pat s (Suc (nat i))) < index_weight s i"
proof (cases "0 \<le> index_from pat s (Suc (nat i))")
  case True
  from index_from_some(1) [OF True] have "i < index_from pat s (Suc (nat i))" by linarith
  moreover from index_from_some(2) [OF True]
  have "index_from pat s (Suc (nat i)) \<le> int (length s)"
    by (auto simp: occurs_at_def)
  ultimately show ?thesis using assms True by (simp add: index_weight_def)
qed (use assms in \<open>simp add: index_weight_def\<close>)

definition next_index :: "int \<Rightarrow> int \<Rightarrow> int" where
  "next_index ai bi = (if ai < bi \<and> ai \<ge> 0 then ai else bi)"

function range_loop ::
    "'a list \<Rightarrow> 'a list \<Rightarrow> 'a list \<Rightarrow> int \<Rightarrow> int \<Rightarrow> int list \<Rightarrow> int \<Rightarrow> int option \<Rightarrow> (int \<times> int) option"
where
  "range_loop a b s ai bi begs left right =
     (if next_index ai bi < 0 then (if begs \<noteq> [] then map_option (Pair left) right else None)
      else if next_index ai bi = ai
        then range_loop a b s (index_from a s (Suc (nat ai))) bi (ai # begs) left right
      else if length begs = 1 then Some (hd begs, bi)
      else
        (case begs of
           [] \<Rightarrow> range_loop a b s ai (index_from b s (Suc (nat bi))) [] left right
         | beg # begs' \<Rightarrow>
             (if beg < left
              then range_loop a b s ai (index_from b s (Suc (nat bi))) begs' beg (Some bi)
              else range_loop a b s ai (index_from b s (Suc (nat bi))) begs' left right)))"
  by pat_completeness auto
termination
  by (relation "measure (\<lambda>(a, b, s, ai, bi, _). index_weight s ai + index_weight s bi)")
    (auto simp: next_index_def intro: index_weight_next split: if_splits)

declare range_loop.simps [simp del]

definition range_of :: "'a list \<Rightarrow> 'a list \<Rightarrow> 'a list \<Rightarrow> (int \<times> int) option" where
  "range_of a b s =
     (let ai = index_from a s 0; bi = index_from b s (nat (ai + 1))
      in if ai \<ge> 0 \<and> bi > 0 then range_loop a b s ai bi [] (int (length s)) None else None)"

text \<open>\<open>balanced\<close> for two strings: the parts before, inside and after the pair.\<close>

definition balanced :: "'a list \<Rightarrow> 'a list \<Rightarrow> 'a list \<Rightarrow> ('a list \<times> 'a list \<times> 'a list) option" where
  "balanced a b s =
     map_option (\<lambda>(l, r). (take (nat l) s, slice (nat l + length a) (nat r) s,
                           drop (nat r + length b) s)) (range_of a b s)"

section \<open>Matching pairs\<close>

text \<open>\<open>bal op cl d w\<close>: read from depth \<open>d\<close>, \<open>w\<close> never closes more than is open and ends at depth 0.\<close>

fun bal :: "'a \<Rightarrow> 'a \<Rightarrow> nat \<Rightarrow> 'a list \<Rightarrow> bool" where
  "bal op cl d [] \<longleftrightarrow> d = 0"
| "bal op cl d (c # cs) \<longleftrightarrow>
     (if c = op then bal op cl (Suc d) cs
      else if c = cl then (case d of 0 \<Rightarrow> False | Suc e \<Rightarrow> bal op cl e cs)
      else bal op cl d cs)"

definition matched :: "'a \<Rightarrow> 'a \<Rightarrow> 'a list \<Rightarrow> nat \<Rightarrow> nat \<Rightarrow> bool" where
  "matched op cl s l r \<longleftrightarrow>
     l < r \<and> r < length s \<and> s ! l = op \<and> s ! r = cl \<and> bal op cl 0 (slice (Suc l) r s)"

text \<open>The positions open before position \<open>p\<close>, the innermost first.\<close>

fun opens :: "'a \<Rightarrow> 'a \<Rightarrow> 'a list \<Rightarrow> nat \<Rightarrow> nat list" where
  "opens op cl s 0 = []"
| "opens op cl s (Suc p) =
     (if s ! p = op then p # opens op cl s p
      else if s ! p = cl then tl (opens op cl s p)
      else opens op cl s p)"

lemma bal_insert: "op \<noteq> cl \<Longrightarrow> bal op cl d (w @ op # cl # z) = bal op cl d (w @ z)"
  by (induction w arbitrary: d) (auto split: nat.splits)

lemma bal_skip: "c \<noteq> op \<Longrightarrow> c \<noteq> cl \<Longrightarrow> bal op cl d (w @ c # z) = bal op cl d (w @ z)"
  by (induction w arbitrary: d) (auto split: nat.splits)

lemma bal_append: "bal op cl d w \<Longrightarrow> bal op cl (d + e) (w @ z) = bal op cl e z"
  by (induction w arbitrary: d) (auto split: nat.splits if_splits simp flip: add_Suc)

lemma opens_bal:
  assumes "op \<noteq> cl" and "p \<le> q" and "q \<le> length s" and "bal op cl d (slice p q s)"
  shows "opens op cl s q = drop d (opens op cl s p)"
  using assms(2-4)
proof (induction "q - p" arbitrary: p d)
  case 0
  then show ?case by simp
next
  case (Suc n)
  then have pq: "p < q" and IH: "\<And>d. bal op cl d (slice (Suc p) q s) \<Longrightarrow>
      opens op cl s q = drop d (opens op cl s (Suc p))"
    using Suc.hyps(1) [of "Suc p"] Suc.hyps(2) Suc.prems(1) by auto
  from Suc.prems(3) have "bal op cl d (s ! p # slice (Suc p) q s)"
    by (simp add: slice_Cons pq Suc.prems(2))
  with IH assms(1) show ?case
    by (auto simp: drop_Suc split: if_splits nat.splits)
qed

lemma opens_nth:
  assumes "op \<noteq> cl" and "p \<le> length s" and "d < length (opens op cl s p)"
  shows "opens op cl s p ! d < p \<and> s ! (opens op cl s p ! d) = op \<and>
    bal op cl 0 (slice (Suc (opens op cl s p ! d)) p s @ replicate d cl)"
  using assms(2,3)
proof (induction p arbitrary: d)
  case (Suc p)
  then have plen: "p < length s" by simp
  consider "s ! p = op" "d = 0" | e where "s ! p = op" "d = Suc e" | "s ! p = cl" "s ! p \<noteq> op"
    | "s ! p \<noteq> op" "s ! p \<noteq> cl" by (cases d) auto
  then show ?case
  proof cases
    case 2
    with Suc have "opens op cl s p ! e < p" "s ! (opens op cl s p ! e) = op"
        "bal op cl 0 (slice (Suc (opens op cl s p ! e)) p s @ replicate e cl)" by auto
    with 2 plen assms(1) show ?thesis by (simp add: slice_Suc bal_insert)
  next
    case 3
    then have "Suc d < length (opens op cl s p)" using Suc.prems by simp
    moreover from this have "tl (opens op cl s p) ! d = opens op cl s p ! Suc d"
      by (simp add: nth_tl)
    moreover note Suc.IH [of "Suc d"]
    ultimately show ?thesis
      using 3 plen by (auto simp: slice_Suc)
  next
    case 4
    with Suc have "opens op cl s p ! d < p" "s ! (opens op cl s p ! d) = op"
        "bal op cl 0 (slice (Suc (opens op cl s p ! d)) p s @ replicate d cl)" by auto
    with 4 plen show ?thesis by (simp add: slice_Suc bal_skip)
  qed simp
qed simp

lemma matched_iff:
  assumes "op \<noteq> cl"
  shows "matched op cl s l r \<longleftrightarrow>
    r < length s \<and> s ! r = cl \<and> opens op cl s r \<noteq> [] \<and> hd (opens op cl s r) = l"
proof
  assume m: "matched op cl s l r"
  then have "opens op cl s r = drop 0 (opens op cl s (Suc l))"
    using assms by (intro opens_bal) (auto simp: matched_def)
  with m show "r < length s \<and> s ! r = cl \<and> opens op cl s r \<noteq> [] \<and> hd (opens op cl s r) = l"
    by (simp add: matched_def)
next
  assume r: "r < length s \<and> s ! r = cl \<and> opens op cl s r \<noteq> [] \<and> hd (opens op cl s r) = l"
  with opens_nth [OF assms, of r s 0] show "matched op cl s l r"
    by (auto simp: matched_def hd_conv_nth)
qed

section \<open>One delimiter\<close>

lemma index_char_skip:
  assumes "p \<le> q" and "index_from [c] s p < 0 \<or> int q \<le> index_from [c] s p"
  shows "index_from [c] s q = index_from [c] s p"
proof -
  let ?x = "index_from [c] s p" and ?y = "index_from [c] s q"
  consider "?y < 0" | "0 \<le> ?y" by linarith
  then show ?thesis
  proof cases
    case 1
    have "?x < 0"
    proof (rule ccontr)
      assume "\<not> ?x < 0"
      then have nn: "0 \<le> ?x" and q: "q \<le> nat ?x" using assms(2) by auto
      from index_char_before [OF q index_char_at(1,2) [OF nn]] 1 show False by simp
    qed
    with 1 index_from_ge [of "[c]" s p] index_from_ge [of "[c]" s q] show ?thesis by linarith
  next
    case 2
    have le: "0 \<le> ?x \<and> ?x \<le> ?y"
      using index_char_before [OF _ index_char_at(1,2) [OF 2], of p] index_char_at(3) [OF 2] assms(1) 2
      by auto
    then have "q \<le> nat ?x" using assms(2) by auto
    from index_char_before [OF this index_char_at(1,2)] le show ?thesis by auto
  qed
qed

lemma opens_between:
  assumes "p \<le> q" and "\<And>k. p \<le> k \<Longrightarrow> k < q \<Longrightarrow> s ! k \<noteq> op \<and> s ! k \<noteq> cl"
  shows "opens op cl s q = opens op cl s p"
  using assms by (induction rule: dec_induct) auto

section \<open>The loop finds the leftmost pair\<close>

definition leftmost_pair :: "'a \<Rightarrow> 'a \<Rightarrow> 'a list \<Rightarrow> (int \<times> int) option \<Rightarrow> bool" where
  "leftmost_pair op cl s res \<longleftrightarrow>
     (case res of
        None \<Rightarrow> \<not> (\<exists>l r. matched op cl s l r)
      | Some (l, r) \<Rightarrow> 0 \<le> l \<and> 0 \<le> r \<and> matched op cl s (nat l) (nat r) \<and>
          \<not> (\<exists>l' r'. l' < nat l \<and> matched op cl s l' r'))"

definition range_inv ::
    "'a \<Rightarrow> 'a \<Rightarrow> 'a list \<Rightarrow> nat \<Rightarrow> int \<Rightarrow> int \<Rightarrow> int list \<Rightarrow> int \<Rightarrow> int option \<Rightarrow> bool" where
  "range_inv op cl s p ai bi begs left right \<longleftrightarrow>
     ai = index_from [op] s p \<and> bi = index_from [cl] s p \<and> p \<le> length s \<and>
     begs = map int (opens op cl s p) \<and> begs \<noteq> [] \<and> (\<forall>k < nat (last begs). s ! k \<noteq> op) \<and>
     (case right of
        None \<Rightarrow> left = int (length s) \<and> 0 \<le> bi \<and> (\<forall>l r. matched op cl s l r \<longrightarrow> p \<le> r)
      | Some r \<Rightarrow> 0 \<le> left \<and> 0 \<le> r \<and> matched op cl s (nat left) (nat r) \<and>
          (\<forall>l' r'. matched op cl s l' r' \<longrightarrow> r' < p \<longrightarrow> nat left \<le> l'))"

lemma range_inv_end:
  assumes inv: "range_inv op cl s p ai bi begs left right" and "next_index ai bi < 0"
  shows "leftmost_pair op cl s (map_option (Pair left) right)"
proof -
  have bi: "bi < 0" using assms(2) by (auto simp: next_index_def split: if_splits)
  have early: "r < p" if "matched op cl s l r" for l r
    using that inv bi index_char_before [of p r s cl]
    by (cases "p \<le> r") (auto simp: range_inv_def matched_def)
  from inv bi obtain r where "right = Some r" "0 \<le> left" "0 \<le> r" "matched op cl s (nat left) (nat r)"
      "\<forall>l' r'. matched op cl s l' r' \<longrightarrow> r' < p \<longrightarrow> nat left \<le> l'"
    by (auto simp: range_inv_def split: option.splits)
  with early show ?thesis by (fastforce simp: leftmost_pair_def)
qed

lemma range_inv_open:
  assumes ne: "op \<noteq> cl" and inv: "range_inv op cl s p ai bi begs left right"
    and nn: "0 \<le> ai" and lt: "ai < bi"
  shows "range_inv op cl s (Suc (nat ai)) (index_from [op] s (Suc (nat ai))) bi (ai # begs) left right"
proof -
  let ?q = "Suc (nat ai)"
  from inv have ai: "ai = index_from [op] s p" and bi: "bi = index_from [cl] s p"
    by (auto simp: range_inv_def)
  note at = index_char_at [of op s p, folded ai, OF nn]
  have none: "s ! k \<noteq> op \<and> s ! k \<noteq> cl" if "p \<le> k" "k < nat ai" for k
    using index_char_before [of p k s op] index_char_before [of p k s cl] that at(1) ai bi lt
    by fastforce
  then have same: "opens op cl s (nat ai) = opens op cl s p"
    by (intro opens_between at(3)) auto
  have nocl: "s ! k \<noteq> cl" if "p \<le> k" "k < ?q" for k
    using none [of k] that at(2) ne by (cases "k = nat ai") auto
  have "bi = index_from [cl] s ?q"
    using index_char_skip [of p ?q cl s] at(3) bi lt nn by fastforce
  moreover have "p \<le> r \<Longrightarrow> matched op cl s l r \<Longrightarrow> ?q \<le> r" for l r
    using nocl [of r] unfolding matched_def by (meson not_le)
  moreover have "r < ?q \<Longrightarrow> matched op cl s l r \<Longrightarrow> r < p" for l r
    using nocl [of r] unfolding matched_def by (meson not_le)
  ultimately show ?thesis
    using inv same at nn by (auto simp: range_inv_def split: option.splits)
qed

text \<open>At a closing delimiter the innermost open one is its match.\<close>

lemma range_inv_close:
  assumes ne: "op \<noteq> cl" and inv: "range_inv op cl s p ai bi begs left right"
    and nn: "0 \<le> bi" and lt: "\<not> (ai < bi \<and> 0 \<le> ai)"
  shows "matched op cl s (nat (hd begs)) (nat bi)" and "0 \<le> hd begs" and "p \<le> nat bi"
    and "opens op cl s (Suc (nat bi)) = tl (opens op cl s p)"
    and "\<And>r l. p \<le> r \<Longrightarrow> matched op cl s l r \<Longrightarrow> nat bi \<le> r"
    and "index_from [op] s (Suc (nat bi)) = ai"
proof -
  from inv have ai: "ai = index_from [op] s p" and bi: "bi = index_from [cl] s p"
    and begs: "begs = map int (opens op cl s p)" "begs \<noteq> []"
    by (auto simp: range_inv_def)
  note at = index_char_at [of cl s p, folded bi, OF nn]
  have none: "s ! k \<noteq> op \<and> s ! k \<noteq> cl" if "p \<le> k" "k < nat bi" for k
    using index_char_before [of p k s op] index_char_before [of p k s cl] that at(1) ai bi lt
    by fastforce
  then have same: "opens op cl s (nat bi) = opens op cl s p"
    by (intro opens_between at(3)) auto
  show "matched op cl s (nat (hd begs)) (nat bi)" and "0 \<le> hd begs" and "p \<le> nat bi"
    using begs same at by (auto simp: matched_iff [OF ne] hd_map)
  show "opens op cl s (Suc (nat bi)) = tl (opens op cl s p)"
    using same at ne by simp
  show "nat bi \<le> r" if "p \<le> r" "matched op cl s l r" for r l
    using none [of r] that by (auto simp: matched_def intro: leI)
  have "ai \<noteq> bi" using at ne ai nn index_char_at(2) [of op s p] by auto
  with lt have "ai < 0 \<or> int (Suc (nat bi)) \<le> ai" using nn by auto
  then show "index_from [op] s (Suc (nat bi)) = ai"
    using index_char_skip [of p "Suc (nat bi)" op s] at(3) ai by simp
qed

lemma range_inv_pop:
  assumes ne: "op \<noteq> cl" and inv: "range_inv op cl s p ai bi (beg # begs) left right"
    and nn: "0 \<le> bi" and lt: "\<not> (ai < bi \<and> 0 \<le> ai)" and more: "begs \<noteq> []"
  shows "if beg < left
     then range_inv op cl s (Suc (nat bi)) ai (index_from [cl] s (Suc (nat bi))) begs beg (Some bi)
     else range_inv op cl s (Suc (nat bi)) ai (index_from [cl] s (Suc (nat bi))) begs left right"
proof -
  note close = range_inv_close [OF ne inv nn lt, unfolded list.sel]
  have begs: "begs = map int (tl (opens op cl s p))" and len: "Suc (nat bi) \<le> length s"
    and noop: "\<forall>k < nat (last begs). s ! k \<noteq> op"
    using inv more close(1) by (auto simp: range_inv_def matched_def map_tl)
  have split: "r < p \<or> r = nat bi \<and> l = nat beg" if "matched op cl s l r" "r < Suc (nat bi)" for l r
  proof (cases "r < p")
    case False
    with close(5) [of r l] that have "r = nat bi" by auto
    with that(1) close(1) show ?thesis by (simp add: matched_iff [OF ne])
  qed simp
  note common = close(2,4,6) begs len noop more
  show ?thesis
  proof (cases "beg < left")
    case True
    have "nat beg \<le> l" if "matched op cl s l r" "r < Suc (nat bi)" for l r
      using split [OF that] inv that(1) True
      by (cases right) (fastforce simp: range_inv_def)+
    with True common close(1) nn show ?thesis by (simp add: range_inv_def del: opens.simps)
  next
    case False
    have "beg < int (length s)"
      using close(1,2) by (auto simp: matched_def)
    with False inv obtain r where right: "right = Some r" by (auto simp: range_inv_def split: option.splits)
    have "nat left \<le> l" if "matched op cl s l r'" "r' < Suc (nat bi)" for l r'
      using split [OF that] inv that(1) False right by (auto simp: range_inv_def)
    with False common right inv show ?thesis by (simp add: range_inv_def del: opens.simps)
  qed
qed

lemma range_loop_leftmost:
  assumes "op \<noteq> cl" and "range_inv op cl s p ai bi begs left right"
  shows "leftmost_pair op cl s (range_loop [op] [cl] s ai bi begs left right)"
  using assms(2)
proof (induction "[op]" "[cl]" s ai bi begs left right arbitrary: p rule: range_loop.induct)
  case (1 s ai bi begs left right)
  note inv = "1.prems"
  from inv have ne: "begs \<noteq> []" unfolding range_inv_def by blast
  consider "next_index ai bi < 0" | "0 \<le> ai" "ai < bi" "next_index ai bi = ai"
    | "0 \<le> bi" "\<not> (ai < bi \<and> 0 \<le> ai)" "next_index ai bi = bi"
    by (cases "ai < bi \<and> 0 \<le> ai"; cases "bi < 0") (simp_all add: next_index_def)
  then show ?case
  proof cases
    case 1
    with range_inv_end [OF inv 1] ne show ?thesis
      by (simp add: range_loop.simps [of "[op]" "[cl]" s ai bi])
  next
    case 2
    from "1.hyps"(1) [OF _ _ range_inv_open [OF assms(1) inv 2(1,2)]] 2 show ?thesis
      by (simp add: range_loop.simps [of "[op]" "[cl]" s ai bi])
  next
    case 3
    note close = range_inv_close [OF assms(1) inv 3(1,2)]
    have nai: "bi \<noteq> ai"
    proof
      assume eq: "bi = ai"
      with inv 3(1) index_char_at(2) [of op s p] index_char_at(2) [of cl s p]
      show False using assms(1) by (auto simp: range_inv_def)
    qed
    show ?thesis
    proof (cases "length begs = 1")
      case True
      then have "last begs = hd begs" by (cases begs) auto
      with inv have "\<not> (\<exists>l' r'. l' < nat (hd begs) \<and> matched op cl s l' r')"
        by (auto simp: range_inv_def matched_def)
      with close(1,2) True 3 nai show ?thesis
        by (simp add: range_loop.simps [of "[op]" "[cl]" s ai bi] leftmost_pair_def)
    next
      case False
      with ne obtain beg begs' where b: "begs = beg # begs'" "begs' \<noteq> []"
        by (cases begs) auto
      note pop = range_inv_pop [OF assms(1) inv [unfolded b(1)] 3(1,2) b(2)]
      show ?thesis
        using "1.hyps"(3) [OF _ _ False b(1) _, of "Suc (nat bi)"]
          "1.hyps"(4) [OF _ _ False b(1) _, of "Suc (nat bi)"] pop 3 nai b False
        by (simp add: range_loop.simps [of "[op]" "[cl]" s ai bi] split: if_splits)
    qed
  qed
qed

lemma range_of_leftmost:
  assumes ne: "op \<noteq> cl"
  shows "leftmost_pair op cl s (range_of [op] [cl] s)"
proof -
  define ai where "ai = index_from [op] s 0"
  define bi where "bi = index_from [cl] s (nat (ai + 1))"
  show ?thesis
  proof (cases "0 \<le> ai \<and> 0 < bi")
    case True
    then have nn: "0 \<le> ai" and bi: "0 < bi" "bi = index_from [cl] s (Suc (nat ai))"
      by (auto simp: bi_def Suc_nat_eq_nat_zadd1 add.commute)
    note at = index_char_at [of op s 0, folded ai_def, OF nn]
    have lt: "ai < bi"
      using index_char_at(3) [of cl s "Suc (nat ai)"] bi nn by auto
    have none: "s ! k \<noteq> op" if "k < nat ai" for k
      using index_char_before [of 0 k s op] that at(1) by (auto simp: ai_def)
    have empty: "opens op cl s k = []" if "k \<le> nat ai" for k
      using that none by (induction k) auto
    have "nat ai < r" if "matched op cl s l r" for l r
      using that none [of l] unfolding matched_def by (metis le_less_trans not_le)
    then have "range_inv op cl s (Suc (nat ai)) (index_from [op] s (Suc (nat ai))) bi [ai] (int (length s)) None"
      using bi at nn empty [of "nat ai"] none by (auto simp: range_inv_def Suc_le_eq)
    from range_loop_leftmost [OF ne this] have
      "leftmost_pair op cl s (range_loop [op] [cl] s ai bi [] (int (length s)) None)"
      using nn lt by (simp add: range_loop.simps [of _ _ _ _ _ "[]"] next_index_def)
    with True show ?thesis by (simp add: range_of_def ai_def bi_def Let_def)
  next
    case False
    have "\<not> matched op cl s l r" for l r
    proof
      assume m: "matched op cl s l r"
      with index_char_before [of 0 l s op] have ai: "0 \<le> ai" "ai \<le> int l"
        by (auto simp: matched_def ai_def)
      with m index_char_before [of "nat (ai + 1)" r s cl] have "0 \<le> bi"
        by (auto simp: matched_def bi_def)
      with index_char_at(3) [of cl s "nat (ai + 1)"] ai(1) have "0 < bi" by (auto simp: bi_def)
      with ai False show False by simp
    qed
    with False show ?thesis by (auto simp: range_of_def ai_def bi_def Let_def leftmost_pair_def)
  qed
qed

lemma balanced_cuts:
  assumes "op \<noteq> cl"
  shows "case balanced [op] [cl] s of
     None \<Rightarrow> \<not> (\<exists>l r. matched op cl s l r)
   | Some (pre, body, post) \<Rightarrow> s = pre @ op # body @ cl # post \<and> bal op cl 0 body \<and>
       \<not> (\<exists>l r. l < length pre \<and> matched op cl s l r)"
proof (cases "range_of [op] [cl] s")
  case None
  with range_of_leftmost [OF assms, of s] show ?thesis by (simp add: leftmost_pair_def balanced_def)
next
  case (Some p)
  obtain l r where p: "p = (l, r)" by (cases p)
  with Some range_of_leftmost [OF assms, of s] have
    m: "matched op cl s (nat l) (nat r)" and left: "\<not> (\<exists>l' r'. l' < nat l \<and> matched op cl s l' r')"
    by (auto simp: leftmost_pair_def)
  then have ord: "nat l \<le> nat r" "nat r \<le> length s"
    unfolding matched_def by (meson less_imp_le)+
  then have "slice 0 (nat l) s @ slice (nat l) (nat r) s @ slice (nat r) (length s) s = s"
    by (simp add: slice_append)
  then have "s = take (nat l) s @ slice (nat l) (nat r) s @ drop (nat r) s"
    by (simp add: slice_def)
  moreover have "slice (nat l) (nat r) s = op # slice (Suc (nat l)) (nat r) s"
    using m by (simp add: slice_Cons matched_def)
  moreover have "drop (nat r) s = cl # drop (Suc (nat r)) s"
    using m by (auto simp: matched_def simp flip: Cons_nth_drop_Suc)
  ultimately have "s = take (nat l) s @ op # slice (Suc (nat l)) (nat r) s @ cl # drop (Suc (nat r)) s"
    by simp
  with Some p m left show ?thesis by (simp add: balanced_def matched_def)
qed

lemma bal_close_unique:
  assumes "op \<noteq> cl" and "bal op cl d x" and "bal op cl d y" and "x @ cl # v = y @ cl # w"
  shows "x = y"
proof -
  have no: False if "bal op cl d x'" "bal op cl d (x' @ cl # z)" for x' z
    using bal_append [OF that(1), of 0 "cl # z"] that(2) assms(1) by auto
  from assms(4) obtain us where us: "x = y @ us \<and> us @ cl # v = cl # w \<or> x @ us = y \<and> cl # v = us @ cl # w"
    by (auto simp: append_eq_append_conv2)
  then consider "x = y" | z where "x = y @ cl # z" | z where "y = x @ cl # z"
    by (cases us) auto
  then show ?thesis
    using no assms(2,3) by cases auto
qed

lemma balanced_first:
  assumes ne: "op \<noteq> cl" and "op \<notin> set pre" and "bal op cl 0 body"
  shows "balanced [op] [cl] (pre @ op # body @ cl # post) = Some (pre, body, post)"
proof -
  let ?s = "pre @ op # body @ cl # post"
  have "matched op cl ?s (length pre) (Suc (length pre + length body))"
    using assms(3) by (simp add: matched_def nth_append slice_def)
  note m = this
  then obtain pre' body' post' where some: "balanced [op] [cl] ?s = Some (pre', body', post')"
    using balanced_cuts [OF ne, of ?s] by (cases "balanced [op] [cl] ?s") auto
  note cuts = balanced_cuts [OF ne, of ?s, unfolded some option.case prod.case]
  from cuts some have
    b: "balanced [op] [cl] ?s = Some (pre', body', post')" "?s = pre' @ op # body' @ cl # post'"
      "bal op cl 0 body'" and first: "\<not> (\<exists>l r. l < length pre' \<and> matched op cl ?s l r)"
    by blast+
  have le: "length pre' \<le> length pre" using first m by (meson not_le)
  have "pre' = pre"
  proof (rule ccontr)
    assume neq: "pre' \<noteq> pre"
    from b(2) le have "take (length pre') pre = pre'"
      by (metis append_eq_append_conv_if)
    with neq le have "length pre' < length pre" by (metis le_neq_implies_less take_all_iff)
    then have "?s ! length pre' \<in> set pre" by (simp add: nth_append)
    with b(2) assms(2) show False by (metis nth_append_length)
  qed
  with b(2) have "body @ cl # post = body' @ cl # post'" by simp
  moreover from this bal_close_unique [OF ne assms(3) b(3)] have "body = body'" by blast
  ultimately show ?thesis using b(1) \<open>pre' = pre\<close> by simp
qed

section \<open>Properties\<close>

text \<open>
  Property C25.  For two different delimiters of one character \<open>range\<close> finds the leftmost opening
  delimiter that has a match, with that match, and finds nothing only when no delimiter matches;
  \<open>balanced\<close> cuts the string into the parts around and inside this pair.
\<close>
theorem balanced_leftmost:
  assumes "op \<noteq> cl"
  shows "case balanced [op] [cl] s of
     None \<Rightarrow> \<not> (\<exists>l r. matched op cl s l r)
   | Some (pre, body, post) \<Rightarrow> s = pre @ op # body @ cl # post \<and> bal op cl 0 body \<and>
       \<not> (\<exists>l r. l < length pre \<and> matched op cl s l r)"
  by (rule balanced_cuts [OF assms])

theorem balanced_leftmost_witness:
  "case balanced [1] [2] [1, 1, 0, 2, 3, 1, (2::nat)] of
     None \<Rightarrow> False
   | Some (pre, body, post) \<Rightarrow> bal 1 2 0 body \<and> pre = [1] \<and> body = [0] \<and> post = [3, 1, 2]"
proof -
  have "balanced [1] [2] [1, 1, 0, 2, 3, 1, (2::nat)] = Some ([1], [0], [3, 1, 2])"
    by code_simp
  with balanced_leftmost [of "1::nat" 2 "[1, 1, 0, 2, 3, 1, 2]"] show ?thesis by simp
qed

end
