(* ===== verification/Js_Brace.thy ===== *)
theory Js_Brace
  imports Js_Balanced
begin

text \<open>
  \<open>brace-expansion\<close> (modules 11 and 13 of \<open>site/assets/javascripts/lunr/wordcut.js\<close>).

  \<open>expand\<close> recurses on parts of its argument and, in one case, on its argument with a closing
  brace escaped, so its recursion is bounded by the number of closing braces: the fuel of the
  model, which \<open>expand_enough_fuel\<close> shows to suffice.  The loop over a sequence does not end
  when its step is zero; that outcome is the value \<open>Diverges\<close>.  The five decimal strings drawn
  with \<open>Math.random()\<close> when the module loads are arguments.  Integers of a sequence are
  unbounded; the code computes with doubles, exact up to \<open>2\<^sup>5\<^sup>3\<close>.
\<close>

section \<open>Outcomes\<close>

datatype 'a ran = Ret 'a | Diverges | NoFuel

fun bind_ran :: "'a ran \<Rightarrow> ('a \<Rightarrow> 'b ran) \<Rightarrow> 'b ran" where
  "bind_ran (Ret x) f = f x"
| "bind_ran Diverges f = Diverges"
| "bind_ran NoFuel f = NoFuel"



text \<open>\<open>concat-map\<close>: the results, which are arrays, one after the other.\<close>

fun concatMap :: "('a \<Rightarrow> 'b list ran) \<Rightarrow> 'a list \<Rightarrow> 'b list ran" where
  "concatMap f [] = Ret []"
| "concatMap f (x # xs) = bind_ran (f x) (\<lambda>y. map_ran ((@) y) (concatMap f xs))"

lemma bind_ran_cong [fundef_cong]:
  "m = m' \<Longrightarrow> (\<And>x. m' = Ret x \<Longrightarrow> f x = g x) \<Longrightarrow> bind_ran m f = bind_ran m' g"
  by (cases m') auto

lemma concatMap_cong [fundef_cong]:
  "xs = ys \<Longrightarrow> (\<And>x. x \<in> set ys \<Longrightarrow> f x = g x) \<Longrightarrow> concatMap f xs = concatMap g ys"
  by (induction ys arbitrary: xs) auto

section \<open>Escapes\<close>

abbreviation (input) OPEN :: nat where "OPEN \<equiv> 123"
abbreviation (input) CLOSE :: nat where "CLOSE \<equiv> 125"
abbreviation (input) COMMA :: nat where "COMMA \<equiv> 44"
abbreviation (input) BSLASH :: nat where "BSLASH \<equiv> 92"
abbreviation (input) DOLLAR :: nat where "DOLLAR \<equiv> 36"
abbreviation (input) PERIOD :: nat where "PERIOD \<equiv> 46"

record randoms =
  rnd_slash :: ustr
  rnd_open :: ustr
  rnd_close :: ustr
  rnd_comma :: ustr
  rnd_period :: ustr

definition escSlash :: "randoms \<Rightarrow> ustr" where "escSlash R = 0 # u ''SLASH'' @ rnd_slash R @ [0]"
definition escOpen :: "randoms \<Rightarrow> ustr" where "escOpen R = 0 # u ''OPEN'' @ rnd_open R @ [0]"
definition escClose :: "randoms \<Rightarrow> ustr" where "escClose R = 0 # u ''CLOSE'' @ rnd_close R @ [0]"
definition escComma :: "randoms \<Rightarrow> ustr" where "escComma R = 0 # u ''COMMA'' @ rnd_comma R @ [0]"
definition escPeriod :: "randoms \<Rightarrow> ustr" where "escPeriod R = 0 # u ''PERIOD'' @ rnd_period R @ [0]"

definition escapeBraces :: "randoms \<Rightarrow> ustr \<Rightarrow> ustr" where
  "escapeBraces R s =
     replace_all [BSLASH, PERIOD] (escPeriod R)
       (replace_all [BSLASH, COMMA] (escComma R)
         (replace_all [BSLASH, CLOSE] (escClose R)
           (replace_all [BSLASH, OPEN] (escOpen R)
             (replace_all [BSLASH, BSLASH] (escSlash R) s))))"

definition unescapeBraces :: "randoms \<Rightarrow> ustr \<Rightarrow> ustr" where
  "unescapeBraces R s =
     replace_all (escPeriod R) [PERIOD]
       (replace_all (escComma R) [COMMA]
         (replace_all (escClose R) [CLOSE]
           (replace_all (escOpen R) [OPEN]
             (replace_all (escSlash R) [BSLASH] s))))"

section \<open>Comma parts\<close>

lemma balanced_post_shorter:
  assumes "balanced a b s = Some (pre, body, post)" and "s \<noteq> []" and "b \<noteq> []"
  shows "length post < length s"
  using assms by (auto simp: balanced_def)

function parseCommaParts :: "ustr \<Rightarrow> ustr list" where
  "parseCommaParts s =
     (if s = [] then [[]]
      else
        (case balanced [OPEN] [CLOSE] s of
           None \<Rightarrow> split_on COMMA s
         | Some (pre, body, post) \<Rightarrow>
             (let p = split_on COMMA pre;
                  p1 = butlast p @ [last p @ [OPEN] @ body @ [CLOSE]]
              in if post \<noteq> []
                 then (let postParts = parseCommaParts post
                       in butlast p1 @ [last p1 @ hd postParts] @ tl postParts)
                 else p1)))"
  by pat_completeness auto
termination
  by (relation "measure length") (auto simp: balanced_post_shorter)

declare parseCommaParts.simps [simp del]

section \<open>Sequences\<close>

text \<open>\<open>/^-?\d+$/\<close>, \<open>/^-?0\d/\<close> and \<open>/^[a-zA-Z]$/\<close>.\<close>

definition unsigned :: "ustr \<Rightarrow> ustr" where
  "unsigned w = (case w of [] \<Rightarrow> [] | c # cs \<Rightarrow> if c = 45 then cs else w)"

definition is_int :: "ustr \<Rightarrow> bool" where
  "is_int w \<longleftrightarrow> unsigned w \<noteq> [] \<and> list_all (\<lambda>c. is_dec c) (unsigned w)"

definition isPadded :: "ustr \<Rightarrow> bool" where
  "isPadded w = (case unsigned w of a # b # _ \<Rightarrow> a = 48 \<and> is_dec b | _ \<Rightarrow> False)"

definition is_letter :: "ustr \<Rightarrow> bool" where
  "is_letter w = (case w of [c] \<Rightarrow> 65 \<le> c \<and> c \<le> 90 \<or> 97 \<le> c \<and> c \<le> 122 | _ \<Rightarrow> False)"

text \<open>
  The two sequence patterns: two or three parts separated by two dots.  No part contains a dot,
  so splitting at the dots first is the same.
\<close>

definition isNumericSequence :: "ustr \<Rightarrow> bool" where
  "isNumericSequence body =
     (case split_str [PERIOD, PERIOD] body of
        [x, y] \<Rightarrow> is_int x \<and> is_int y
      | [x, y, z] \<Rightarrow> is_int x \<and> is_int y \<and> is_int z
      | _ \<Rightarrow> False)"

definition isAlphaSequence :: "ustr \<Rightarrow> bool" where
  "isAlphaSequence body =
     (case split_str [PERIOD, PERIOD] body of
        [x, y] \<Rightarrow> is_letter x \<and> is_letter y
      | [x, y, z] \<Rightarrow> is_letter x \<and> is_letter y \<and> is_int z
      | _ \<Rightarrow> False)"

definition numeric :: "ustr \<Rightarrow> int" where
  "numeric w =
     (if is_int w
      then (if hd w = 45 then - int (digit_value 0 (unsigned w)) else int (digit_value 0 w))
      else int (hd w))"

text \<open>The loop \<open>for (i = x; test(i, y); i += incr)\<close>; \<open>None\<close> when it does not end.\<close>

partial_function (option) seq_loop :: "bool \<Rightarrow> int \<Rightarrow> int \<Rightarrow> int \<Rightarrow> int list \<Rightarrow> int list option" where
  "seq_loop reverse i y incr N =
     (if (if reverse then i \<ge> y else i \<le> y) then seq_loop reverse (i + incr) y incr (N @ [i])
      else Some N)"

definition int_str :: "int \<Rightarrow> ustr" where
  "int_str i = (if i < 0 then 45 # dec_digits (nat (- i)) else dec_digits (nat i))"

definition seq_item :: "bool \<Rightarrow> bool \<Rightarrow> nat \<Rightarrow> int \<Rightarrow> ustr" where
  "seq_item isAlpha pad width i =
     (if isAlpha then (let c = [nat i] in if c = [BSLASH] then [] else c)
      else
        (let c = int_str i in
         if pad then
           (let need = int width - int (length c) in
            if need > 0
            then (let z = replicate (nat need) 48 in if i < 0 then 45 # z @ tl c else z @ c)
            else c)
         else c))"

definition seq_strings :: "bool \<Rightarrow> ustr list \<Rightarrow> ustr list ran" where
  "seq_strings isAlpha n =
     (let x = numeric (n ! 0); y = numeric (n ! 1);
          width = max (length (n ! 0)) (length (n ! 1));
          incr = (if length n = 3 then \<bar>numeric (n ! 2)\<bar> else 1);
          reverse = (y < x);
          incr' = (if reverse then incr * -1 else incr);
          pad = list_ex isPadded n
      in case seq_loop reverse x y incr' [] of
           None \<Rightarrow> Diverges
         | Some N \<Rightarrow> Ret (map (seq_item isAlpha pad width) N))"

section \<open>Expansion\<close>

text \<open>\<open>/,.*\}/\<close>: a comma and later a closing brace with no line end between them.\<close>

fun comma_brace :: "bool \<Rightarrow> ustr \<Rightarrow> bool" where
  "comma_brace comma [] = False"
| "comma_brace comma (c # cs) =
     (if c = COMMA then comma_brace True cs
      else if c \<in> {10, 13, 0x2028, 0x2029} then comma_brace False cs
      else if c = CLOSE \<and> comma then True
      else comma_brace comma cs)"

definition ends_dollar :: "ustr \<Rightarrow> bool" where
  "ends_dollar s \<longleftrightarrow> s \<noteq> [] \<and> last s = DOLLAR"

definition embrace :: "ustr \<Rightarrow> ustr" where
  "embrace s = [OPEN] @ s @ [CLOSE]"

definition combine :: "bool \<Rightarrow> ustr \<Rightarrow> ustr list \<Rightarrow> ustr list \<Rightarrow> ustr list" where
  "combine keep_empty pre N post =
     filter (\<lambda>e. keep_empty \<or> e \<noteq> []) [pre @ n @ p. n \<leftarrow> N, p \<leftarrow> post]"

fun expand :: "randoms \<Rightarrow> nat \<Rightarrow> ustr \<Rightarrow> bool \<Rightarrow> ustr list ran" where
  "expand R 0 str isTop = NoFuel"
| "expand R (Suc f) str isTop =
     (case balanced [OPEN] [CLOSE] str of
        None \<Rightarrow> Ret [str]
      | Some (pre, body, post) \<Rightarrow>
          if ends_dollar pre then Ret [str]
          else
            (let isSequence = isNumericSequence body \<or> isAlphaSequence body;
                 isOptions = (COMMA \<in> set body);
                 expandPost = (if post \<noteq> [] then expand R f post False else Ret [[]])
             in
               if \<not> isSequence \<and> \<not> isOptions then
                 (if comma_brace False post
                  then expand R f (pre @ [OPEN] @ body @ escClose R @ post) False
                  else Ret [str])
               else if isSequence then
                 bind_ran expandPost (\<lambda>ps.
                   map_ran (\<lambda>N. combine True pre N ps)
                     (seq_strings (isAlphaSequence body) (split_str [PERIOD, PERIOD] body)))
               else
                 (let n = parseCommaParts body;
                      expandAll = (\<lambda>n. bind_ran expandPost (\<lambda>ps.
                        map_ran (\<lambda>N. combine (\<not> isTop) pre N ps)
                          (concatMap (\<lambda>el. expand R f el False) n)))
                  in
                    if length n = 1 then
                      bind_ran (expand R f (n ! 0) False) (\<lambda>xs.
                        (let n' = map embrace xs in
                         if length n' = 1
                         then map_ran (map (\<lambda>p. pre @ n' ! 0 @ p)) expandPost
                         else expandAll n'))
                    else expandAll n)))"

definition expandTop :: "randoms \<Rightarrow> nat \<Rightarrow> ustr \<Rightarrow> ustr list ran" where
  "expandTop R f str =
     (if str = [] then Ret []
      else
        (let str' = (if take 2 str = [OPEN, CLOSE] then [BSLASH, OPEN, BSLASH, CLOSE] @ drop 2 str else str)
         in map_ran (map (unescapeBraces R)) (expand R f (escapeBraces R str') True)))"

section \<open>Sequences: the loop\<close>

declare seq_loop.simps [code]

text \<open>The numbers a sequence with a positive step goes through.\<close>

definition steps :: "int \<Rightarrow> int \<Rightarrow> int \<Rightarrow> int list" where
  "steps x y k = map (\<lambda>j. x + int j * k) [0..<Suc (nat ((y - x) div k))]"

lemma steps_Cons:
  assumes "0 < k" and "x + k \<le> y"
  shows "steps x y k = x # steps (x + k) y k"
proof -
  have "(y - x) div k = (y - (x + k)) div k + 1"
    using assms(1) div_add_self2 [of k "y - (x + k)"] by (simp add: algebra_simps)
  then have "Suc (nat ((y - x) div k)) = Suc (Suc (nat ((y - (x + k)) div k)))"
    using assms by (simp add: pos_imp_zdiv_nonneg_iff nat_add_distrib)
  then show ?thesis
    unfolding steps_def by (simp add: map_upt_Suc algebra_simps del: upt_Suc)
qed

lemma steps_single: "0 < k \<Longrightarrow> x \<le> y \<Longrightarrow> y < x + k \<Longrightarrow> steps x y k = [x]"
  by (simp add: steps_def div_pos_pos_trivial)

lemma seq_loop_up:
  assumes "0 < k" and "x \<le> y"
  shows "seq_loop False x y k N = Some (N @ steps x y k)"
  using assms(2)
proof (induction "nat (y - x)" arbitrary: x N rule: less_induct)
  case less
  show ?case
  proof (cases "x + k \<le> y")
    case True
    then have "seq_loop False (x + k) y k (N @ [x]) = Some ((N @ [x]) @ steps (x + k) y k)"
      using assms(1) by (intro less.hyps) auto
    with less.prems steps_Cons [OF assms(1) True] show ?thesis by (simp add: seq_loop.simps [of _ x])
  next
    case False
    with less.prems steps_single [OF assms(1), of x y] show ?thesis
      by (simp add: seq_loop.simps [of _ x] seq_loop.simps [of _ "x + k"])
  qed
qed

lemma seq_loop_down:
  assumes "0 < k" and "y \<le> x"
  shows "seq_loop True x y (- k) N = Some (N @ map uminus (steps (- x) (- y) k))"
  using assms(2)
proof (induction "nat (x - y)" arbitrary: x N rule: less_induct)
  case less
  show ?case
  proof (cases "y \<le> x - k")
    case True
    then have "seq_loop True (x - k) y (- k) (N @ [x]) = Some ((N @ [x]) @ map uminus (steps (- (x - k)) (- y) k))"
      using assms(1) by (intro less.hyps) auto
    moreover have "steps (- x) (- y) k = - x # steps (- (x - k)) (- y) k"
      using True steps_Cons [OF assms(1), of "- x" "- y"] by (simp add: algebra_simps)
    ultimately show ?thesis using less.prems by (simp add: seq_loop.simps [of _ x])
  next
    case False
    with less.prems steps_single [OF assms(1), of "- x" "- y"] show ?thesis
      by (simp add: seq_loop.simps [of _ x] seq_loop.simps [of _ "x - k"])
  qed
qed

lemma seq_loop_ends:
  assumes run: "seq_loop reverse x y k N = Some L"
  shows "\<not> (k = 0 \<and> (if reverse then y \<le> x else x \<le> y))"
proof (rule seq_loop.raw_induct [where P = "\<lambda>reverse x y k N L. \<not> (k = 0 \<and> (if reverse then y \<le> x else x \<le> y))",
         OF _ run])
  fix loop :: "bool \<Rightarrow> int \<Rightarrow> int \<Rightarrow> int \<Rightarrow> int list \<Rightarrow> int list option"
  fix reverse x y k N L
  assume IH: "\<And>reverse x y k N L. loop reverse x y k N = Some L \<Longrightarrow>
      \<not> (k = 0 \<and> (if reverse then y \<le> x else x \<le> y))"
    and body: "(if if reverse then y \<le> x else x \<le> y then loop reverse (x + k) y k (N @ [x]) else Some N) = Some L"
  show "\<not> (k = 0 \<and> (if reverse then y \<le> x else x \<le> y))"
  proof
    assume zero: "k = 0 \<and> (if reverse then y \<le> x else x \<le> y)"
    have "loop reverse (x + k) y k (N @ [x]) = Some L"
      using body by (simp only: if_P [OF conjunct2 [OF zero]])
    from IH [OF this] zero show False by (cases reverse) auto
  qed
qed

lemma seq_loop_zero: "if reverse then y \<le> x else x \<le> y \<Longrightarrow> seq_loop reverse x y 0 N = None"
  using seq_loop_ends [of reverse x y 0 N] by (cases "seq_loop reverse x y 0 N") auto

text \<open>The values stay between the bounds.\<close>

lemma seq_loop_range:
  assumes "seq_loop reverse x y k N = Some L" and "if reverse then y \<le> x \<and> k \<le> 0 else x \<le> y \<and> 0 \<le> k"
  shows "set L \<subseteq> set N \<union> {min x y..max x y}"
proof (cases "k = 0")
  case True
  with assms seq_loop_zero [of reverse y x N] show ?thesis by (auto split: if_splits)
next
  case False
  have range: "set (steps a b c) \<subseteq> {a..b}" if "0 < c" "a \<le> b" for a b c
  proof -
    have up: "int j * c \<le> b - a" if "j < Suc (nat ((b - a) div c))" for j
    proof -
      have "int j \<le> (b - a) div c" using that \<open>0 < c\<close> \<open>a \<le> b\<close>
        by (simp add: pos_imp_zdiv_nonneg_iff less_Suc_eq_le nat_le_iff le_nat_iff)
      then have "int j * c \<le> (b - a) div c * c" using \<open>0 < c\<close> by simp
      also have "\<dots> \<le> b - a"
        using div_mult_mod_eq [of "b - a" c] pos_mod_sign [OF \<open>0 < c\<close>, of "b - a"] by linarith
      finally show ?thesis .
    qed
    have low: "0 \<le> int j * c" for j using \<open>0 < c\<close> by simp
    show ?thesis
    proof
      fix v
      assume "v \<in> set (steps a b c)"
      then obtain j where "v = a + int j * c" "j < Suc (nat ((b - a) div c))"
        unfolding steps_def by (metis (no_types, lifting) atLeastLessThan_iff imageE set_map set_upt)
      with up [of j] low [of j] show "v \<in> {a..b}" by simp
    qed
  qed
  show ?thesis
  proof (cases reverse)
    case True
    with assms False seq_loop_down [of "- k" y x N] range [of "- k" "- x" "- y"] show ?thesis by force
  next
    case r: False
    with assms False seq_loop_up [of k x y N] range [of k x y] show ?thesis by force
  qed
qed

section \<open>Closing braces only become fewer\<close>

abbreviation closes :: "ustr \<Rightarrow> nat" where "closes s \<equiv> count_list s CLOSE"

lemma count_split_on:
  "c \<noteq> sep \<Longrightarrow> sum_list (map (\<lambda>p. count_list p c) (split_on sep s)) = count_list s c"
proof (induction s)
  case (Cons d ds)
  then show ?case by (cases "split_on sep ds") auto
qed simp

lemma count_last_append:
  "p \<noteq> [] \<Longrightarrow> sum_list (map (\<lambda>q. count_list q c) (butlast p @ [last p @ w]))
     = sum_list (map (\<lambda>q. count_list q c) p) + count_list w c"
  by (induction p rule: rev_induct) (auto simp: count_list_append)

lemma balanced_split:
  "balanced [OPEN] [CLOSE] s = Some (pre, body, post) \<Longrightarrow>
   s = pre @ OPEN # body @ CLOSE # post \<and> bal OPEN CLOSE 0 body"
  using balanced_cuts [of OPEN CLOSE s] by auto

lemma closes_balanced:
  "balanced [OPEN] [CLOSE] s = Some (pre, body, post) \<Longrightarrow> closes s = closes pre + closes body + Suc (closes post)"
  using balanced_split [of s pre body post] by (auto simp: count_list_append)

lemma parseCommaParts_not_Nil [simp]: "parseCommaParts s \<noteq> []"
  by (subst parseCommaParts.simps) (auto simp: Let_def split: option.splits)

lemma closes_parts: "sum_list (map closes (parseCommaParts s)) = closes s"
proof (induction s rule: parseCommaParts.induct)
  case (1 s)
  show ?case
  proof (cases "s = [] \<or> balanced [OPEN] [CLOSE] s = None")
    case True
    then show ?thesis by (subst parseCommaParts.simps) (auto simp: count_split_on)
  next
    case False
    then obtain pre body post where b: "balanced [OPEN] [CLOSE] s = Some (pre, body, post)" by auto
    let ?p = "butlast (split_on COMMA pre) @ [last (split_on COMMA pre) @ [OPEN] @ body @ [CLOSE]]"
    have p: "sum_list (map closes ?p) = Suc (closes pre + closes body)"
      by (subst count_last_append) (simp_all add: count_split_on count_list_append)
    show ?thesis
    proof (cases "post = []")
      case True
      with False b p closes_balanced [OF b] show ?thesis
        by (subst parseCommaParts.simps) (simp add: Let_def)
    next
      case ne: False
      let ?q = "parseCommaParts post"
      have "sum_list (map closes ?q) = closes post"
        using "1.IH" [OF _ b _ _ refl] False ne by simp
      then have "closes (hd ?q) + sum_list (map closes (tl ?q)) = closes post"
        by (metis list.collapse list.simps(9) parseCommaParts_not_Nil sum_list.Cons)
      moreover have "sum_list (map closes (butlast ?p @ [last ?p @ hd ?q])) = sum_list (map closes ?p) + closes (hd ?q)"
        by (rule count_last_append) simp
      ultimately show ?thesis
        using False ne b p closes_balanced [OF b]
        by (subst parseCommaParts.simps) (simp add: Let_def count_list_append)
    qed
  qed
qed

lemma closes_part: "el \<in> set (parseCommaParts s) \<Longrightarrow> closes el \<le> closes s"
  using closes_parts [of s] member_le_sum_list [of "closes el" "map closes (parseCommaParts s)"] by auto

lemma closes_dec [simp]: "closes (dec_digits n) = 0"
  using dec_digits_dec [of CLOSE n] by (auto simp: count_list_0_iff)

lemma closes_int_str: "closes (int_str i) = 0" "closes (tl (int_str i)) = 0"
proof -
  show "closes (int_str i) = 0" by (simp add: int_str_def)
  then show "closes (tl (int_str i)) = 0"
    by (metis count_list_0_iff list.sel(2) list.set_sel(2))
qed

lemma closes_replicate_zero [simp]: "closes (replicate n 48) = 0"
  by (auto simp: count_list_0_iff)

lemma closes_seq_item: "i \<noteq> int CLOSE \<or> \<not> isAlpha \<Longrightarrow> closes (seq_item isAlpha pad width i) = 0"
  by (auto simp: seq_item_def Let_def closes_int_str count_list_append)

lemma numeric_letter: "is_letter w \<Longrightarrow> numeric w = int (hd w) \<and> 65 \<le> hd w \<and> hd w \<le> 122"
  by (auto simp: is_letter_def numeric_def is_int_def unsigned_def split: list.splits)

lemma seq_strings_loop:
  assumes "seq_strings isAlpha n = Ret N"
  shows "\<exists>L pad width. N = map (seq_item isAlpha pad width) L \<and>
     (\<forall>i \<in> set L. min (numeric (n ! 0)) (numeric (n ! 1)) \<le> i \<and> i \<le> max (numeric (n ! 0)) (numeric (n ! 1)))"
proof -
  define x where "x = numeric (n ! 0)"
  define y where "y = numeric (n ! 1)"
  define k where "k = (if length n = 3 then \<bar>numeric (n ! 2)\<bar> else 1)"
  have k: "0 \<le> k" by (simp add: k_def)
  from assms have "(case seq_loop (y < x) x y (if y < x then k * -1 else k) [] of None \<Rightarrow> Diverges
      | Some L \<Rightarrow> Ret (map (seq_item isAlpha (list_ex isPadded n) (max (length (n ! 0)) (length (n ! 1)))) L))
      = Ret N"
    unfolding seq_strings_def Let_def x_def y_def k_def .
  then obtain L pad width where N: "N = map (seq_item isAlpha pad width) L"
    and L: "seq_loop (y < x) x y (if y < x then k * -1 else k) [] = Some L"
    by (cases "seq_loop (y < x) x y (if y < x then k * -1 else k) []") auto
  from seq_loop_range [OF L] k have "set L \<subseteq> {min x y..max x y}" by (auto split: if_splits)
  with N show ?thesis unfolding x_def y_def by fastforce
qed

lemma closes_seq_strings:
  assumes "seq_strings (isAlphaSequence body) (split_str [PERIOD, PERIOD] body) = Ret N" and "x \<in> set N"
  shows "closes x = 0"
proof -
  let ?n = "split_str [PERIOD, PERIOD] body"
  from seq_strings_loop [OF assms(1)] obtain L pad width where
    L: "N = map (seq_item (isAlphaSequence body) pad width) L"
      "\<forall>i \<in> set L. min (numeric (?n ! 0)) (numeric (?n ! 1)) \<le> i \<and>
         i \<le> max (numeric (?n ! 0)) (numeric (?n ! 1))" by blast
  from L(1) assms(2) obtain i where "i \<in> set L"
    and i1: "x = seq_item (isAlphaSequence body) pad width i" by (metis imageE list.set_map)
  with L(2) have i: "x = seq_item (isAlphaSequence body) pad width i"
      "min (numeric (?n ! 0)) (numeric (?n ! 1)) \<le> i" "i \<le> max (numeric (?n ! 0)) (numeric (?n ! 1))"
    by blast+
  have "i \<noteq> int CLOSE" if "isAlphaSequence body"
  proof -
    from that have "is_letter (?n ! 0)" "is_letter (?n ! 1)"
      by (auto simp: isAlphaSequence_def split: list.splits)
    then have "numeric (?n ! 0) \<le> 122" "numeric (?n ! 1) \<le> 122"
      using numeric_letter [of "?n ! 0"] numeric_letter [of "?n ! 1"] by linarith+
    with i show ?thesis by linarith
  qed
  with i(1) show ?thesis by (auto intro: closes_seq_item)
qed

lemma in_combine: "x \<in> set (combine k pre N ps) \<Longrightarrow> \<exists>n \<in> set N. \<exists>p \<in> set ps. x = pre @ n @ p"
  by (auto simp: combine_def)

lemma concatMap_Ret: "concatMap f xs = Ret ys \<Longrightarrow> y \<in> set ys \<Longrightarrow> \<exists>x \<in> set xs. \<exists>zs. f x = Ret zs \<and> y \<in> set zs"
proof (induction xs arbitrary: ys)
  case (Cons x xs)
  then show ?case by (cases "f x"; cases "concatMap f xs") auto
qed simp

lemma bind_ran_Ret: "bind_ran m f = Ret y \<longleftrightarrow> (\<exists>x. m = Ret x \<and> f x = Ret y)"
  by (cases m) auto

lemma map_ran_Ret: "map_ran f m = Ret y \<longleftrightarrow> (\<exists>x. m = Ret x \<and> y = f x)"
  by (cases m) auto

lemma ran_NoFuel:
  "bind_ran m f = NoFuel \<longleftrightarrow> m = NoFuel \<or> (\<exists>x. m = Ret x \<and> f x = NoFuel)"
  "map_ran g m = NoFuel \<longleftrightarrow> m = NoFuel"
  by (cases m; auto)+

lemma concatMap_NoFuel: "concatMap f xs = NoFuel \<Longrightarrow> \<exists>x \<in> set xs. f x = NoFuel"
  by (induction xs) (auto simp: ran_NoFuel)

definition plain_random :: "randoms \<Rightarrow> bool" where
  "plain_random R \<longleftrightarrow> CLOSE \<notin> set (rnd_close R)"

lemma closes_escClose: "plain_random R \<Longrightarrow> closes (escClose R) = 0"
  by (auto simp: plain_random_def escClose_def count_list_0_iff u_def)

section \<open>Enough fuel\<close>

declare expand.simps(2) [simp del]

lemma expand_plain [simp]: "balanced [OPEN] [CLOSE] str = None \<Longrightarrow> expand R (Suc f) str isTop = Ret [str]"
  by (simp add: expand.simps)

text \<open>The parts of one step of \<open>expand\<close>, named.\<close>

abbreviation expand_post :: "randoms \<Rightarrow> nat \<Rightarrow> ustr \<Rightarrow> ustr list ran" where
  "expand_post R f post \<equiv> (if post \<noteq> [] then expand R f post False else Ret [[]])"

abbreviation expand_all :: "randoms \<Rightarrow> nat \<Rightarrow> bool \<Rightarrow> ustr \<Rightarrow> ustr \<Rightarrow> ustr list \<Rightarrow> ustr list ran" where
  "expand_all R f isTop pre post n \<equiv>
     bind_ran (expand_post R f post) (\<lambda>ps.
       map_ran (\<lambda>N. combine (\<not> isTop) pre N ps) (concatMap (\<lambda>el. expand R f el False) n))"

lemma expand_step:
  assumes "balanced [OPEN] [CLOSE] str = Some (pre, body, post)"
  obtains (stop) "expand R (Suc f) str isTop = Ret [str]"
    | (escape) "expand R (Suc f) str isTop = expand R f (pre @ [OPEN] @ body @ escClose R @ post) False"
    | (sequence) "expand R (Suc f) str isTop =
        bind_ran (expand_post R f post) (\<lambda>ps. map_ran (\<lambda>N. combine True pre N ps)
          (seq_strings (isAlphaSequence body) (split_str [PERIOD, PERIOD] body)))"
    | (single) "expand R (Suc f) str isTop =
        bind_ran (expand R f (parseCommaParts body ! 0) False) (\<lambda>xs.
          if length xs = 1
          then map_ran (map (\<lambda>p. pre @ embrace (xs ! 0) @ p)) (expand_post R f post)
          else expand_all R f isTop pre post (map embrace xs))"
    | (options) "expand R (Suc f) str isTop = expand_all R f isTop pre post (parseCommaParts body)"
proof -
  have eq: "(\<lambda>xs. let n' = map embrace xs in
        if length n' = 1 then map_ran (map (\<lambda>p. pre @ n' ! 0 @ p)) (expand_post R f post)
        else expand_all R f isTop pre post n')
    = (\<lambda>xs. if length xs = 1
        then map_ran (map (\<lambda>p. pre @ embrace (xs ! 0) @ p)) (expand_post R f post)
        else expand_all R f isTop pre post (map embrace xs))"
    by (rule ext) (simp add: Let_def)
  have choice: "v = A \<or> v = B \<or> v = C \<or> v = D \<or> v = E"
    if "v = (if a then A else if b then (if c then B else A) else if d then C else if e then D else E)"
    for v A B C D E :: "ustr list ran" and a b c d e
    using that by (simp split: if_splits)
  have "expand R (Suc f) str isTop =
     (if ends_dollar pre then Ret [str]
      else if \<not> (isNumericSequence body \<or> isAlphaSequence body) \<and> COMMA \<notin> set body
      then (if comma_brace False post
            then expand R f (pre @ [OPEN] @ body @ escClose R @ post) False else Ret [str])
      else if isNumericSequence body \<or> isAlphaSequence body
      then bind_ran (expand_post R f post) (\<lambda>ps. map_ran (\<lambda>N. combine True pre N ps)
          (seq_strings (isAlphaSequence body) (split_str [PERIOD, PERIOD] body)))
      else if length (parseCommaParts body) = 1
      then bind_ran (expand R f (parseCommaParts body ! 0) False) (\<lambda>xs.
          if length xs = 1
          then map_ran (map (\<lambda>p. pre @ embrace (xs ! 0) @ p)) (expand_post R f post)
          else expand_all R f isTop pre post (map embrace xs))
      else expand_all R f isTop pre post (parseCommaParts body))"
    by (simp only: expand.simps assms option.case prod.case Let_def eq [unfolded Let_def])
  from choice [OF this] that show ?thesis by blast
qed

lemma closes_combine:
  assumes "x \<in> set (combine k pre N ps)" and "\<forall>n \<in> set N. closes n \<le> a" and "\<forall>p \<in> set ps. closes p \<le> b"
  shows "closes x \<le> closes pre + a + b"
  using in_combine [OF assms(1)] assms(2,3) by (force simp: count_list_append)

lemma closes_embrace [simp]: "closes (embrace x) = Suc (closes x)"
  by (simp add: embrace_def count_list_append)

lemma expand_closes:
  assumes R: "plain_random R"
  shows "expand R f str isTop = Ret xs \<Longrightarrow> x \<in> set xs \<Longrightarrow>
     closes x \<le> closes str \<and> (length xs \<noteq> 1 \<longrightarrow> closes x < closes str)"
proof (induction f arbitrary: str isTop xs x)
  case 0
  then show ?case by simp
next
  case (Suc f)
  show ?case
  proof (cases "balanced [OPEN] [CLOSE] str")
    case None
    with Suc.prems show ?thesis by auto
  next
    case (Some b)
    obtain pre body post where bal: "balanced [OPEN] [CLOSE] str = Some (pre, body, post)"
      using Some by (cases b) auto
    note total = closes_balanced [OF bal]
    have post: "closes p \<le> closes post \<and> (length ps \<noteq> 1 \<longrightarrow> closes p < closes post)"
      if "expand_post R f post = Ret ps" "p \<in> set ps" for ps p
      using that Suc.IH [of post False ps p] by (auto split: if_splits)
    have all: "closes x < closes str"
      if run: "expand_all R f isTop pre post n = Ret xs" and n: "\<forall>el \<in> set n. closes el \<le> closes body" for n
    proof -
      from run obtain ps N where ps: "expand_post R f post = Ret ps"
          "concatMap (\<lambda>el. expand R f el False) n = Ret N" "xs = combine (\<not> isTop) pre N ps"
        unfolding bind_ran_Ret map_ran_Ret by blast
      have "\<forall>m \<in> set N. closes m \<le> closes body"
        using concatMap_Ret [OF ps(2)] Suc.IH n by (meson order_trans)
      from closes_combine [OF Suc.prems(2) [unfolded ps(3)] this, of "closes post"] post [OF ps(1)] total
      show ?thesis by auto
    qed
    show ?thesis
    proof (rule expand_step [OF bal, of R f isTop])
      assume "expand R (Suc f) str isTop = Ret [str]"
      with Suc.prems show ?thesis by auto
    next
      let ?s = "pre @ [OPEN] @ body @ escClose R @ post"
      assume "expand R (Suc f) str isTop = expand R f ?s False"
      with Suc.IH [of ?s False xs x] Suc.prems total show ?thesis
        by (auto simp: count_list_append closes_escClose [OF R])
    next
      assume e: "expand R (Suc f) str isTop = bind_ran (expand_post R f post) (\<lambda>ps.
          map_ran (\<lambda>N. combine True pre N ps)
            (seq_strings (isAlphaSequence body) (split_str [PERIOD, PERIOD] body)))"
      from Suc.prems(1) obtain ps N where ps: "expand_post R f post = Ret ps"
          "seq_strings (isAlphaSequence body) (split_str [PERIOD, PERIOD] body) = Ret N"
          "xs = combine True pre N ps"
        unfolding e bind_ran_Ret map_ran_Ret by blast
      have "\<forall>m \<in> set N. closes m \<le> 0" using closes_seq_strings [OF ps(2)] by simp
      from closes_combine [OF Suc.prems(2) [unfolded ps(3)] this, of "closes post"] post [OF ps(1)] total
      show ?thesis by auto
    next
      assume "expand R (Suc f) str isTop = expand_all R f isTop pre post (parseCommaParts body)"
      with all [of "parseCommaParts body"] Suc.prems(1) closes_part show ?thesis by auto
    next
      assume e: "expand R (Suc f) str isTop = bind_ran (expand R f (parseCommaParts body ! 0) False) (\<lambda>xs.
          if length xs = 1
          then map_ran (map (\<lambda>p. pre @ embrace (xs ! 0) @ p)) (expand_post R f post)
          else expand_all R f isTop pre post (map embrace xs))"
      from Suc.prems(1) obtain ys where ys: "expand R f (parseCommaParts body ! 0) False = Ret ys"
        and xs: "(if length ys = 1
          then map_ran (map (\<lambda>p. pre @ embrace (ys ! 0) @ p)) (expand_post R f post)
          else expand_all R f isTop pre post (map embrace ys)) = Ret xs"
        unfolding e bind_ran_Ret by blast
      have le: "closes (parseCommaParts body ! 0) \<le> closes body"
        by (rule closes_part) (simp add: nth_mem)
      have y: "closes y \<le> closes body \<and> (length ys \<noteq> 1 \<longrightarrow> closes y < closes body)" if "y \<in> set ys" for y
        using Suc.IH [OF ys that] le by auto
      show ?thesis
      proof (cases "length ys = 1")
        case True
        from xs obtain ps where ps: "expand_post R f post = Ret ps"
            "xs = map (\<lambda>p. pre @ embrace (ys ! 0) @ p) ps"
          unfolding if_P [OF True] map_ran_Ret by blast
        with Suc.prems(2) obtain p where p: "p \<in> set ps" "x = pre @ embrace (ys ! 0) @ p" by auto
        from post [OF ps(1) p(1)] y [of "ys ! 0"] True total ps(2) p(2) show ?thesis
          by (auto simp: count_list_append)
      next
        case False
        then have "\<forall>el \<in> set (map embrace ys). closes el \<le> closes body"
          using y by (auto simp: Suc_le_eq)
        with False xs all [of "map embrace ys"] show ?thesis by auto
      qed
    qed
  qed
qed

lemma expand_enough_fuel:
  assumes R: "plain_random R"
  shows "closes str < f \<Longrightarrow> expand R f str isTop \<noteq> NoFuel"
proof (induction f arbitrary: str isTop)
  case (Suc f)
  show ?case
  proof (cases "balanced [OPEN] [CLOSE] str")
    case (Some b)
    obtain pre body post where bal: "balanced [OPEN] [CLOSE] str = Some (pre, body, post)"
      using Some by (cases b) auto
    note total = closes_balanced [OF bal]
    have post: "expand_post R f post \<noteq> NoFuel"
      using Suc.IH [of post False] Suc.prems total by auto
    have all: "expand_all R f isTop pre post n \<noteq> NoFuel" if "\<forall>el \<in> set n. closes el \<le> closes body" for n
    proof -
      have "expand R f el False \<noteq> NoFuel" if "el \<in> set n" for el
        using Suc.IH [of el False] Suc.prems total that \<open>\<forall>el \<in> set n. closes el \<le> closes body\<close> by fastforce
      with post show ?thesis unfolding ran_NoFuel by (auto dest: concatMap_NoFuel)
    qed
    show ?thesis
    proof (rule expand_step [OF bal, of R f isTop])
      assume "expand R (Suc f) str isTop = Ret [str]"
      then show ?thesis by simp
    next
      let ?s = "pre @ [OPEN] @ body @ escClose R @ post"
      assume "expand R (Suc f) str isTop = expand R f ?s False"
      with Suc.IH [of ?s False] Suc.prems total show ?thesis
        by (auto simp: count_list_append closes_escClose [OF R])
    next
      assume "expand R (Suc f) str isTop = bind_ran (expand_post R f post) (\<lambda>ps.
          map_ran (\<lambda>N. combine True pre N ps)
            (seq_strings (isAlphaSequence body) (split_str [PERIOD, PERIOD] body)))"
      moreover have "seq_strings a n \<noteq> NoFuel" for a n
        by (simp add: seq_strings_def Let_def split: option.splits)
      ultimately show ?thesis using post by (auto simp: ran_NoFuel)
    next
      assume "expand R (Suc f) str isTop = expand_all R f isTop pre post (parseCommaParts body)"
      with all [of "parseCommaParts body"] closes_part show ?thesis by auto
    next
      assume e: "expand R (Suc f) str isTop = bind_ran (expand R f (parseCommaParts body ! 0) False) (\<lambda>xs.
          if length xs = 1
          then map_ran (map (\<lambda>p. pre @ embrace (xs ! 0) @ p)) (expand_post R f post)
          else expand_all R f isTop pre post (map embrace xs))"
      have le: "closes (parseCommaParts body ! 0) \<le> closes body"
        by (rule closes_part) (simp add: nth_mem)
      have n0: "expand R f (parseCommaParts body ! 0) False \<noteq> NoFuel"
        using le total Suc.prems by (intro Suc.IH) auto
      have "expand_all R f isTop pre post (map embrace ys) \<noteq> NoFuel"
        if "expand R f (parseCommaParts body ! 0) False = Ret ys" "length ys \<noteq> 1" for ys
        using expand_closes [OF R that(1)] that(2) le by (intro all) (fastforce simp: Suc_le_eq)
      with n0 post show ?thesis unfolding e by (auto simp: ran_NoFuel)
    qed
  qed simp
qed simp

section \<open>Escapes that are not needed\<close>

lemma escapeBraces_free [simp]: "BSLASH \<notin> set s \<Longrightarrow> escapeBraces R s = s"
  by (simp add: escapeBraces_def)

lemma unescapeBraces_free [simp]: "0 \<notin> set s \<Longrightarrow> unescapeBraces R s = s"
  by (simp add: unescapeBraces_def escSlash_def escOpen_def escClose_def escComma_def escPeriod_def)

lemma bal_free: "op \<notin> set w \<Longrightarrow> cl \<notin> set w \<Longrightarrow> bal op cl 0 w"
  by (induction w) auto

section \<open>Integers of a sequence\<close>

lemma set_int_str: "c \<in> set (int_str i) \<Longrightarrow> c = 45 \<or> is_dec c"
  using dec_digits_dec by (fastforce simp: int_str_def split: if_splits)

lemma unsigned_int_str: "unsigned (int_str i) = dec_digits (nat \<bar>i\<bar>)"
proof -
  have "hd (dec_digits n) \<noteq> 45" for n
    using dec_digits_dec [of "hd (dec_digits n)" n] by auto
  then have "unsigned (dec_digits n) = dec_digits n" for n
    by (cases "dec_digits n") (auto simp: unsigned_def, metis list.sel(1))
  moreover have "unsigned (45 # w) = w" for w by (simp add: unsigned_def)
  ultimately show ?thesis by (simp add: int_str_def)
qed

lemma is_int_int_str [simp]: "is_int (int_str i)"
  using dec_digits_dec by (auto simp: is_int_def unsigned_int_str list_all_iff)

lemma hd_int_str: "hd (int_str i) = 45 \<longleftrightarrow> i < 0"
  using dec_digits_dec [of "hd (dec_digits (nat i))" "nat i"] by (auto simp: int_str_def)

lemma numeric_int_str [simp]: "numeric (int_str i) = i"
  by (simp add: numeric_def hd_int_str unsigned_int_str digit_value_dec_digits)
    (simp add: int_str_def digit_value_dec_digits)

lemma not_letter_int_str [simp]: "\<not> is_letter (int_str i)"
  using set_int_str [of "hd (int_str i)" i] by (auto simp: is_letter_def split: list.splits)

lemma dec_digits_no_pad: "dec_digits n = a # b # w \<Longrightarrow> a \<noteq> 48"
proof (induction n arbitrary: a b w rule: dec_digits.induct)
  case (1 n)
  show ?case
  proof (cases "n < 10")
    case True
    with 1 show ?thesis by (simp add: dec_digits.simps [of n])
  next
    case False
    then have eq: "dec_digits n = dec_digits (n div 10) @ [48 + n mod 10]" by (simp add: dec_digits.simps [of n])
    show ?thesis
    proof (cases "dec_digits (n div 10)")
      case (Cons c cs)
      show ?thesis
      proof (cases cs)
        case Nil
        have "n div 10 \<noteq> 0" using False by simp
        moreover have "digit_value 0 (dec_digits (n div 10)) = c - 48" using Cons Nil by (simp add: digit_value_def)
        ultimately have "c \<noteq> 48" by (simp add: digit_value_dec_digits)
        with "1.prems" eq Cons show ?thesis by simp
      next
        case (Cons d ds)
        with "1.IH" [OF False, of c d ds] \<open>dec_digits (n div 10) = c # cs\<close> "1.prems" eq show ?thesis by simp
      qed
    qed simp
  qed
qed

lemma isPadded_int_str [simp]: "\<not> isPadded (int_str i)"
  using dec_digits_no_pad by (auto simp: isPadded_def unsigned_int_str split: list.splits)

lemma int_str_chars [simp]:
  "PERIOD \<notin> set (int_str i)" "OPEN \<notin> set (int_str i)" "CLOSE \<notin> set (int_str i)"
  "BSLASH \<notin> set (int_str i)" "0 \<notin> set (int_str i)"
  using set_int_str by fastforce+

lemma seq_strings_numeric:
  "seq_strings False [int_str x, int_str y, int_str k] =
     (if k = 0 then Diverges
      else Ret (map int_str (if y < x then map uminus (steps (- x) (- y) \<bar>k\<bar>) else steps x y \<bar>k\<bar>)))"
proof -
  have item: "seq_item False False w = int_str" for w by (auto simp: seq_item_def Let_def)
  show ?thesis
  proof (cases "k = 0")
    case True
    then show ?thesis
      using seq_loop_zero [of "y < x" y x "[]"] by (auto simp: seq_strings_def Let_def)
  next
    case False
    then have "0 < \<bar>k\<bar>" by simp
    with seq_loop_down [OF this, of y x "[]"] seq_loop_up [OF this, of x y "[]"] False show ?thesis
      by (simp add: seq_strings_def Let_def item)
  qed
qed

section \<open>The grammar of brace sets\<close>

text \<open>
  A word is a sequence of literals and of comma sets of at least two words.  The literals hold no
  brace, comma, backslash, dollar sign, dot or NUL.  \<open>show_word\<close> writes a word and
  \<open>denote\<close> is the list of strings it stands for.
\<close>

datatype batom = Lit ustr | Alts "batom list list"

fun show_atom :: "batom \<Rightarrow> ustr" where
  "show_atom (Lit s) = s"
| "show_atom (Alts ws) = [OPEN] @ join_with [COMMA] (map (\<lambda>w. concat (map show_atom w)) ws) @ [CLOSE]"

definition show_word :: "batom list \<Rightarrow> ustr" where
  "show_word w = concat (map show_atom w)"

fun cross :: "ustr list list \<Rightarrow> ustr list" where
  "cross [] = [[]]"
| "cross (xs # xss) = [x @ y. x \<leftarrow> xs, y \<leftarrow> cross xss]"

fun denote_atom :: "batom \<Rightarrow> ustr list" where
  "denote_atom (Lit s) = [s]"
| "denote_atom (Alts ws) = concat (map (\<lambda>w. cross (map denote_atom w)) ws)"

definition denote :: "batom list \<Rightarrow> ustr list" where
  "denote w = cross (map denote_atom w)"

definition lit_char :: "nat \<Rightarrow> bool" where
  "lit_char c \<longleftrightarrow> c \<notin> {OPEN, CLOSE, COMMA, BSLASH, DOLLAR, PERIOD, 0}"

fun ok_atom :: "batom \<Rightarrow> bool" where
  "ok_atom (Lit s) \<longleftrightarrow> list_all lit_char s"
| "ok_atom (Alts ws) \<longleftrightarrow> length ws \<ge> 2 \<and> list_all (list_all ok_atom) ws"

abbreviation ok_word :: "batom list \<Rightarrow> bool" where
  "ok_word w \<equiv> list_all ok_atom w"

abbreviation is_lit :: "batom \<Rightarrow> bool" where
  "is_lit a \<equiv> (case a of Lit _ \<Rightarrow> True | Alts _ \<Rightarrow> False)"

lemma show_word_simps [simp]:
  "show_word [] = []" "show_word (a # w) = show_atom a @ show_word w"
  "show_word (v @ w) = show_word v @ show_word w"
  by (simp_all add: show_word_def)

lemma show_Alts: "show_atom (Alts ws) = OPEN # join_with [COMMA] (map show_word ws) @ [CLOSE]"
  by (simp add: show_word_def [abs_def])

lemma denote_Alts: "denote_atom (Alts ws) = concat (map denote ws)"
  by (simp add: denote_def [abs_def])

lemma lits_chars: "ok_word w \<Longrightarrow> list_all is_lit w \<Longrightarrow> c \<in> set (show_word w) \<Longrightarrow> lit_char c"
  by (induction w) (auto simp: list_all_iff split: batom.splits)

lemma lits_denote: "list_all is_lit w \<Longrightarrow> denote (w @ v) = map ((@) (show_word w)) (denote v)"
proof (induction w)
  case Nil
  have "(@) [] = (\<lambda>x :: ustr. x)" by (rule ext) simp
  then show ?case by simp
qed (auto simp: denote_def split: batom.splits)

lemma bal_join: "\<forall>p \<in> set ps. bal OPEN CLOSE 0 p \<Longrightarrow> bal OPEN CLOSE 0 (join_with [COMMA] ps)"
proof (induction ps rule: induct_list012)
  case (3 p q ps)
  then show ?case using bal_append [of OPEN CLOSE 0 p 0] by simp
qed auto

lemma bal_show_atom: "ok_atom a \<Longrightarrow> bal OPEN CLOSE 0 (show_atom a)"
proof (induction a)
  case (Lit s)
  then show ?case by (auto simp: list_all_iff lit_char_def intro: bal_free)
next
  case (Alts ws)
  have "bal OPEN CLOSE 0 (show_word w)" if "w \<in> set ws" for w
  proof -
    have "\<forall>a \<in> set w. bal OPEN CLOSE 0 (show_atom a)"
      using Alts that by (auto simp: list_all_iff)
    then show ?thesis
    proof (induction w)
      case (Cons a w)
      then show ?case using bal_append [of OPEN CLOSE 0 "show_atom a" 0] by simp
    qed simp
  qed
  then have "bal OPEN CLOSE 0 (join_with [COMMA] (map show_word ws))" by (intro bal_join) auto
  from bal_append [OF this, of 1 "[CLOSE]"] show ?case by (simp add: show_Alts del: show_atom.simps)
qed

lemma bal_show_word: "ok_word w \<Longrightarrow> bal OPEN CLOSE 0 (show_word w)"
proof (induction w)
  case (Cons a w)
  then show ?case using bal_append [of OPEN CLOSE 0 "show_atom a" 0] bal_show_atom by simp
qed simp

lemma bal_show_words: "list_all ok_word ws \<Longrightarrow> bal OPEN CLOSE 0 (join_with [COMMA] (map show_word ws))"
  by (intro bal_join) (auto simp: list_all_iff intro: bal_show_word)

lemma word_cases:
  assumes "ok_word w"
  obtains (lits) "list_all is_lit w"
    | (alts) ls ws rest where "w = ls @ Alts ws # rest" and "list_all is_lit ls" and "ok_word ls"
        and "list_all ok_word ws" and "2 \<le> length ws" and "ok_word rest"
proof (cases "list_all is_lit w")
  case False
  then have "\<exists>a \<in> set w. \<not> is_lit a" by (simp add: list_all_iff)
  then obtain ls a rest where w: "w = ls @ a # rest" "\<not> is_lit a" "\<forall>a \<in> set ls. is_lit a"
    by (rule split_list_first_propE) blast
  then obtain ws where "a = Alts ws" by (cases a) auto
  with w assms alts show ?thesis by (auto simp: list_all_iff)
qed (rule lits)

lemma balanced_None: "OPEN \<notin> set s \<Longrightarrow> balanced [OPEN] [CLOSE] s = None"
  using balanced_split [of s] by (cases "balanced [OPEN] [CLOSE] s") fastforce+

lemma balanced_word:
  assumes "OPEN \<notin> set pre" and "list_all ok_word ws"
  shows "balanced [OPEN] [CLOSE] (pre @ show_atom (Alts ws) @ post)
    = Some (pre, join_with [COMMA] (map show_word ws), post)"
  using balanced_first [of OPEN CLOSE pre _ post, OF _ assms(1) bal_show_words [OF assms(2)]]
  by (simp add: show_Alts del: show_atom.simps)

text \<open>The comma parts of the words of a set are the words.\<close>

lemma parseCommaParts_show:
  assumes "ws \<noteq> []" and "list_all ok_word ws"
  shows "parseCommaParts (join_with [COMMA] (map show_word ws)) = map show_word ws"
  using assms
proof (induction "sum_list (map length ws)" arbitrary: ws rule: less_induct)
  case less
  let ?s = "join_with [COMMA] (map show_word ws)"
  show ?case
  proof (cases "list_all (list_all is_lit) ws")
    case True
    then have lit: "lit_char c" if "w \<in> set ws" "c \<in> set (show_word w)" for w c
      using lits_chars [of w c] less.prems(2) that by (auto simp: list_all_iff)
    have "OPEN \<notin> set ?s"
    proof
      assume "OPEN \<in> set ?s"
      then obtain w where "w \<in> set ws" "OPEN \<in> set (show_word w)"
        using set_join_with [of "[COMMA]" "map show_word ws"] by auto
      from lit [OF this] show False by (simp add: lit_char_def)
    qed
    moreover have "\<forall>p \<in> set (map show_word ws). COMMA \<notin> set p"
      using lit by (auto simp: lit_char_def)
    then have "split_on COMMA ?s = map show_word ws"
      using less.prems(1) by (intro split_join_with) auto
    moreover have "?s = [] \<Longrightarrow> map show_word ws = [[]]"
      using less.prems(1) by (simp add: join_with_eq_Nil)
    ultimately show ?thesis
      by (subst parseCommaParts.simps) (auto simp: balanced_None)
  next
    case False
    then have "\<exists>w \<in> set ws. \<not> list_all is_lit w" by (auto simp: list_all_iff)
    then obtain vs w us where ws: "ws = vs @ w # us" "\<not> list_all is_lit w" "\<forall>w \<in> set vs. list_all is_lit w"
      by (rule split_list_first_propE) blast
    with less.prems(2) obtain ls xs rest where w: "w = ls @ Alts xs # rest" "list_all is_lit ls"
        "ok_word ls" "list_all ok_word xs" "ok_word rest"
      by (auto elim!: word_cases [of w])
    let ?vs = "map show_word vs @ [show_word ls]"
    let ?pre = "join_with [COMMA] ?vs"
    let ?post = "join_with [COMMA] (map show_word (rest # us))"
    have s: "?s = ?pre @ show_atom (Alts xs) @ ?post"
      using join_with_middle [of "[COMMA]" "map show_word vs" "show_word ls" "show_atom (Alts xs)"
          "show_word rest" "map show_word us"] by (simp add: ws(1) w(1) del: show_atom.simps)
    have vs: "\<exists>v. ok_word v \<and> list_all is_lit v \<and> p = show_word v" if "p \<in> set ?vs" for p
    proof -
      from that obtain v where "v \<in> set (vs @ [ls])" and "p = show_word v" by auto
      moreover from this(1) have "ok_word v \<and> list_all is_lit v"
        using ws(1,3) w(2,3) less.prems(2) by (auto simp: list_all_iff)
      ultimately show ?thesis by blast
    qed
    have lit: "lit_char c" if "p \<in> set ?vs" "c \<in> set p" for p c
      using vs [OF that(1)] that(2) lits_chars by blast
    have "OPEN \<notin> set ?pre"
    proof
      assume "OPEN \<in> set ?pre"
      then have "\<exists>p \<in> set ?vs. OPEN \<in> set p" by (rule in_join_with) simp
      then obtain p where "p \<in> set ?vs" "OPEN \<in> set p" by blast
      from lit [OF this] show False by (simp add: lit_char_def)
    qed
    from balanced_word [OF this w(4), of ?post] have
      bal: "balanced [OPEN] [CLOSE] ?s = Some (?pre, join_with [COMMA] (map show_word xs), ?post)"
      unfolding s .
    have "\<forall>p \<in> set ?vs. COMMA \<notin> set p"
      using lit unfolding lit_char_def by blast
    then have p: "split_on COMMA ?pre = ?vs"
      by (intro split_join_with) auto
    have IH: "parseCommaParts ?post = map show_word (rest # us)"
      using less.prems(2) ws(1) w by (intro less.hyps) (auto simp: list_all_iff)
    have post: "?post = [] \<Longrightarrow> us = [] \<and> show_word rest = []"
      by (cases us) auto
    have "?s \<noteq> []" using s by (simp add: show_Alts del: show_atom.simps)
    then have step: "parseCommaParts ?s =
        (let p1 = butlast ?vs @ [last ?vs @ [OPEN] @ join_with [COMMA] (map show_word xs) @ [CLOSE]]
         in if ?post \<noteq> [] then butlast p1 @ [last p1 @ hd (map show_word (rest # us))] @ tl (map show_word (rest # us))
            else p1)"
      by (subst parseCommaParts.simps) (simp only: bal p IH option.case prod.case Let_def if_False)
    show ?thesis
    proof (cases "?post = []")
      case True
      with post step show ?thesis by (simp add: ws(1) w(1) show_Alts del: show_atom.simps)
    next
      case False
      with step show ?thesis by (simp add: ws(1) w(1) show_Alts Let_def butlast_append del: show_atom.simps)
    qed
  qed
qed

lemma sequence_no_comma:
  assumes "isNumericSequence body \<or> isAlphaSequence body"
  shows "COMMA \<notin> set body"
proof -
  let ?n = "split_str [PERIOD, PERIOD] body"
  have "COMMA \<notin> set p" if "is_int p \<or> is_letter p" for p
    using that by (auto simp: is_int_def is_letter_def unsigned_def list_all_iff split: list.splits if_splits)
  then have "\<forall>p \<in> set ?n. COMMA \<notin> set p"
    using assms by (auto simp: isNumericSequence_def isAlphaSequence_def split: list.splits)
  moreover have "set body \<subseteq> \<Union> (set ` set ?n) \<union> {PERIOD}"
    using set_join_with [of "[PERIOD, PERIOD]" ?n] join_split_str [of "[PERIOD, PERIOD]" body] by auto
  ultimately show ?thesis by auto
qed

section \<open>Properties\<close>

text \<open>
  A sequence \<open>{x..y..k}\<close> expands to the numbers from \<open>x\<close> to \<open>y\<close>, upwards or
  downwards, in steps of the absolute value of \<open>k\<close>; with a step of zero the expansion does not end.
\<close>
theorem expand_sequence:
  "expandTop R (Suc f) ([OPEN] @ int_str x @ [PERIOD, PERIOD] @ int_str y @ [PERIOD, PERIOD] @ int_str k @ [CLOSE])
   = (if k = 0 then Diverges
      else Ret (map int_str (if y < x then map uminus (steps (- x) (- y) \<bar>k\<bar>) else steps x y \<bar>k\<bar>)))"
proof -
  let ?body = "int_str x @ [PERIOD, PERIOD] @ int_str y @ [PERIOD, PERIOD] @ int_str k"
  let ?s = "[OPEN] @ ?body @ [CLOSE]"
  have bal: "balanced [OPEN] [CLOSE] ?s = Some ([], ?body, [])"
    using balanced_first [of OPEN CLOSE "[]" ?body "[]"] bal_free [of OPEN ?body CLOSE] by simp
  have split: "split_str [PERIOD, PERIOD] ?body = [int_str x, int_str y, int_str k]"
    by (simp only: split_str_append [of "[PERIOD, PERIOD]"] split_str_free [of "[PERIOD, PERIOD]"]
        list.sel int_str_chars not_False_eq_True list.distinct simp_thms)
  have seq: "isNumericSequence ?body" "\<not> isAlphaSequence ?body"
    unfolding isNumericSequence_def isAlphaSequence_def split by simp_all
  have "expand R (Suc f) ?s True = seq_strings False [int_str x, int_str y, int_str k]"
    unfolding expand.simps bal using seq split
    by (cases "seq_strings False [int_str x, int_str y, int_str k]")
      (simp_all add: ends_dollar_def combine_def)
  moreover have "take 2 ?s \<noteq> [OPEN, CLOSE]"
    using set_int_str [of "hd (int_str x)" x] by (cases "int_str x") (auto simp: int_str_def split: if_splits)
  moreover have "escapeBraces R ?s = ?s" by (rule escapeBraces_free) simp
  moreover have "map (unescapeBraces R) (map int_str L) = map int_str L" for L by simp
  ultimately show ?thesis
    by (simp add: expandTop_def seq_strings_numeric)
qed



lemma closes_join: "\<forall>p \<in> set ps. q = p \<longrightarrow> closes q \<le> closes (join_with [COMMA] ps)"
proof (induction ps rule: induct_list012)
  case (3 p p' ps)
  then show ?case by (auto simp: count_list_append)
qed auto

lemma denote_lits: "list_all is_lit w \<Longrightarrow> denote w = [show_word w]"
  using lits_denote [of w "[]"] by (simp add: denote_def)

lemma combine_denote:
  assumes "list_all is_lit ls"
  shows "combine k (show_word ls) (concat (map denote ws)) (denote rest)
     = filter (\<lambda>e. k \<or> e \<noteq> []) (denote (ls @ Alts ws # rest))"
proof -
  have "denote (Alts ws # rest) = [x @ y. x \<leftarrow> concat (map denote ws), y \<leftarrow> denote rest]"
    by (simp add: denote_def [of "_ # _"] denote_def [of rest] denote_Alts del: denote_atom.simps)
  then have "denote (ls @ Alts ws # rest) = [show_word ls @ x @ y. x \<leftarrow> concat (map denote ws), y \<leftarrow> denote rest]"
    by (simp add: lits_denote [OF assms] map_concat comp_def)
  then show ?thesis by (simp add: combine_def)
qed

lemma expand_word:
  "ok_word w \<Longrightarrow> closes (show_word w) < f \<Longrightarrow>
   expand R f (show_word w) isTop =
     Ret (if list_all is_lit w then [show_word w] else filter (\<lambda>e. \<not> isTop \<or> e \<noteq> []) (denote w))"
proof (induction f arbitrary: w isTop)
  case (Suc f)
  from Suc.prems(1) show ?case
  proof (cases rule: word_cases)
    case lits
    then have "OPEN \<notin> set (show_word w)"
      using lits_chars [OF Suc.prems(1)] by (auto simp: lit_char_def)
    with lits show ?thesis by (simp add: balanced_None)
  next
    case (alts ls ws rest)
    let ?pre = "show_word ls" and ?body = "join_with [COMMA] (map show_word ws)" and ?post = "show_word rest"
    have lit: "lit_char c" if "c \<in> set ?pre" for c
      using lits_chars that alts(2,3) by blast
    then have pre: "OPEN \<notin> set ?pre" "\<not> ends_dollar ?pre"
      using last_in_set [of ?pre] by (auto simp: ends_dollar_def lit_char_def)
    have s: "show_word w = ?pre @ show_atom (Alts ws) @ ?post" by (simp add: alts(1))
    from balanced_word [OF pre(1) alts(4), of ?post]
    have bal: "balanced [OPEN] [CLOSE] (show_word w) = Some (?pre, ?body, ?post)" unfolding s .
    note total = closes_balanced [OF bal]
    obtain v v' vs where ws: "ws = v # v' # vs" using alts(5) by (cases ws; cases "tl ws") auto
    have comma: "COMMA \<in> set ?body" by (simp add: ws)
    then have noseq: "\<not> isNumericSequence ?body" "\<not> isAlphaSequence ?body"
      using sequence_no_comma by blast+
    have parts: "parseCommaParts ?body = map show_word ws"
      using alts(4) ws by (intro parseCommaParts_show) auto
    have len: "length (map show_word ws) \<noteq> 1" by (simp add: ws)
    have post: "expand_post R f ?post = Ret (denote rest)"
    proof (cases "?post = []")
      case True
      then have "list_all is_lit rest"
        by (induction rest) (auto split: batom.splits)
      with True show ?thesis by (simp add: denote_lits)
    next
      case False
      with Suc.IH [of rest False] alts(6) Suc.prems(2) total show ?thesis
        by (simp add: denote_lits)
    qed
    have el: "expand R f (show_word v) False = Ret (denote v)" if "v \<in> set ws" for v
    proof -
      have "closes (show_word v) \<le> closes ?body"
        using closes_join [of "map show_word ws" "show_word v"] that by auto
      with Suc.IH [of v False] alts(4) that Suc.prems(2) total show ?thesis
        by (simp add: denote_lits list_all_iff)
    qed
    then have all: "concatMap (\<lambda>el. expand R f el False) (map show_word ws) = Ret (concat (map denote ws))"
      by (induction ws) auto
    have "expand R (Suc f) (show_word w) isTop = expand_all R f isTop ?pre ?post (map show_word ws)"
      by (simp only: expand.simps bal option.case prod.case Let_def pre(2) noseq comma parts len
            not_False_eq_True not_True_eq_False if_True if_False simp_thms)
    also have "\<dots> = Ret (filter (\<lambda>e. \<not> isTop \<or> e \<noteq> []) (denote w))"
      unfolding post all using combine_denote [OF alts(2)] by (simp add: alts(1))
    finally show ?thesis by (simp add: alts(1))
  qed
qed simp

lemma show_word_chars: "ok_word w \<Longrightarrow> c \<in> set (show_word w) \<Longrightarrow> c \<noteq> BSLASH"
proof -
  have atom: "ok_atom a \<Longrightarrow> c \<in> set (show_atom a) \<Longrightarrow> c \<noteq> BSLASH" for a
  proof (induction a)
    case (Alts ws)
    from Alts.prems(2) consider "c = OPEN \<or> c = CLOSE" | "c \<in> set (join_with [COMMA] (map show_word ws))"
      by (auto simp: show_Alts simp del: show_atom.simps)
    then show ?case
    proof cases
      case 2
      show ?thesis
      proof (cases "c = COMMA")
        case False
        then have "c \<notin> set [COMMA]" by simp
        from in_join_with [OF 2 this] obtain w where "w \<in> set ws" "c \<in> set (show_word w)" by auto
        with Alts show ?thesis by (fastforce simp: list_all_iff show_word_def)
      qed simp
    qed auto
  qed (auto simp: list_all_iff lit_char_def)
  assume "ok_word w" "c \<in> set (show_word w)"
  with atom show ?thesis by (auto simp: show_word_def list_all_iff)
qed

lemma in_cross: "e \<in> set (cross xss) \<Longrightarrow> c \<in> set e \<Longrightarrow> \<exists>xs \<in> set xss. \<exists>x \<in> set xs. c \<in> set x"
proof (induction xss arbitrary: e)
  case (Cons xs xss)
  from Cons.prems obtain x y where "x \<in> set xs" "y \<in> set (cross xss)" "c \<in> set x \<or> c \<in> set y" by auto
  with Cons.IH [of y] show ?case by auto
qed simp

lemma denote_chars: "ok_word w \<Longrightarrow> e \<in> set (denote w) \<Longrightarrow> c \<in> set e \<Longrightarrow> lit_char c"
proof -
  have atom: "ok_atom a \<Longrightarrow> e \<in> set (denote_atom a) \<Longrightarrow> c \<in> set e \<Longrightarrow> lit_char c" for a e
  proof (induction a arbitrary: e)
    case (Alts ws)
    then obtain w where w: "w \<in> set ws" "e \<in> set (cross (map denote_atom w))" by auto
    from in_cross [OF w(2) Alts.prems(3)] obtain a x where
      "a \<in> set w" "x \<in> set (denote_atom a)" "c \<in> set x" by auto
    with Alts w(1) show ?case by (auto simp: list_all_iff)
  qed (auto simp: list_all_iff)
  assume "ok_word w" and e: "e \<in> set (denote w)" "c \<in> set e"
  from in_cross [OF e [unfolded denote_def]] obtain a x where
    "a \<in> set w" "x \<in> set (denote_atom a)" "c \<in> set x" by auto
  with \<open>ok_word w\<close> atom show ?thesis by (auto simp: list_all_iff)
qed

text \<open>No word starts with an empty pair of braces.\<close>

lemma show_word_start: "ok_word w \<Longrightarrow> take 2 (show_word w) \<noteq> [OPEN, CLOSE]"
proof (induction w)
  case (Cons a w)
  show ?case
  proof (cases a)
    case (Lit s)
    show ?thesis
    proof (cases s)
      case Nil
      with Cons Lit show ?thesis by simp
    next
      case (Cons c cs)
      with \<open>ok_word (a # w)\<close> Lit show ?thesis by (auto simp: lit_char_def)
    qed
  next
    case (Alts ws)
    with Cons.prems obtain v v' vs where ws: "ws = v # v' # vs" and v: "ok_word v"
      by (cases ws; cases "tl ws") auto
    have "hd (show_word v @ [COMMA]) \<noteq> CLOSE"
      using v
    proof (induction v)
      case (Cons b v)
      then show ?case
      proof (cases b)
        case (Lit s)
        with Cons show ?thesis by (cases s) (auto simp: lit_char_def)
      qed simp
    qed simp
    then have "take 1 (show_word v @ COMMA # z) \<noteq> [CLOSE]" for z
      by (cases "show_word v") auto
    then have "take 1 (show_word v @ COMMA # join_with [COMMA] (map show_word (v' # vs)) @ [CLOSE] @ show_word w) \<noteq> [CLOSE]"
      by blast
    moreover have "show_word (a # w) = OPEN # show_word v @ COMMA #
        join_with [COMMA] (map show_word (v' # vs)) @ [CLOSE] @ show_word w"
      by (simp add: Alts ws show_Alts del: show_atom.simps)
    moreover have "take 2 (OPEN # t) = OPEN # take 1 t" for t :: ustr by (simp add: numeral_2_eq_2)
    ultimately show ?thesis by simp
  qed
qed simp

text \<open>
  Property C14.  On the grammar of nested comma sets the expansion is the denotation: the strings a
  word stands for, in order, without the empty one.
\<close>
theorem expand_denotes:
  assumes "ok_word w" and "closes (show_word w) < f"
  shows "expandTop R f (show_word w) = Ret (filter (\<lambda>e. e \<noteq> []) (denote w))"
proof -
  let ?s = "show_word w"
  have noesc: "BSLASH \<notin> set ?s" using show_word_chars [OF assms(1)] by auto
  have unesc: "map (unescapeBraces R) (filter P (denote w)) = filter P (denote w)" for P
    using denote_chars [OF assms(1)] by (intro map_idI unescapeBraces_free) (auto simp: lit_char_def)
  show ?thesis
  proof (cases "list_all is_lit w")
    case True
    then have "0 \<notin> set ?s" "OPEN \<notin> set ?s"
      using lits_chars [OF assms(1)] by (auto simp: lit_char_def)
    moreover from this(2) have "take 2 ?s \<noteq> [OPEN, CLOSE]"
      by (metis in_set_takeD list.set_intros(1))
    ultimately show ?thesis
      using True noesc expand_word [OF assms, of R True]
      by (simp add: expandTop_def denote_lits)
  next
    case False
    have ne: "?s \<noteq> []"
    proof (rule word_cases [OF assms(1)])
      fix ls ws rest
      assume "w = ls @ Alts ws # rest"
      then show "?s \<noteq> []" by (simp add: show_Alts del: show_atom.simps)
    qed (use False in simp)
    have "take 2 ?s \<noteq> [OPEN, CLOSE]"
      using show_word_start [OF assms(1)] by auto
    with ne False noesc unesc expand_word [OF assms, of R True] show ?thesis
      by (simp add: expandTop_def)
  qed
qed

theorem expand_denotes_witness:
  "\<forall>R. expandTop R 4 (u ''{a{b,},{c,d}}e'') = Ret [u ''abe'', u ''ae'', u ''ce'', u ''de'']"
proof -
  let ?w = "[Alts [[Lit (u ''a''), Alts [[Lit (u ''b'')], []]], [Alts [[Lit (u ''c'')], [Lit (u ''d'')]]]],
             Lit (u ''e'')]"
  have shown: "show_word ?w = u ''{a{b,},{c,d}}e''" by code_simp
  have den: "filter (\<lambda>e. e \<noteq> []) (denote ?w) = [u ''abe'', u ''ae'', u ''ce'', u ''de'']" by code_simp
  have "ok_word ?w" by code_simp
  moreover have "closes (show_word ?w) < 4" by code_simp
  ultimately have "expandTop R 4 (show_word ?w) = Ret (filter (\<lambda>e. e \<noteq> []) (denote ?w))" for R
    by (rule expand_denotes)
  then show ?thesis unfolding shown den by simp
qed

text \<open>
  The recursion of the expansion ends on every string: a depth of one more than the
  number of its closing braces is never exceeded.  (What may not end is the loop of a sequence.)
\<close>
theorem expand_terminates:
  assumes "plain_random R" and "closes str < f"
  shows "expand R f str isTop \<noteq> NoFuel"
  using assms by (rule expand_enough_fuel)

theorem expand_terminates_witness:
  "expand \<lparr>rnd_slash = [], rnd_open = [], rnd_close = u ''0.5'', rnd_comma = [], rnd_period = []\<rparr> 3
     (u ''{a},b}'') True \<noteq> NoFuel"
proof (rule expand_terminates)
  show "plain_random \<lparr>rnd_slash = [], rnd_open = [], rnd_close = u ''0.5'', rnd_comma = [], rnd_period = []\<rparr>"
    by code_simp
  show "closes (u ''{a},b}'') < 3" by code_simp
qed

end
