(* ===== verification/Js_Minimatch.thy ===== *)
theory Js_Minimatch
  imports Js_Brace
begin

text \<open>
  \<open>minimatch\<close> (module 20 of \<open>site/assets/javascripts/lunr/wordcut.js\<close>): glob patterns.

  \<open>parse\<close> translates one path portion of a pattern into the source text of a regular expression,
  character by character; \<open>matchOne\<close> matches the portions of a pattern against the portions
  of a path; \<open>make\<close> and \<open>match\<close> put negation, brace expansion and the pattern set around it.
  The regular-expression engine and the case mapping of the host are arguments, collected in
  \<open>host\<close>: which sources compile, what a compiled one matches, and \<open>toLowerCase\<close>.
\<close>

section \<open>Options, hosts and parsed portions\<close>

record options =
  nocomment :: bool
  nonegate :: bool
  nobrace :: bool
  noglobstar :: bool
  noext :: bool
  nocase :: bool
  dot_opt :: bool
  matchBase :: bool
  flipNegate :: bool
  nonull :: bool

definition default_options :: options where
  "default_options =
     \<lparr>nocomment = False, nonegate = False, nobrace = False, noglobstar = False, noext = False,
      nocase = False, dot_opt = False, matchBase = False, flipNegate = False, nonull = False\<rparr>"

record host =
  re_valid :: "ustr \<Rightarrow> bool \<Rightarrow> bool"
  re_match :: "ustr \<Rightarrow> bool \<Rightarrow> ustr \<Rightarrow> bool"
  toLowerCase :: "ustr \<Rightarrow> ustr"

text \<open>
  A portion: \<open>false\<close>, the globstar, a string to compare, a regular expression with its flag
  \<open>i\<close> and its property \<open>_glob\<close> (\<open>undefined\<close> on the one that matches nothing), or the pair that a recursive call for part of a pattern returns.
\<close>

datatype parsed = Bad | Globstar | Str ustr | Re ustr bool "ustr option" | Sub ustr bool

section \<open>Pieces of regular expressions\<close>

definition qmark :: ustr where
  "qmark = u ''[^/]''"

definition star :: ustr where
  "star = qmark @ u ''*?''"

definition reSpecials :: "nat set" where
  "reSpecials = set (u ''().*{}+?[]^$!'' @ [BSLASH])"

definition pl_open :: "nat \<Rightarrow> ustr" where
  "pl_open ty = (if ty = 33 then u ''(?:(?!(?:'' else u ''(?:'')"

definition pl_close :: "nat \<Rightarrow> ustr" where
  "pl_close ty =
     (if ty = 33 then u ''))[^/]*?)'' else if ty = 63 then u '')?''
      else if ty = 43 then u '')+'' else if ty = 42 then u '')*'' else u '')'')"

definition pattern_start :: "options \<Rightarrow> ustr \<Rightarrow> ustr" where
  "pattern_start opts pattern =
     (if take 1 pattern = [PERIOD] then []
      else if dot_opt opts
      then u ''(?!(?:^|'' @ [BSLASH, 47] @ u '')'' @ [BSLASH] @ u ''.{1,2}(?:$|'' @ [BSLASH, 47] @ u ''))''
      else u ''(?!'' @ [BSLASH] @ u ''.)'')"

section \<open>Parsing a portion\<close>

record pattern_list =
  pl_type :: nat
  pl_start :: int
  pl_reStart :: nat
  pl_reEnd :: nat

record parse_state =
  re :: ustr
  hasMagic :: bool
  escaping :: bool
  listStack :: "pattern_list list"
  negativeLists :: "pattern_list list"
  stateChar :: "nat option"
  inClass :: bool
  reClassStart :: int
  classStart :: int

definition parse_init :: "options \<Rightarrow> parse_state" where
  "parse_init opts =
     \<lparr>re = [], hasMagic = nocase opts, escaping = False, listStack = [], negativeLists = [],
      stateChar = None, inClass = False, reClassStart = -1, classStart = -1\<rparr>"

definition emit_re :: "ustr \<Rightarrow> parse_state \<Rightarrow> parse_state" where
  "emit_re w s = s\<lparr>re := re s @ w\<rparr>"

definition clearStateChar :: "parse_state \<Rightarrow> parse_state" where
  "clearStateChar s =
     (case stateChar s of
        None \<Rightarrow> s
      | Some c \<Rightarrow>
          (if c = 42 then emit_re star (s\<lparr>hasMagic := True\<rparr>)
           else if c = 63 then emit_re qmark (s\<lparr>hasMagic := True\<rparr>)
           else emit_re [BSLASH, c] s)\<lparr>stateChar := None\<rparr>)"

text \<open>
  What the recursive call returned, as the code reads it: the two parts of an array, and
  \<open>undefined\<close> for each part of the other values (the empty string, the globstar object).
\<close>

definition sub_re :: "(ustr \<times> bool) option \<Rightarrow> ustr" where
  "sub_re sp = (case sp of Some (r, m) \<Rightarrow> r | None \<Rightarrow> u ''undefined'')"

definition sub_magic :: "(ustr \<times> bool) option \<Rightarrow> bool" where
  "sub_magic sp = (case sp of Some (r, m) \<Rightarrow> m | None \<Rightarrow> False)"

text \<open>The cases of the switch.\<close>

definition on_state_char :: "options \<Rightarrow> int \<Rightarrow> nat \<Rightarrow> parse_state \<Rightarrow> parse_state" where
  "on_state_char opts i c s =
     (if inClass s then emit_re [if c = 33 \<and> i = classStart s + 1 then 94 else c] s
      else
        (let s1 = (clearStateChar s)\<lparr>stateChar := Some c\<rparr>
         in if noext opts then clearStateChar s1 else s1))"

definition on_open_paren :: "int \<Rightarrow> parse_state \<Rightarrow> parse_state" where
  "on_open_paren i s =
     (if inClass s then emit_re [40] s
      else
        (case stateChar s of
           None \<Rightarrow> emit_re [BSLASH, 40] s
         | Some ty \<Rightarrow>
             emit_re (pl_open ty)
               (s\<lparr>listStack := \<lparr>pl_type = ty, pl_start = i - 1, pl_reStart = length (re s), pl_reEnd = 0\<rparr>
                               # listStack s,
                  stateChar := None\<rparr>)))"

definition on_close_paren :: "parse_state \<Rightarrow> parse_state" where
  "on_close_paren s =
     (if inClass s \<or> listStack s = [] then emit_re [BSLASH, 41] s
      else
        (let s1 = (clearStateChar s)\<lparr>hasMagic := True\<rparr>;
             pl = hd (listStack s1);
             s2 = emit_re (pl_close (pl_type pl)) (s1\<lparr>listStack := tl (listStack s1)\<rparr>)
         in if pl_type pl = 33
            then s2\<lparr>negativeLists := negativeLists s2 @ [pl\<lparr>pl_reEnd := length (re s2)\<rparr>]\<rparr>
            else s2))"

definition on_bar :: "parse_state \<Rightarrow> parse_state" where
  "on_bar s =
     (if inClass s \<or> listStack s = [] \<or> escaping s
      then (emit_re [BSLASH, 124] s)\<lparr>escaping := False\<rparr>
      else emit_re [124] (clearStateChar s))"

definition on_open_class :: "int \<Rightarrow> parse_state \<Rightarrow> parse_state" where
  "on_open_class i s =
     (let s1 = clearStateChar s in
      if inClass s1 then emit_re [BSLASH, 91] s1
      else emit_re [91] (s1\<lparr>inClass := True, classStart := i, reClassStart := int (length (re s1))\<rparr>))"

definition on_close_class ::
    "host \<Rightarrow> (ustr \<Rightarrow> (ustr \<times> bool) option) \<Rightarrow> ustr \<Rightarrow> int \<Rightarrow> parse_state \<Rightarrow> parse_state" where
  "on_close_class H sub pattern i s =
     (if i = classStart s + 1 \<or> \<not> inClass s
      then (emit_re [BSLASH, 93] s)\<lparr>escaping := False\<rparr>
      else
        (let cs = slice (nat (classStart s + 1)) (nat i) pattern in
         if \<not> re_valid H (u ''['' @ cs @ u '']'') False
         then (let sp = sub cs
               in s\<lparr>re := take (nat (reClassStart s)) (re s) @ [BSLASH, 91] @ sub_re sp @ [BSLASH, 93],
                    hasMagic := hasMagic s \<or> sub_magic sp, inClass := False\<rparr>)
         else emit_re [93] (s\<lparr>hasMagic := True, inClass := False\<rparr>)))"

definition on_default :: "nat \<Rightarrow> parse_state \<Rightarrow> parse_state" where
  "on_default c s =
     (let s1 = clearStateChar s in
      if escaping s1 then emit_re [c] (s1\<lparr>escaping := False\<rparr>)
      else if c \<in> reSpecials \<and> \<not> (c = 94 \<and> inClass s1) then emit_re [BSLASH, c] s1
      else emit_re [c] s1)"

text \<open>One round of the loop; \<open>None\<close> is \<open>return false\<close>.\<close>

definition parse_char ::
    "host \<Rightarrow> options \<Rightarrow> (ustr \<Rightarrow> (ustr \<times> bool) option) \<Rightarrow> ustr \<Rightarrow> int \<Rightarrow> nat \<Rightarrow> parse_state \<Rightarrow>
     parse_state option" where
  "parse_char H opts sub pattern i c s =
     (if escaping s \<and> c \<in> reSpecials then Some ((emit_re [BSLASH, c] s)\<lparr>escaping := False\<rparr>)
      else if c = 47 then None
      else if c = BSLASH then Some ((clearStateChar s)\<lparr>escaping := True\<rparr>)
      else if c \<in> {63, 42, 43, 64, 33} then Some (on_state_char opts i c s)
      else if c = 40 then Some (on_open_paren i s)
      else if c = 41 then Some (on_close_paren s)
      else if c = 124 then Some (on_bar s)
      else if c = 91 then Some (on_open_class i s)
      else if c = 93 then Some (on_close_class H sub pattern i s)
      else Some (on_default c s))"

fun parse_loop ::
    "host \<Rightarrow> options \<Rightarrow> (ustr \<Rightarrow> (ustr \<times> bool) option) \<Rightarrow> ustr \<Rightarrow> int \<Rightarrow> ustr \<Rightarrow> parse_state \<Rightarrow>
     parse_state option" where
  "parse_loop H opts sub pattern i [] s = Some s"
| "parse_loop H opts sub pattern i (c # cs) s =
     (case parse_char H opts sub pattern i c s of
        None \<Rightarrow> None
      | Some s' \<Rightarrow> parse_loop H opts sub pattern (i + 1) cs s')"

definition close_class :: "(ustr \<Rightarrow> (ustr \<times> bool) option) \<Rightarrow> ustr \<Rightarrow> parse_state \<Rightarrow> parse_state" where
  "close_class sub pattern s =
     (if inClass s
      then (let sp = sub (drop (nat (classStart s + 1)) pattern)
            in s\<lparr>re := take (nat (reClassStart s)) (re s) @ [BSLASH, 91] @ sub_re sp,
                 hasMagic := hasMagic s \<or> sub_magic sp\<rparr>)
      else s)"

text \<open>
  \<open>tail.replace(/((?:\\{2}){0,64})(\\?)\|/g, ...)\<close>: of a run of backslashes before a bar the
  expression takes the last 129 at most; it doubles its pairs and makes the bar escaped.
\<close>

function escape_bars :: "ustr \<Rightarrow> ustr" where
  "escape_bars [] = []"
| "escape_bars (c # cs) =
     (if c = BSLASH then
        (let k = Suc (length (takeWhile (\<lambda>d. d = BSLASH) cs));
             rest = dropWhile (\<lambda>d. d = BSLASH) cs; m = min k 129
         in (case rest of
               [] \<Rightarrow> replicate k BSLASH
             | d # ds \<Rightarrow>
                 (if d = 124
                  then replicate (k - m) BSLASH @ replicate (4 * (m div 2) + 1) BSLASH @ 124 # escape_bars ds
                  else replicate k BSLASH @ d # escape_bars ds)))
      else if c = 124 then BSLASH # 124 # escape_bars cs
      else c # escape_bars cs)"
  by pat_completeness auto
termination
proof (relation "measure length", goal_cases)
  case (2 c cs k rest m d ds)
  then have "length (d # ds) \<le> length cs" using length_dropWhile_le [of "\<lambda>d. d = BSLASH" cs] by simp
  then show ?case by simp
next
  case (3 c cs k rest m d ds)
  then have "length (d # ds) \<le> length cs" using length_dropWhile_le [of "\<lambda>d. d = BSLASH" cs] by simp
  then show ?case by simp
qed auto

text \<open>A list left open at the end of the pattern becomes literal again.\<close>

definition reopen_list :: "pattern_list \<Rightarrow> parse_state \<Rightarrow> parse_state" where
  "reopen_list pl s =
     (let tail = escape_bars (drop (pl_reStart pl + length (pl_open (pl_type pl))) (re s));
          t = (if pl_type pl = 42 then star else if pl_type pl = 63 then qmark else [BSLASH, pl_type pl])
      in s\<lparr>hasMagic := True, re := take (pl_reStart pl) (re s) @ t @ [BSLASH, 40] @ tail\<rparr>)"

definition reopen_lists :: "parse_state \<Rightarrow> parse_state" where
  "reopen_lists s = (fold reopen_list (listStack s) s)\<lparr>listStack := []\<rparr>"

text \<open>\<open>replace(/\)[+*?]?/, '')\<close>: the first closing parenthesis goes, with its quantifier.\<close>

fun drop_close :: "ustr \<Rightarrow> ustr" where
  "drop_close [] = []"
| "drop_close (c # cs) =
     (if c = 41
      then (case cs of [] \<Rightarrow> [] | d # ds \<Rightarrow> if d \<in> {43, 42, 63} then ds else cs)
      else c # drop_close cs)"

definition extend_negative :: "bool \<Rightarrow> pattern_list \<Rightarrow> ustr \<Rightarrow> ustr" where
  "extend_negative isSub nl r =
     (let nlBefore = take (pl_reStart nl) r;
          nlFirst = slice (pl_reStart nl) (pl_reEnd nl - 8) r;
          nlLast = slice (pl_reEnd nl - 8) (pl_reEnd nl) r;
          nlAfter = drop (pl_reEnd nl) r;
          cleanAfter = (drop_close ^^ count_list nlBefore 40) nlAfter;
          dollar = (if cleanAfter = [] \<and> \<not> isSub then u ''$'' else [])
      in nlBefore @ nlFirst @ cleanAfter @ dollar @ nlLast @ nlAfter)"

text \<open>\<open>replace(/\\(.)/g, '$1')\<close>: a dot matches no line end.\<close>

fun globUnescape :: "ustr \<Rightarrow> ustr" where
  "globUnescape [] = []"
| "globUnescape [c] = [c]"
| "globUnescape (c # d # ds) =
     (if c = BSLASH \<and> d \<notin> {10, 13, 0x2028, 0x2029} then d # globUnescape ds
      else c # globUnescape (d # ds))"

text \<open>From the end of the loop to the result.\<close>

definition parse_finish :: "host \<Rightarrow> options \<Rightarrow> bool \<Rightarrow> ustr \<Rightarrow> parse_state \<Rightarrow> parsed" where
  "parse_finish H opts isSub pattern s0 =
     (let s = clearStateChar (reopen_lists s0);
          re1 = (if escaping s then re s @ [BSLASH, BSLASH] else re s);
          addPatternStart = (re1 \<noteq> [] \<and> hd re1 \<in> {PERIOD, 91, 40});
          re2 = fold (extend_negative isSub) (rev (negativeLists s)) re1;
          re3 = (if re2 \<noteq> [] \<and> hasMagic s then u ''(?=.)'' @ re2 else re2);
          re4 = (if addPatternStart then pattern_start opts pattern @ re3 else re3)
      in if isSub then Sub re4 (hasMagic s)
         else if \<not> hasMagic s then Str (globUnescape pattern)
         else if re_valid H (u ''^'' @ re4 @ u ''$'') (nocase opts)
         then Re (u ''^'' @ re4 @ u ''$'') (nocase opts) (Some pattern)
         else Re (u ''$.'') False None)"

text \<open>
  The recursion is on part of the pattern, which is shorter; the test in the argument of the
  loop says so and always succeeds.
\<close>

function parse :: "host \<Rightarrow> options \<Rightarrow> ustr \<Rightarrow> bool \<Rightarrow> parsed" where
  "parse H opts pattern isSub =
     (if \<not> noglobstar opts \<and> pattern = u ''**'' then Globstar
      else if pattern = [] then Str []
      else
        (let sub = (\<lambda>cs. if length cs < length pattern
                         then (case parse H opts cs True of Sub r m \<Rightarrow> Some (r, m) | _ \<Rightarrow> None)
                         else None)
         in (case parse_loop H opts sub pattern 0 pattern (parse_init opts) of
               None \<Rightarrow> Bad
             | Some s \<Rightarrow> parse_finish H opts isSub pattern (close_class sub pattern s))))"
  by pat_completeness auto
termination by (relation "measure (\<lambda>(H, opts, pattern, isSub). length pattern)") auto

declare parse.simps [simp del]

section \<open>Matching\<close>

definition hits :: "host \<Rightarrow> options \<Rightarrow> ustr \<Rightarrow> parsed \<Rightarrow> bool" where
  "hits H opts f p =
     (case p of
        Str s \<Rightarrow> if nocase opts then toLowerCase H f = toLowerCase H s else f = s
      | Re src flag _ \<Rightarrow> re_match H src flag f
      | _ \<Rightarrow> False)"

text \<open>The segments that a globstar never swallows.\<close>

definition dotted :: "options \<Rightarrow> ustr \<Rightarrow> bool" where
  "dotted opts f \<longleftrightarrow> f = u ''.'' \<or> f = u ''..'' \<or> (\<not> dot_opt opts \<and> take 1 f = [PERIOD])"

text \<open>
  \<open>matchOne\<close> on what is left of the path and of the pattern; \<open>swallow\<close> is the loop in which a
  globstar takes one more segment.
\<close>

function matchOne :: "host \<Rightarrow> options \<Rightarrow> bool \<Rightarrow> ustr list \<Rightarrow> parsed list \<Rightarrow> bool"
  and swallow :: "host \<Rightarrow> options \<Rightarrow> bool \<Rightarrow> ustr list \<Rightarrow> parsed list \<Rightarrow> bool"
where
  "matchOne H opts partial [] [] = True"
| "matchOne H opts partial [] (p # ps) = partial"
| "matchOne H opts partial (f # fs) [] = (fs = [] \<and> f = [])"
| "matchOne H opts partial (f # fs) (p # ps) =
     (if p = Bad then False
      else if p = Globstar
      then (if ps = [] then list_all (\<lambda>f. \<not> dotted opts f) (f # fs)
            else swallow H opts partial (f # fs) ps)
      else if hits H opts f p then matchOne H opts partial fs ps
      else False)"
| "swallow H opts partial [] ps = partial"
| "swallow H opts partial (f # fs) ps =
     (if matchOne H opts partial (f # fs) ps then True
      else if dotted opts f then False
      else swallow H opts partial fs ps)"
  by pat_completeness auto
termination
  by (relation "inv_image (less_than <*lex*> less_than <*lex*> less_than)
      (\<lambda>x. case x of Inl (H, opts, partial, fs, ps) \<Rightarrow> (length ps, length fs, 0)
         | Inr (H, opts, partial, fs, ps) \<Rightarrow> (length ps, length fs, Suc 0))") auto

section \<open>The object\<close>

record minimatch =
  mm_options :: options
  mm_pattern :: ustr
  mm_globSet :: "ustr list"
  mm_set :: "parsed list list"
  mm_negate :: bool
  mm_comment :: bool
  mm_empty :: bool

definition js_space :: "nat set" where
  "js_space = {9, 10, 11, 12, 13, 32, 0xA0, 0x1680, 0x2028, 0x2029, 0x202F, 0x205F, 0x3000, 0xFEFF} \<union> {0x2000..0x200A}"

definition js_trim :: "ustr \<Rightarrow> ustr" where
  "js_trim s = (let f = dropWhile (\<lambda>c. c \<in> js_space) in rev (f (rev (f s))))"

text \<open>\<open>split(/\/+/)\<close>.\<close>

fun split_slashes :: "ustr \<Rightarrow> ustr list" where
  "split_slashes [] = [[]]"
| "split_slashes (c # cs) =
     (if c = 47 then [] # split_slashes (dropWhile (\<lambda>c. c = 47) cs)
      else (case split_slashes cs of [] \<Rightarrow> [[c]] | p # ps \<Rightarrow> (c # p) # ps))"

definition parseNegate :: "minimatch \<Rightarrow> minimatch" where
  "parseNegate m =
     (if nonegate (mm_options m) then m
      else
        (let n = length (takeWhile (\<lambda>c. c = 33) (mm_pattern m))
         in m\<lparr>mm_pattern := drop n (mm_pattern m), mm_negate := odd n\<rparr>))"

text \<open>\<open>match(/\{.*\}/)\<close>: an opening brace and later a closing one on the same line.\<close>

fun brace_pair :: "bool \<Rightarrow> ustr \<Rightarrow> bool" where
  "brace_pair seen [] = False"
| "brace_pair seen (c # cs) =
     (if c = OPEN then brace_pair True cs
      else if c \<in> {10, 13, 0x2028, 0x2029} then brace_pair False cs
      else if c = CLOSE \<and> seen then True
      else brace_pair seen cs)"

definition braceExpand :: "randoms \<Rightarrow> nat \<Rightarrow> options \<Rightarrow> ustr \<Rightarrow> ustr list ran" where
  "braceExpand R fuel opts pattern =
     (if nobrace opts \<or> \<not> brace_pair False pattern then Ret [pattern] else expandTop R fuel pattern)"

text \<open>
  \<open>make\<close>, which the constructor calls on the trimmed pattern.  A portion of more than 65536
  characters makes \<open>parse\<close> throw: the result \<open>Ret None\<close>.
\<close>

definition make :: "host \<Rightarrow> randoms \<Rightarrow> nat \<Rightarrow> minimatch \<Rightarrow> minimatch option ran" where
  "make H R fuel m =
     (if \<not> nocomment (mm_options m) \<and> take 1 (mm_pattern m) = [35] then Ret (Some (m\<lparr>mm_comment := True\<rparr>))
      else if mm_pattern m = [] then Ret (Some (m\<lparr>mm_empty := True\<rparr>))
      else
        (let m1 = parseNegate m in
         map_ran (\<lambda>globSet.
           (let globParts = map split_slashes globSet in
            if list_ex (list_ex (\<lambda>p. length p > 65536)) globParts then None
            else Some (m1\<lparr>mm_globSet := globSet, mm_set := filter (\<lambda>s. Bad \<notin> set s)
                   (map (map (\<lambda>p. parse H (mm_options m) p False)) globParts)\<rparr>)))
           (braceExpand R fuel (mm_options m) (mm_pattern m1))))"

definition Minimatch :: "host \<Rightarrow> randoms \<Rightarrow> nat \<Rightarrow> ustr \<Rightarrow> options \<Rightarrow> minimatch option ran" where
  "Minimatch H R fuel pattern opts =
     make H R fuel \<lparr>mm_options = opts, mm_pattern = js_trim pattern, mm_globSet = [], mm_set = [],
                    mm_negate = False,
                    mm_comment = False, mm_empty = False\<rparr>"

text \<open>The last non-empty segment, or the first one when all are empty.\<close>

definition base_segment :: "ustr list \<Rightarrow> ustr" where
  "base_segment fs = (case filter (\<lambda>f. f \<noteq> []) fs of [] \<Rightarrow> hd fs | xs \<Rightarrow> last xs)"

definition mm_match :: "host \<Rightarrow> minimatch \<Rightarrow> ustr \<Rightarrow> bool \<Rightarrow> bool" where
  "mm_match H m f partial =
     (if mm_comment m then False
      else if mm_empty m then f = []
      else if f = [47] \<and> partial then True
      else
        (let opts = mm_options m; fs = split_slashes f; filename = base_segment fs;
             hit = list_ex (\<lambda>pattern.
               matchOne H opts partial
                 (if matchBase opts \<and> length pattern = 1 then [filename] else fs) pattern) (mm_set m)
         in if hit then (if flipNegate opts then True else \<not> mm_negate m)
            else (if flipNegate opts then False else mm_negate m)))"

definition minimatch_fun :: "host \<Rightarrow> randoms \<Rightarrow> nat \<Rightarrow> ustr \<Rightarrow> ustr \<Rightarrow> options \<Rightarrow> bool option ran" where
  "minimatch_fun H R fuel p pattern opts =
     (if \<not> nocomment opts \<and> take 1 pattern = [35] then Ret (Some False)
      else if js_trim pattern = [] then Ret (Some (p = []))
      else map_ran (map_option (\<lambda>m. mm_match H m p False)) (Minimatch H R fuel pattern opts))"

text \<open>\<open>minimatch.match\<close> filters a list; \<open>nonull\<close> returns the pattern when nothing is left.\<close>

definition minimatch_match :: "host \<Rightarrow> randoms \<Rightarrow> nat \<Rightarrow> ustr list \<Rightarrow> ustr \<Rightarrow> options \<Rightarrow> ustr list option ran" where
  "minimatch_match H R fuel list pattern opts =
     map_ran (map_option (\<lambda>m.
       (let list' = filter (\<lambda>f. mm_match H m f False) list
        in if nonull opts \<and> list' = [] then list' @ [pattern] else list')))
       (Minimatch H R fuel pattern opts)"

section \<open>Globs\<close>

text \<open>
  What a pattern means: a portion takes one segment; a globstar takes visible segments, all of them at the end of the pattern and otherwise not the last; a pattern may leave
  one empty last segment, that of a trailing slash.
\<close>

definition visible :: "options \<Rightarrow> ustr \<Rightarrow> bool" where
  "visible opts f \<longleftrightarrow> f \<notin> {u ''.'', u ''..''} \<and> (dot_opt opts \<or> \<not> prefix [46] f)"

lemma visible_iff [simp]: "visible opts f \<longleftrightarrow> \<not> dotted opts f"
  by (cases f) (auto simp: visible_def dotted_def)

inductive glob :: "host \<Rightarrow> options \<Rightarrow> ustr list \<Rightarrow> parsed list \<Rightarrow> bool" for H opts where
  Done: "glob H opts [] []"
| Slash: "glob H opts [[]] []"
| Segment: "\<lbrakk>p \<noteq> Globstar; hits H opts f p; glob H opts fs ps\<rbrakk> \<Longrightarrow> glob H opts (f # fs) (p # ps)"
| Rest: "\<lbrakk>fs \<noteq> []; \<forall>f \<in> set fs. visible opts f\<rbrakk> \<Longrightarrow> glob H opts fs [Globstar]"
| Middle: "\<lbrakk>ps \<noteq> []; \<forall>f \<in> set ds. visible opts f; fs \<noteq> []; glob H opts fs ps\<rbrakk> \<Longrightarrow>
    glob H opts (ds @ fs) (Globstar # ps)"

inductive_cases glob_NilE: "glob H opts [] (p # ps)"
inductive_cases glob_endE: "glob H opts (f # fs) []"
inductive_cases glob_ConsE: "glob H opts (f # fs) (p # ps)"

lemma hits_not_bad: "hits H opts f p \<Longrightarrow> p \<noteq> Bad \<and> p \<noteq> Globstar"
  by (auto simp: hits_def)

lemma matchOne_sound:
  "matchOne H opts partial fs ps \<Longrightarrow> \<not> partial \<Longrightarrow> glob H opts fs ps"
  "swallow H opts partial fs ps \<Longrightarrow> \<not> partial \<Longrightarrow> ps \<noteq> [] \<Longrightarrow>
     \<exists>ds es. fs = ds @ es \<and> es \<noteq> [] \<and> (\<forall>f \<in> set ds. \<not> dotted opts f) \<and> glob H opts es ps"
proof (induction H opts partial fs ps and H opts partial fs ps rule: matchOne_swallow.induct)
  case (4 H opts partial f fs p ps)
  show ?case
  proof (cases "p = Globstar")
    case True
    show ?thesis
    proof (cases "ps = []")
      case True
      with 4 \<open>p = Globstar\<close> glob.Rest [of "f # fs" opts H] show ?thesis by (auto simp: list_all_iff)
    next
      case False
      with 4 True obtain ds es where "f # fs = ds @ es" "es \<noteq> []" "\<forall>f \<in> set ds. \<not> dotted opts f"
          "glob H opts es ps" by auto
      with False True glob.Middle [of ps ds opts es H] show ?thesis by simp
    qed
  next
    case False
    with 4 show ?thesis by (auto split: if_splits intro: glob.Segment)
  qed
next
  case (6 H opts partial f fs ps)
  show ?case
  proof (cases "matchOne H opts partial (f # fs) ps")
    case True
    with 6 show ?thesis by (intro exI [of _ "[]"] exI [of _ "f # fs"]) auto
  next
    case False
    with 6 obtain ds es where "fs = ds @ es" "es \<noteq> []" "\<forall>f \<in> set ds. \<not> dotted opts f"
        "glob H opts es ps" "\<not> dotted opts f" by (auto split: if_splits)
    then show ?thesis by (intro exI [of _ "f # ds"] exI [of _ es]) auto
  qed
qed (auto intro: glob.intros)

lemma swallow_complete:
  assumes "\<forall>f \<in> set ds. \<not> dotted opts f" and "es \<noteq> []" and "matchOne H opts partial es ps"
  shows "swallow H opts partial (ds @ es) ps"
  using assms by (induction ds) (auto simp: neq_Nil_conv)

lemma matchOne_complete: "glob H opts fs ps \<Longrightarrow> matchOne H opts partial fs ps"
proof (induction rule: glob.induct)
  case (Rest fs)
  then show ?case by (cases fs) (auto simp: list_all_iff)
next
  case (Middle ps ds fs)
  then have "swallow H opts partial (ds @ fs) ps" by (intro swallow_complete) auto
  with Middle show ?case by (cases "ds @ fs") auto
qed (auto dest: hits_not_bad)

section \<open>Partial matches\<close>

lemma matchOne_prefix:
  "glob H opts fs ps \<Longrightarrow> fs = ds @ es \<Longrightarrow> ds \<noteq> [] \<Longrightarrow> matchOne H opts True ds ps"
proof (induction arbitrary: ds rule: glob.induct)
  case Slash
  then show ?case by (cases ds) auto
next
  case (Segment p f fs ps)
  then obtain ds' where ds: "ds = f # ds'" "fs = ds' @ es" by (cases ds) auto
  have "matchOne H opts True ds' ps"
  proof (cases "ds' = []")
    case True
    then show ?thesis by (cases ps) auto
  next
    case False
    with Segment.IH [OF ds(2)] show ?thesis by simp
  qed
  with Segment ds show ?case by (auto dest: hits_not_bad)
next
  case (Rest fs)
  then show ?case by (cases ds) (auto simp: list_all_iff)
next
  case (Middle ps gs fs)
  have ds: "\<forall>f \<in> set gs. \<not> dotted opts f" using Middle.hyps(2) by simp
  from Middle.prems(1) obtain us where us: "gs = ds @ us \<and> us @ fs = es \<or> gs @ us = ds \<and> fs = us @ es"
    by (auto simp: append_eq_append_conv2)
  have "swallow H opts True ds ps"
  proof (cases "\<forall>f \<in> set ds. \<not> dotted opts f")
    case True
    have "swallow H opts True ds ps" if "\<forall>f \<in> set ds. \<not> dotted opts f" for ds
      using that by (induction ds) auto
    with True show ?thesis by blast
  next
    case False
    with us ds have u2: "ds = gs @ us" "fs = us @ es" "us \<noteq> []" by auto
    with Middle.IH [OF u2(2,3)] ds show ?thesis by (auto intro: swallow_complete)
  qed
  with Middle show ?case by (cases ds) auto
qed auto

section \<open>Simple portions\<close>

text \<open>
  Characters without a role in classes, lists and escapes, and what \<open>parse\<close> makes of each.
\<close>

definition simple_char :: "nat \<Rightarrow> bool" where
  "simple_char c \<longleftrightarrow> c \<notin> {47, BSLASH, 43, 64, 33, 40, 41, 124, 91, 93}"

definition wildcard :: "nat \<Rightarrow> bool" where
  "wildcard c \<longleftrightarrow> c = 42 \<or> c = 63"

definition translate_char :: "nat \<Rightarrow> ustr" where
  "translate_char c =
     (if c = 42 then star else if c = 63 then qmark else if c \<in> reSpecials then [BSLASH, c] else [c])"

definition plain_state :: "parse_state \<Rightarrow> bool" where
  "plain_state s \<longleftrightarrow> \<not> escaping s \<and> \<not> inClass s \<and> listStack s = [] \<and> negativeLists s = [] \<and>
     (\<forall>c. stateChar s = Some c \<longrightarrow> wildcard c)"

definition waiting :: "nat option \<Rightarrow> ustr" where
  "waiting sc = (case sc of None \<Rightarrow> [] | Some c \<Rightarrow> translate_char c)"

lemma clear_plain:
  assumes "\<forall>c. stateChar s = Some c \<longrightarrow> wildcard c"
  shows "re (clearStateChar s) = re s @ waiting (stateChar s)"
    and "hasMagic (clearStateChar s) = (hasMagic s \<or> stateChar s \<noteq> None)"
    and "stateChar (clearStateChar s) = None" and "escaping (clearStateChar s) = escaping s"
    and "inClass (clearStateChar s) = inClass s" and "listStack (clearStateChar s) = listStack s"
    and "negativeLists (clearStateChar s) = negativeLists s"
  using assms
  by (auto simp: clearStateChar_def waiting_def wildcard_def translate_char_def emit_re_def
      split: option.splits)

lemma parse_char_simple:
  assumes s: "plain_state s" and c: "simple_char c"
  shows "\<exists>s'. parse_char H opts sub pattern i c s = Some s' \<and> plain_state s' \<and>
     re (clearStateChar s') = re (clearStateChar s) @ translate_char c \<and>
     hasMagic (clearStateChar s') = (hasMagic (clearStateChar s) \<or> wildcard c)"
proof -
  let ?s = "clearStateChar s"
  have st: "\<forall>c. stateChar s = Some c \<longrightarrow> wildcard c" using s by (simp add: plain_state_def)
  note clear = clear_plain [OF st]
  show ?thesis
  proof (cases "wildcard c")
    case True
    let ?t = "?s\<lparr>stateChar := Some c\<rparr>"
    have t: "\<forall>d. stateChar ?t = Some d \<longrightarrow> wildcard d" using True by simp
    have "parse_char H opts sub pattern i c s = Some (if noext opts then clearStateChar ?t else ?t)"
      using True s by (auto simp: parse_char_def on_state_char_def plain_state_def wildcard_def Let_def)
    moreover have "plain_state (if noext opts then clearStateChar ?t else ?t)"
      using clear_plain [OF t] clear s t by (simp add: plain_state_def)
    moreover have "clearStateChar (clearStateChar u) = clearStateChar u" if "stateChar (clearStateChar u) = None" for u
      using that by (simp add: clearStateChar_def)
    ultimately show ?thesis
      using clear_plain [OF t] clear True by (auto simp: waiting_def)
  next
    case False
    let ?t = "if c \<in> reSpecials then emit_re [BSLASH, c] ?s else emit_re [c] ?s"
    have "parse_char H opts sub pattern i c s = Some ?t"
      using False s c clear
      by (auto simp: parse_char_def on_default_def plain_state_def wildcard_def simple_char_def Let_def)
    moreover have "stateChar ?t = None" "re ?t = re ?s @ translate_char c" "hasMagic ?t = hasMagic ?s"
      using False clear by (auto simp: emit_re_def translate_char_def wildcard_def)
    moreover from this(1) have "clearStateChar ?t = ?t" by (simp add: clearStateChar_def)
    moreover have "plain_state ?t" using clear s by (auto simp: plain_state_def emit_re_def)
    ultimately show ?thesis using False by auto
  qed
qed

lemma parse_loop_simple:
  assumes "plain_state s" and "list_all simple_char cs"
  shows "\<exists>s'. parse_loop H opts sub pattern i cs s = Some s' \<and> plain_state s' \<and>
     re (clearStateChar s') = re (clearStateChar s) @ concat (map translate_char cs) \<and>
     hasMagic (clearStateChar s') = (hasMagic (clearStateChar s) \<or> list_ex wildcard cs)"
  using assms
proof (induction cs arbitrary: s i)
  case (Cons c cs)
  from parse_char_simple [OF Cons.prems(1), of c H opts sub pattern i] Cons.prems(2) obtain s1 where
    s1: "parse_char H opts sub pattern i c s = Some s1" "plain_state s1"
      "re (clearStateChar s1) = re (clearStateChar s) @ translate_char c"
      "hasMagic (clearStateChar s1) = (hasMagic (clearStateChar s) \<or> wildcard c)" by auto
  from Cons.IH [OF s1(2), of "i + 1"] Cons.prems(2) s1 show ?case by auto
qed simp

lemma globUnescape_free: "BSLASH \<notin> set s \<Longrightarrow> globUnescape s = s"
  by (induction s rule: globUnescape.induct) auto

lemma plain_init [simp]: "plain_state (parse_init opts)"
  by (simp add: plain_state_def parse_init_def)

lemma plain_finish:
  assumes "plain_state s"
  shows "clearStateChar (reopen_lists s) = clearStateChar s"
    and "negativeLists (clearStateChar s) = []" and "\<not> escaping (clearStateChar s)"
  using assms
  by (auto simp: plain_state_def reopen_lists_def clearStateChar_def emit_re_def split: option.splits)

lemma translate_hd:
  "simple_char c \<Longrightarrow> hd (translate_char c @ w) \<in> {PERIOD, 91, 40} \<longleftrightarrow> wildcard c"
  by (auto simp: translate_char_def simple_char_def wildcard_def star_def qmark_def reSpecials_def u_def)

section \<open>Leading exclamation marks\<close>

lemma js_trim_bang:
  assumes "rest \<noteq> []" and "hd rest \<notin> js_space"
  shows "\<exists>t. (\<forall>k. js_trim (replicate k 33 @ rest) = replicate k 33 @ t) \<and> t \<noteq> [] \<and> hd t = hd rest"
proof -
  obtain c cs where rest: "rest = c # cs" using assms(1) by (cases rest) auto
  let ?P = "\<lambda>c. c \<in> js_space"
  let ?t = "rev (dropWhile ?P (rev rest))"
  have c: "\<not> ?P c" using assms(2) rest by simp
  have "dropWhile ?P (rev cs @ [c]) = dropWhile ?P (rev cs) @ [c]"
    using c by (induction "rev cs" arbitrary: cs) (auto simp: dropWhile_append)
  then have t: "?t = c # rev (dropWhile ?P (rev cs))" by (simp add: rest)
  have "js_trim (replicate k 33 @ rest) = replicate k 33 @ ?t" for k
  proof -
    have "dropWhile ?P (replicate k 33 @ rest) = replicate k 33 @ rest"
      using c by (cases k) (auto simp: rest js_space_def)
    moreover have "dropWhile ?P (rev rest @ replicate k 33) = dropWhile ?P (rev rest) @ replicate k 33"
      using c rest by (intro dropWhile_append1 [of c]) auto
    ultimately show ?thesis by (simp add: js_trim_def Let_def)
  qed
  with t rest show ?thesis by auto
qed

lemma make_negated:
  assumes "t \<noteq> []" and "hd t \<noteq> 33" and "hd t \<noteq> 35" and "\<not> nonegate opts"
  shows "make H R fuel \<lparr>mm_options = opts, mm_pattern = replicate n 33 @ t, mm_globSet = [], mm_set = [],
                    mm_negate = False,
      mm_comment = False, mm_empty = False\<rparr>
    = map_ran (\<lambda>globSet.
        (let globParts = map split_slashes globSet in
         if list_ex (list_ex (\<lambda>p. length p > 65536)) globParts then None
         else Some \<lparr>mm_options = opts, mm_pattern = t, mm_globSet = globSet,
                mm_set = filter (\<lambda>s. Bad \<notin> set s) (map (map (\<lambda>p. parse H opts p False)) globParts),
                mm_negate = odd n, mm_comment = False, mm_empty = False\<rparr>))
       (braceExpand R fuel opts t)"
proof -
  have "take 1 (replicate n 33 @ t) \<noteq> [35]"
    using assms(1,3) by (cases n; cases t) auto
  moreover have "takeWhile (\<lambda>c. c = 33) (replicate n 33 @ t) = replicate n 33"
    using assms(1,2) by (cases t) (auto simp: takeWhile_append)
  ultimately show ?thesis
    using assms by (simp add: make_def parseNegate_def Let_def cong: if_cong)
qed

section \<open>Properties\<close>

text \<open>
  Property C15.  Matching a whole path decides what the pattern means: \<open>matchOne\<close> succeeds
  exactly on the paths of the declarative semantics of globs, globstars included.
\<close>
theorem matchOne_is_glob: "matchOne H opts False fs ps \<longleftrightarrow> glob H opts fs ps"
  using matchOne_sound(1) matchOne_complete by blast

text \<open>
  Property C27.  The partial match never prunes too early: if a path matches a pattern, every
  non-empty initial part of the path, such as a directory on the way to it, matches partially.
\<close>
theorem partial_match_complete:
  assumes "matchOne H opts False (ds @ es) ps" and "ds \<noteq> []"
  shows "matchOne H opts True ds ps"
  using matchOne_sound(1) [OF assms(1)] matchOne_prefix assms(2) by blast

definition no_randoms :: randoms where
  "no_randoms = \<lparr>rnd_slash = [], rnd_open = [], rnd_close = [], rnd_comma = [], rnd_period = []\<rparr>"

definition literal_host :: host where
  "literal_host = \<lparr>re_valid = (\<lambda>_ _. True), re_match = (\<lambda>_ _ _. True), toLowerCase = (\<lambda>s. s)\<rparr>"

theorem partial_match_complete_witness:
  "matchOne literal_host default_options True [u ''a'', u ''x''] [Str (u ''a''), Globstar, Str (u ''b'')]"
proof -
  have "matchOne literal_host default_options False ([u ''a'', u ''x''] @ [u ''y'', u ''b''])
      [Str (u ''a''), Globstar, Str (u ''b'')]"
    by code_simp
  then show ?thesis by (rule partial_match_complete) simp
qed

text \<open>
  A portion without classes, lists and escapes is translated character by
  character: literal when it has no wildcard and case matters, and otherwise to an anchored
  expression that matches no empty name and, before a leading wildcard, no leading dot.
\<close>
theorem parse_simple:
  assumes "list_all simple_char p" and "p \<noteq> []" and "p \<noteq> u ''**''"
  shows "parse H opts p False =
    (if \<not> nocase opts \<and> \<not> list_ex wildcard p then Str p
     else
       (let src = u ''^'' @ (if wildcard (hd p) then pattern_start opts p else []) @ u ''(?=.)'' @
                  concat (map translate_char p) @ u ''$''
        in if re_valid H src (nocase opts) then Re src (nocase opts) (Some p) else Re (u ''$.'') False None))"
proof -
  define sub where "sub = (\<lambda>cs. if length cs < length p
      then (case parse H opts cs True of Sub r m \<Rightarrow> Some (r, m) | _ \<Rightarrow> None) else None)"
  from parse_loop_simple [OF plain_init assms(1), of H opts sub p 0 opts] obtain s where
    s: "parse_loop H opts sub p 0 p (parse_init opts) = Some s" "plain_state s"
      "re (clearStateChar s) = concat (map translate_char p)"
      "hasMagic (clearStateChar s) = (nocase opts \<or> list_ex wildcard p)"
    by (auto simp: parse_init_def clearStateChar_def)
  have closed: "close_class sub p s = s" using s(2) by (simp add: close_class_def plain_state_def)
  obtain c cs where p: "p = c # cs" using assms(2) by (cases p) auto
  have ne: "concat (map translate_char p) \<noteq> []"
    by (simp add: p translate_char_def star_def qmark_def)
  have hd: "hd (concat (map translate_char p)) \<in> {PERIOD, 91, 40} \<longleftrightarrow> wildcard (hd p)"
    using translate_hd [of c "concat (map translate_char cs)"] assms(1) by (simp add: p)
  have "BSLASH \<notin> set p" using assms(1) by (auto simp: list_all_iff simple_char_def)
  then have unesc: "globUnescape p = p" by (rule globUnescape_free)
  have "parse H opts p False = parse_finish H opts False p s"
    using assms(2,3) s(1) closed
    by (subst parse.simps) (simp add: Let_def flip: sub_def)
  then show ?thesis
    unfolding parse_finish_def Let_def plain_finish [OF s(2)] s(3,4)
    using plain_finish(3) [OF s(2)] ne hd unesc by (auto simp: Let_def)
qed

theorem parse_simple_witness:
  "parse literal_host default_options (u ''*.js'') False
     = Re (u ''^(?!'' @ [BSLASH] @ u ''.)(?=.)[^/]*?'' @ [BSLASH] @ u ''.js$'') False
         (Some (u ''*.js''))"
proof -
  have "list_all simple_char (u ''*.js'')" "u ''*.js'' \<noteq> []" "u ''*.js'' \<noteq> u ''**''" by code_simp+
  from parse_simple [OF this, of literal_host default_options] show ?thesis
    by (simp add: literal_host_def default_options_def u_def wildcard_def pattern_start_def
        translate_char_def star_def qmark_def reSpecials_def)
qed

text \<open>
  A class left open at the very end of a pattern goes wrong: the recursive call for
  the empty rest returns a string, not an array, and the word \<open>undefined\<close> ends up in the
  expression.
\<close>
theorem open_class_undefined:
  "parse H default_options (u ''a*['') False =
     (let src = u ''^(?=.)a[^/]*?'' @ [BSLASH] @ u ''[undefined$''
      in if re_valid H src False then Re src False (Some (u ''a*['')) else Re (u ''$.'') False None)"
proof -
  have empty: "parse H default_options [] True = Str []"
    by (subst parse.simps) (simp add: default_options_def)
  show ?thesis
    by (subst parse.simps)
      (simp add: u_def default_options_def [unfolded u_def] Let_def parse_char_def parse_init_def
        on_default_def on_state_char_def on_open_class_def close_class_def parse_finish_def
        clearStateChar_def reopen_lists_def emit_re_def reSpecials_def star_def qmark_def sub_re_def
        sub_magic_def parse.simps [of _ _ "[]"])
qed

text \<open>
  Each leading exclamation mark negates: a pattern with \<open>n\<close> of them before the
  rest matches what the rest matches when \<open>n\<close> is even, and its complement when \<open>n\<close> is odd.
\<close>
theorem negation_flips:
  assumes "rest \<noteq> []" and "hd rest \<notin> {33, 35} \<union> js_space" and "\<not> nonegate opts" and "\<not> flipNegate opts"
  shows "map_ran (map_option (\<lambda>m. mm_match H m f False)) (Minimatch H R fuel (replicate n 33 @ rest) opts)
    = map_ran (map_option (\<lambda>m. mm_match H m f False \<noteq> odd n)) (Minimatch H R fuel rest opts)"
proof -
  obtain t where t: "\<And>k. js_trim (replicate k 33 @ rest) = replicate k 33 @ t" "t \<noteq> []" "hd t = hd rest"
    using js_trim_bang [OF assms(1)] assms(2) by blast
  have hd: "hd t \<noteq> 33" "hd t \<noteq> 35" using t(3) assms(2) by auto
  note made = make_negated [OF t(2) hd assms(3)]

  define F where "F negate globSet =
      (let globParts = map split_slashes globSet in
       if list_ex (list_ex (\<lambda>p. length p > 65536)) globParts then None
       else Some \<lparr>mm_options = opts, mm_pattern = t, mm_globSet = globSet,
              mm_set = filter (\<lambda>s. Bad \<notin> set s) (map (map (\<lambda>p. parse H opts p False)) globParts),
              mm_negate = negate, mm_comment = False, mm_empty = False\<rparr>)" for negate globSet
  have F: "map_option (\<lambda>m. mm_match H m f False) (F (odd n) gs)
      = map_option (\<lambda>m. mm_match H m f False \<noteq> odd n) (F False gs)" for gs
    using assms(4) by (auto simp: F_def mm_match_def Let_def)
  have "Minimatch H R fuel (replicate k 33 @ rest) opts = map_ran (F (odd k)) (braceExpand R fuel opts t)" for k
    unfolding Minimatch_def t(1) made F_def ..
  from this [of n] this [of 0] show ?thesis
    by (simp add: ran.map_comp comp_def F)
qed

theorem negation_flips_witness:
  "map_ran (map_option (\<lambda>m. mm_match literal_host m (u ''b'') False))
     (Minimatch literal_host no_randoms 1 (replicate 3 33 @ u ''b'') default_options)
   = map_ran (map_option (\<lambda>m. mm_match literal_host m (u ''b'') False \<noteq> odd (3 :: nat)))
     (Minimatch literal_host no_randoms 1 (u ''b'') default_options)"
  by (rule negation_flips) (simp_all add: u_def js_space_def default_options_def)

end
