(* ===== verification/Js_Tinyseg.thy ===== *)
theory Js_Tinyseg
  imports Js_Tinyseg_Data
begin

text \<open>
  TinySegmenter (\<open>site/assets/javascripts/lunr/tinyseg.js\<close>): the Japanese word segmenter.

  The text, padded by three border markers on each side, is read through a window of six items.
  For every item after the first a linear score over the items, their character classes and the
  last three decisions says whether a new segment starts there.
\<close>

section \<open>Character classes\<close>

text \<open>The patterns in the order in which \<open>ctype_\<close> tries them.\<close>

definition is_M :: "nat \<Rightarrow> bool" where
  "is_M c \<longleftrightarrow> c \<in> {0x4E00, 0x4E8C, 0x4E09, 0x56DB, 0x4E94, 0x516D, 0x4E03, 0x516B, 0x4E5D, 0x5341,
                   0x767E, 0x5343, 0x4E07, 0x5104, 0x5146}"

definition is_H :: "nat \<Rightarrow> bool" where
  "is_H c \<longleftrightarrow> (0x4E00 \<le> c \<and> c \<le> 0x9FA0) \<or> c \<in> {0x3005, 0x3006, 0x30F5, 0x30F6}"

definition is_I :: "nat \<Rightarrow> bool" where
  "is_I c \<longleftrightarrow> 0x3041 \<le> c \<and> c \<le> 0x3093"

definition is_K :: "nat \<Rightarrow> bool" where
  "is_K c \<longleftrightarrow> (0x30A1 \<le> c \<and> c \<le> 0x30F4) \<or> (0xFF71 \<le> c \<and> c \<le> 0xFF9D) \<or> c \<in> {0x30FC, 0xFF9E, 0xFF70}"

definition is_A :: "nat \<Rightarrow> bool" where
  "is_A c \<longleftrightarrow> (97 \<le> c \<and> c \<le> 122) \<or> (65 \<le> c \<and> c \<le> 90) \<or> (0xFF41 \<le> c \<and> c \<le> 0xFF5A) \<or>
     (0xFF21 \<le> c \<and> c \<le> 0xFF3A)"

definition is_N :: "nat \<Rightarrow> bool" where
  "is_N c \<longleftrightarrow> is_dec c \<or> (0xFF10 \<le> c \<and> c \<le> 0xFF19)"

definition ctype_of :: "nat \<Rightarrow> ustr" where
  "ctype_of c =
     (if is_M c then u ''M'' else if is_H c then u ''H'' else if is_I c then u ''I''
      else if is_K c then u ''K'' else if is_A c then u ''A'' else if is_N c then u ''N''
      else u ''O'')"

section \<open>The score\<close>

text \<open>\<open>ts_(table[key])\<close>: a missing entry counts 0.\<close>

definition ts :: "score_table \<Rightarrow> ustr \<Rightarrow> int" where
  "ts t k = (case map_of t k of Some v \<Rightarrow> v | None \<Rightarrow> 0)"

definition score_chars :: "ustr \<Rightarrow> ustr \<Rightarrow> ustr \<Rightarrow> ustr \<Rightarrow> ustr \<Rightarrow> ustr \<Rightarrow> int" where
  "score_chars w1 w2 w3 w4 w5 w6 =
     ts UW1 w1 + ts UW2 w2 + ts UW3 w3 + ts UW4 w4 + ts UW5 w5 + ts UW6 w6 +
     ts BW1 (w2 @ w3) + ts BW2 (w3 @ w4) + ts BW3 (w4 @ w5) +
     ts TW1 (w1 @ w2 @ w3) + ts TW2 (w2 @ w3 @ w4) + ts TW3 (w3 @ w4 @ w5) + ts TW4 (w4 @ w5 @ w6)"

definition score_types :: "ustr \<Rightarrow> ustr \<Rightarrow> ustr \<Rightarrow> ustr \<Rightarrow> ustr \<Rightarrow> ustr \<Rightarrow> int" where
  "score_types c1 c2 c3 c4 c5 c6 =
     ts UC1 c1 + ts UC2 c2 + ts UC3 c3 + ts UC4 c4 + ts UC5 c5 + ts UC6 c6 +
     ts BC1 (c2 @ c3) + ts BC2 (c3 @ c4) + ts BC3 (c4 @ c5) +
     ts TC1 (c1 @ c2 @ c3) + ts TC2 (c2 @ c3 @ c4) + ts TC3 (c3 @ c4 @ c5) + ts TC4 (c4 @ c5 @ c6)"

definition score_history :: "ustr \<Rightarrow> ustr \<Rightarrow> ustr \<Rightarrow> ustr \<Rightarrow> ustr \<Rightarrow> ustr \<Rightarrow> ustr \<Rightarrow> int" where
  "score_history p1 p2 p3 c1 c2 c3 c4 =
     ts UP1 p1 + ts UP2 p2 + ts UP3 p3 + ts BP1 (p1 @ p2) + ts BP2 (p2 @ p3) +
     ts UQ1 (p1 @ c1) + ts UQ2 (p2 @ c2) + ts UQ3 (p3 @ c3) +
     ts BQ1 (p2 @ c2 @ c3) + ts BQ2 (p2 @ c3 @ c4) + ts BQ3 (p3 @ c2 @ c3) + ts BQ4 (p3 @ c3 @ c4) +
     ts TQ1 (p2 @ c1 @ c2 @ c3) + ts TQ2 (p2 @ c2 @ c3 @ c4) +
     ts TQ3 (p3 @ c1 @ c2 @ c3) + ts TQ4 (p3 @ c2 @ c3 @ c4)"

definition score_at :: "ustr list \<Rightarrow> ustr list \<Rightarrow> ustr \<Rightarrow> ustr \<Rightarrow> ustr \<Rightarrow> nat \<Rightarrow> int" where
  "score_at seg ctype p1 p2 p3 i =
     BIAS
     + score_chars (seg ! (i - 3)) (seg ! (i - 2)) (seg ! (i - 1)) (seg ! i) (seg ! (i + 1)) (seg ! (i + 2))
     + score_types (ctype ! (i - 3)) (ctype ! (i - 2)) (ctype ! (i - 1)) (ctype ! i) (ctype ! (i + 1))
         (ctype ! (i + 2))
     + score_history p1 p2 p3 (ctype ! (i - 3)) (ctype ! (i - 2)) (ctype ! (i - 1)) (ctype ! i)"

section \<open>Segmentation\<close>

text \<open>The loop from position \<open>i\<close> on, with the segments so far and the word being built.\<close>

function segment_loop ::
    "ustr list \<Rightarrow> ustr list \<Rightarrow> nat \<Rightarrow> ustr \<Rightarrow> ustr \<Rightarrow> ustr \<Rightarrow> ustr list \<Rightarrow> ustr \<Rightarrow> ustr list" where
  "segment_loop seg ctype i p1 p2 p3 result word =
     (if i < length seg - 3 then
        (let starts = (score_at seg ctype p1 p2 p3 i > 0);
             result' = (if starts then result @ [word] else result);
             word' = (if starts then [] else word) @ seg ! i
         in segment_loop seg ctype (i + 1) p2 p3 (if starts then u ''B'' else u ''O'') result' word')
      else result @ [word])"
  by pat_completeness auto
termination
  by (relation "measure (\<lambda>(seg, ctype, i, _). length seg - i)") auto

declare segment_loop.simps [simp del]

definition segment :: "ustr \<Rightarrow> ustr list" where
  "segment input =
     (if input = [] then []
      else
        (let seg = [u ''B3'', u ''B2'', u ''B1''] @ map (\<lambda>c. [c]) input @ [u ''E1'', u ''E2'', u ''E3''];
             ctype = [u ''O'', u ''O'', u ''O''] @ map ctype_of input @ [u ''O'', u ''O'', u ''O'']
         in segment_loop seg ctype 4 (u ''U'') (u ''U'') (u ''U'') [] (seg ! 3)))"

section \<open>Properties\<close>

lemma segment_loop_concat:
  assumes "word \<noteq> []" and "[] \<notin> set result" and "\<forall>j < length seg. seg ! j \<noteq> []"
  shows "concat (segment_loop seg ctype i p1 p2 p3 result word)
      = concat result @ word @ concat (slice i (length seg - 3) seg)
    \<and> [] \<notin> set (segment_loop seg ctype i p1 p2 p3 result word)"
  using assms
proof (induction seg ctype i p1 p2 p3 result word rule: segment_loop.induct)
  case (1 seg ctype i p1 p2 p3 result word)
  show ?case
  proof (cases "i < length seg - 3")
    case False
    then show ?thesis using "1.prems" by (simp add: segment_loop.simps [of _ _ i] slice_def)
  next
    case True
    let ?starts = "score_at seg ctype p1 p2 p3 i > 0"
    have "seg ! i \<noteq> []" using "1.prems"(3) True by auto
    moreover have "slice i (length seg - 3) seg = seg ! i # slice (Suc i) (length seg - 3) seg"
      using True by (simp add: slice_Cons)
    ultimately show ?thesis
      using "1.IH" [OF True refl refl refl] "1.prems" True
      by (cases ?starts) (simp_all add: segment_loop.simps [of _ _ i] Let_def)
  qed
qed

text \<open>
  Segmenting loses nothing: the segments are not empty and put together they are
  the text, whatever the scores say.
\<close>
theorem segment_partitions: "concat (segment input) = input \<and> [] \<notin> set (segment input)"
proof (cases "input = []")
  case False
  define seg where "seg = [u ''B3'', u ''B2'', u ''B1''] @ map (\<lambda>c. [c]) input @ [u ''E1'', u ''E2'', u ''E3'']"
  obtain c cs where input: "input = c # cs" using False by (cases input) auto
  have len: "length seg - 3 = length input + 3" by (simp add: seg_def)
  have "\<forall>w \<in> set seg. w \<noteq> []" by (auto simp: seg_def)
  then have ne: "\<forall>j < length seg. seg ! j \<noteq> []" by simp
  have first: "seg ! 3 = [c]" and slice: "slice 4 (length seg - 3) seg = map (\<lambda>c. [c]) cs"
    unfolding len by (simp_all add: seg_def input slice_def)
  have "concat (map (\<lambda>c. [c]) cs) = cs" by (induction cs) auto
  moreover obtain ct where "segment input = segment_loop seg ct 4 (u ''U'') (u ''U'') (u ''U'') [] (seg ! 3)"
    using False unfolding segment_def Let_def seg_def by simp
  ultimately show ?thesis
    using segment_loop_concat [of "seg ! 3" "[]" seg ct 4] ne first slice by (simp add: input)
qed (simp add: segment_def)

text \<open>The scores at work: \<open>watashi no namae wa nakano desu\<close>.\<close>

lemma segment_example:
  "segment [0x79C1, 0x306E, 0x540D, 0x524D, 0x306F, 0x4E2D, 0x91CE, 0x3067, 0x3059]
   = [[0x79C1], [0x306E], [0x540D, 0x524D], [0x306F], [0x4E2D, 0x91CE], [0x3067, 0x3059]]"
  by code_simp

end
