(* ===== verification/Js_Underscore.thy ===== *)
theory Js_Underscore
  imports Complex_Main Prelude "HOL-Library.Multiset" "HOL-Library.AList"
begin

text \<open>
  Collection and array functions of Underscore 1.8.3, bundled in
  \<open>site/assets/javascripts/lunr/wordcut.js\<close> (lines 4664 to 5205) and used there by the
  segmenter's command line part.

  Values are the JavaScript values the functions compare: \<open>Arr i vs\<close> is an array with the
  identity \<open>i\<close> and the elements \<open>vs\<close>, numbers are integers or \<open>NaN\<close>.  An array argument is
  the list of its elements; a callback is a function of the value and its index.  The array
  half of each function is modelled here (\<open>isArrayLike\<close> holds); \<open>Js_Collections\<close> has the
  functions that also take plain objects.  Not modelled is the \<open>this\<close> context of callbacks, which \<open>optimizeCb\<close> only passes on.
\<close>

section \<open>Values and their comparison\<close>

datatype jsval =
    Undef | Null | Boolean bool | NaN | Num int | Str ustr
  | Arr nat "jsval list" | Obj nat

text \<open>The operator \<open>===\<close>: arrays and objects by identity, \<open>NaN\<close> unequal to itself.\<close>

fun strict_eq :: "jsval \<Rightarrow> jsval \<Rightarrow> bool" where
  "strict_eq NaN _ = False"
| "strict_eq (Arr i _) y = (case y of Arr j _ \<Rightarrow> i = j | _ \<Rightarrow> False)"
| "strict_eq x y = (x = y)"

definition isNaN :: "jsval \<Rightarrow> bool" where
  "isNaN v \<longleftrightarrow> v = NaN"

text \<open>The relation the membership tests of the library come to: \<open>===\<close>, and \<open>NaN\<close> like itself.\<close>

definition same :: "jsval \<Rightarrow> jsval \<Rightarrow> bool" where
  "same x y \<longleftrightarrow> strict_eq x y \<or> x = NaN \<and> y = NaN"

lemma same_refl [simp]: "same x x"
  by (cases x) (auto simp: same_def)

lemma strict_eq_sym: "strict_eq x y \<Longrightarrow> strict_eq y x"
  by (cases x; cases y) auto

lemma strict_eq_trans: "strict_eq x y \<Longrightarrow> strict_eq y z \<Longrightarrow> strict_eq x z"
  by (cases x; cases y; cases z) auto

lemma strict_eq_NaN [simp]: "\<not> strict_eq x NaN"
  by (cases x) auto

lemma same_sym: "same x y \<Longrightarrow> same y x"
  by (auto simp: same_def dest: strict_eq_sym)

lemma same_trans: "same x y \<Longrightarrow> same y z \<Longrightarrow> same x z"
  by (auto simp: same_def dest: strict_eq_trans)

lemma same_not_NaN: "y \<noteq> NaN \<Longrightarrow> same x y = strict_eq x y"
  by (auto simp: same_def)

section \<open>Finding a position\<close>

datatype direction = Forward | Backward

fun stride :: "direction \<Rightarrow> int" where
  "stride Forward = 1"
| "stride Backward = -1"

text \<open>The loop \<open>for (; index >= 0 && index < length; index += dir)\<close> with a test that returns.\<close>

function scan :: "direction \<Rightarrow> (nat \<Rightarrow> bool) \<Rightarrow> int \<Rightarrow> int \<Rightarrow> int" where
  "scan dir test index len =
     (if 0 \<le> index \<and> index < len then
        (if test (nat index) then index else scan dir test (index + stride dir) len)
      else -1)"
  by pat_completeness auto
termination
  by (relation "measure (\<lambda>(dir, test, index, len).
        case dir of Forward \<Rightarrow> nat (len - index) | Backward \<Rightarrow> nat (index + 1))")
     (auto split: direction.splits)

declare scan.simps [simp del]

lemma scan_Forward:
  "0 \<le> i \<Longrightarrow>
   (\<exists>j. scan Forward test i len = int j \<and> i \<le> int j \<and> int j < len \<and> test j \<and>
        (\<forall>k. i \<le> int k \<and> k < j \<longrightarrow> \<not> test k))
   \<or> scan Forward test i len = -1 \<and> (\<forall>k. i \<le> int k \<and> int k < len \<longrightarrow> \<not> test k)"
proof (induction Forward test i len rule: scan.induct)
  case (1 test i len)
  show ?case
  proof (cases "i < len \<and> \<not> test (nat i)")
    case True
    have "i = int k \<or> i + 1 \<le> int k" if "i \<le> int k" for k using that by linarith
    moreover have "\<not> test k" if "i = int k" for k using True that by auto
    ultimately have K: "\<not> test k \<or> i + 1 \<le> int k" if "i \<le> int k" for k using that by blast
    have E: "scan Forward test i len = scan Forward test (i + 1) len"
      using True "1.prems" by (simp add: scan.simps [of Forward test i])
    have ih: "(\<exists>j. scan Forward test (i + 1) len = int j \<and> i + 1 \<le> int j \<and> int j < len \<and> test j \<and>
        (\<forall>k. i + 1 \<le> int k \<and> k < j \<longrightarrow> \<not> test k))
       \<or> scan Forward test (i + 1) len = -1 \<and> (\<forall>k. i + 1 \<le> int k \<and> int k < len \<longrightarrow> \<not> test k)"
      using "1.hyps" "1.prems" True by simp
    then show ?thesis
    proof (elim disjE exE conjE)
      fix j assume j: "scan Forward test (i + 1) len = int j" "i + 1 \<le> int j" "int j < len" "test j"
        "\<forall>k. i + 1 \<le> int k \<and> k < j \<longrightarrow> \<not> test k"
      then have "\<forall>k. i \<le> int k \<and> k < j \<longrightarrow> \<not> test k" using K by blast
      then show ?thesis using E j by (intro disjI1 exI [of _ j]) auto
    next
      assume "scan Forward test (i + 1) len = -1"
        "\<forall>k. i + 1 \<le> int k \<and> int k < len \<longrightarrow> \<not> test k"
      then show ?thesis using E K by auto
    qed
  next
    case False
    show ?thesis
    proof (cases "i < len")
      case True
      then have "scan Forward test i len = int (nat i)" "test (nat i)"
        using False "1.prems" by (auto simp: scan.simps [of Forward test i])
      then show ?thesis using True "1.prems"
        by (intro disjI1 exI [of _ "nat i"]) (auto simp: nat_less_iff)
    next
      case False
      then show ?thesis by (auto simp: scan.simps [of Forward test i])
    qed
  qed
qed

lemma scan_Forward_found:
  assumes "0 \<le> i"
  shows "0 \<le> scan Forward test i len \<longleftrightarrow> (\<exists>k. i \<le> int k \<and> int k < len \<and> test k)"
  using scan_Forward [OF assms, of test len] by (elim disjE exE conjE) auto

lemma scan_bounds: "scan dir test i len = -1 \<or> 0 \<le> scan dir test i len \<and> scan dir test i len < len"
proof (induction dir test i len rule: scan.induct)
  case (1 dir test index len)
  then show ?case by (cases "0 \<le> index \<and> index < len") (auto simp: scan.simps [of dir test index])
qed

text \<open>\<open>slice.call(array, from, to)\<close> with integer arguments.\<close>

definition clamp :: "'a list \<Rightarrow> int \<Rightarrow> nat" where
  "clamp xs i = nat (if i < 0 then max (int (length xs) + i) 0 else min i (int (length xs)))"

definition js_slice :: "'a list \<Rightarrow> int \<Rightarrow> int \<Rightarrow> 'a list" where
  "js_slice xs i j = drop (clamp xs i) (take (clamp xs j) xs)"

definition createPredicateIndexFinder :: "direction \<Rightarrow> 'a list \<Rightarrow> ('a \<Rightarrow> nat \<Rightarrow> bool) \<Rightarrow> int" where
  "createPredicateIndexFinder dir array predicate =
     (let len = int (length array); index = (if 0 < stride dir then 0 else len - 1)
      in scan dir (\<lambda>k. predicate (array ! k) k) index len)"

definition findIndex :: "'a list \<Rightarrow> ('a \<Rightarrow> nat \<Rightarrow> bool) \<Rightarrow> int" where
  "findIndex = createPredicateIndexFinder Forward"

definition findLastIndex :: "'a list \<Rightarrow> ('a \<Rightarrow> nat \<Rightarrow> bool) \<Rightarrow> int" where
  "findLastIndex = createPredicateIndexFinder Backward"

definition find_value :: "'a list \<Rightarrow> ('a \<Rightarrow> nat \<Rightarrow> bool) \<Rightarrow> 'a option" where
  "find_value obj predicate =
     (let key = findIndex obj predicate in if key \<noteq> -1 then Some (obj ! nat key) else None)"

text \<open>The binary search; \<open>iteratee\<close> computes what is compared.\<close>

function sorted_search :: "('a \<Rightarrow> 'k :: linorder) \<Rightarrow> 'a list \<Rightarrow> 'k \<Rightarrow> nat \<Rightarrow> nat \<Rightarrow> nat" where
  "sorted_search iteratee array key low high =
     (if low < high then
        (if iteratee (array ! ((low + high) div 2)) < key
         then sorted_search iteratee array key ((low + high) div 2 + 1) high
         else sorted_search iteratee array key low ((low + high) div 2))
      else low)"
  by pat_completeness auto
termination
  by (relation "measure (\<lambda>(iteratee, array, key, low, high). high - low)") auto

declare sorted_search.simps [simp del]

definition sortedIndex :: "'a list \<Rightarrow> 'a \<Rightarrow> ('a \<Rightarrow> 'k :: linorder) \<Rightarrow> nat" where
  "sortedIndex array obj iteratee = sorted_search iteratee array (iteratee obj) 0 (length array)"

text \<open>
  The third argument of \<open>indexOf\<close>: absent, a number, or a truthy value that is no number, with
  which the array is taken to be sorted; \<open>position\<close> is then the binary search's answer, since
  \<open>sortedIndex\<close> compares any values.
\<close>

datatype start = Absent | At int | Sorted

definition createIndexFinder ::
  "direction \<Rightarrow> (jsval list \<Rightarrow> jsval \<Rightarrow> nat) option \<Rightarrow> jsval list \<Rightarrow> jsval \<Rightarrow> start \<Rightarrow> int" where
  "createIndexFinder dir search array item idx =
     (let len = int (length array) in
      case (idx, search) of
        (Sorted, Some position) \<Rightarrow>
          if array \<noteq> [] then
            let k = position array item
            in if k < length array \<and> strict_eq (array ! k) item then int k else -1
          else -1
      | _ \<Rightarrow>
          let i = (case idx of At n \<Rightarrow> if 0 < stride dir then (if 0 \<le> n then n else max (n + len) 0)
                                     else 0 | _ \<Rightarrow> 0);
              len' = (case idx of At n \<Rightarrow> if 0 < stride dir then len
                                         else (if 0 \<le> n then min (n + 1) len else n + len + 1)
                       | _ \<Rightarrow> len)
          in if \<not> strict_eq item item then
               let k = createPredicateIndexFinder dir (js_slice array i len') (\<lambda>v _. isNaN v)
               in if 0 \<le> k then k + i else -1
             else scan dir (\<lambda>k. strict_eq (array ! k) item) (if 0 < stride dir then i else len' - 1) len')"

definition indexOf :: "(jsval list \<Rightarrow> jsval \<Rightarrow> nat) \<Rightarrow> jsval list \<Rightarrow> jsval \<Rightarrow> start \<Rightarrow> int" where
  "indexOf position = createIndexFinder Forward (Some position)"

definition lastIndexOf :: "jsval list \<Rightarrow> jsval \<Rightarrow> start \<Rightarrow> int" where
  "lastIndexOf = createIndexFinder Backward None"

text \<open>\<open>contains\<close> starts at a given number and at 0 otherwise, so it never trusts an order.\<close>

definition contains_from :: "jsval list \<Rightarrow> jsval \<Rightarrow> int \<Rightarrow> bool" where
  "contains_from obj item fromIndex = (0 \<le> indexOf (\<lambda>_ _. 0) obj item (At fromIndex))"

definition contains :: "jsval list \<Rightarrow> jsval \<Rightarrow> bool" where
  "contains obj item = contains_from obj item 0"

lemma js_slice_all: "js_slice xs 0 (int (length xs)) = xs"
  by (simp add: js_slice_def clamp_def)

lemma contains_iff: "contains xs v \<longleftrightarrow> (\<exists>x \<in> set xs. same x v)"
proof (cases "v = NaN")
  case True
  have "contains xs v \<longleftrightarrow> (\<exists>k. k < length xs \<and> xs ! k = NaN)"
    using scan_Forward_found [of 0 "\<lambda>k. xs ! k = NaN" "int (length xs)"]
    by (simp add: contains_def contains_from_def indexOf_def createIndexFinder_def True js_slice_all
        createPredicateIndexFinder_def isNaN_def Let_def split: if_splits)
  then show ?thesis by (auto simp: True same_def in_set_conv_nth)
next
  case False
  then have "strict_eq v v" by (cases v) auto
  then have "contains xs v \<longleftrightarrow> (\<exists>k. k < length xs \<and> strict_eq (xs ! k) v)"
    using scan_Forward_found [of 0 "\<lambda>k. strict_eq (xs ! k) v" "int (length xs)"]
    by (simp add: contains_def contains_from_def indexOf_def createIndexFinder_def Let_def)
  also have "\<dots> \<longleftrightarrow> (\<exists>x \<in> set xs. strict_eq x v)" by (metis in_set_conv_nth)
  finally show ?thesis using False by (simp add: same_not_NaN)
qed

section \<open>Iterating\<close>

text \<open>
  \<open>for (i = 0, length = obj.length; i < length; i++)\<close> with a body that changes a state: the
  positions are those of the array at the start.
\<close>

definition each :: "'a list \<Rightarrow> ('a \<Rightarrow> nat \<Rightarrow> 's \<Rightarrow> 's) \<Rightarrow> 's \<Rightarrow> 's" where
  "each obj iteratee = fold (\<lambda>i. iteratee (obj ! i) i) [0..<length obj]"

definition map_array :: "'a list \<Rightarrow> ('a \<Rightarrow> nat \<Rightarrow> 'b) \<Rightarrow> 'b list" where
  "map_array obj iteratee = map (\<lambda>i. iteratee (obj ! i) i) [0..<length obj]"

function reduce_loop ::
  "direction \<Rightarrow> (jsval \<Rightarrow> jsval \<Rightarrow> nat \<Rightarrow> jsval) \<Rightarrow> jsval list \<Rightarrow> jsval \<Rightarrow> int \<Rightarrow> jsval" where
  "reduce_loop dir iteratee obj memo index =
     (if 0 \<le> index \<and> index < int (length obj) then
        reduce_loop dir iteratee obj (iteratee memo (obj ! nat index) (nat index)) (index + stride dir)
      else memo)"
  by pat_completeness auto
termination
  by (relation "measure (\<lambda>(dir, iteratee, obj, memo, index).
        case dir of Forward \<Rightarrow> nat (int (length obj) - index) | Backward \<Rightarrow> nat (index + 1))")
     (auto split: direction.splits)

declare reduce_loop.simps [simp del]

text \<open>Without an initial value the first element of the direction is it; an empty array gives \<open>undefined\<close>.\<close>

definition createReduce ::
  "direction \<Rightarrow> jsval list \<Rightarrow> (jsval \<Rightarrow> jsval \<Rightarrow> nat \<Rightarrow> jsval) \<Rightarrow> jsval option \<Rightarrow> jsval" where
  "createReduce dir obj iteratee memo =
     (let index = (if 0 < stride dir then 0 else int (length obj) - 1) in
      case memo of
        Some m \<Rightarrow> reduce_loop dir iteratee obj m index
      | None \<Rightarrow> reduce_loop dir iteratee obj (if obj = [] then Undef else obj ! nat index)
                  (index + stride dir))"

definition filter_array :: "'a list \<Rightarrow> ('a \<Rightarrow> nat \<Rightarrow> bool) \<Rightarrow> 'a list" where
  "filter_array obj predicate =
     each obj (\<lambda>value i results. if predicate value i then results @ [value] else results) []"

definition reject_array :: "'a list \<Rightarrow> ('a \<Rightarrow> nat \<Rightarrow> bool) \<Rightarrow> 'a list" where
  "reject_array obj predicate = filter_array obj (\<lambda>value i. \<not> predicate value i)"

fun every_from :: "'a list \<Rightarrow> ('a \<Rightarrow> nat \<Rightarrow> bool) \<Rightarrow> nat list \<Rightarrow> bool" where
  "every_from obj predicate [] = True"
| "every_from obj predicate (i # is) =
     (if \<not> predicate (obj ! i) i then False else every_from obj predicate is)"

definition every :: "'a list \<Rightarrow> ('a \<Rightarrow> nat \<Rightarrow> bool) \<Rightarrow> bool" where
  "every obj predicate = every_from obj predicate [0..<length obj]"

fun some_from :: "'a list \<Rightarrow> ('a \<Rightarrow> nat \<Rightarrow> bool) \<Rightarrow> nat list \<Rightarrow> bool" where
  "some_from obj predicate [] = False"
| "some_from obj predicate (i # is) =
     (if predicate (obj ! i) i then True else some_from obj predicate is)"

definition some :: "'a list \<Rightarrow> ('a \<Rightarrow> nat \<Rightarrow> bool) \<Rightarrow> bool" where
  "some obj predicate = some_from obj predicate [0..<length obj]"

definition partition_array :: "'a list \<Rightarrow> ('a \<Rightarrow> nat \<Rightarrow> bool) \<Rightarrow> 'a list \<times> 'a list" where
  "partition_array obj predicate =
     each obj (\<lambda>value key (pass, fail).
       if predicate value key then (pass @ [value], fail) else (pass, fail @ [value])) ([], [])"

lemma each_upto: "each (xs @ [x]) f s = f x (length xs) (each xs f s)"
proof -
  have "fold (\<lambda>i. f ((xs @ [x]) ! i) i) [0..<length xs] s = fold (\<lambda>i. f (xs ! i) i) [0..<length xs] s"
    by (rule fold_cong) (auto simp: nth_append)
  then show ?thesis by (simp add: each_def)
qed

lemma filter_array_map: "filter_array xs P = map (nth xs) (filter (\<lambda>i. P (xs ! i) i) [0..<length xs])"
proof (induction xs rule: rev_induct)
  case (snoc x xs)
  have "map (nth (xs @ [x])) (filter (\<lambda>i. P ((xs @ [x]) ! i) i) [0..<length xs]) =
        map (nth xs) (filter (\<lambda>i. P (xs ! i) i) [0..<length xs])"
    by (rule map_cong) (auto simp: nth_append intro: filter_cong)
  then show ?case using snoc by (simp add: filter_array_def each_upto)
qed (simp add: filter_array_def each_def)

lemma filter_array_plain: "filter_array xs (\<lambda>v _. P v) = filter P xs"
  by (induction xs rule: rev_induct) (auto simp: filter_array_def each_upto each_def [of "[]"])

section \<open>Slices, flattening, zipping\<close>

text \<open>A missing count, or one passed along by \<open>map\<close>, means one element.\<close>

definition initial :: "'a list \<Rightarrow> int option \<Rightarrow> 'a list" where
  "initial array n =
     js_slice array 0 (max 0 (int (length array) - (case n of None \<Rightarrow> 1 | Some k \<Rightarrow> k)))"

definition first_n :: "'a list \<Rightarrow> int \<Rightarrow> 'a list" where
  "first_n array n = initial array (Some (int (length array) - n))"

definition rest :: "'a list \<Rightarrow> int option \<Rightarrow> 'a list" where
  "rest array n = js_slice array (case n of None \<Rightarrow> 1 | Some k \<Rightarrow> k) (int (length array))"

definition last_n :: "'a list \<Rightarrow> int \<Rightarrow> 'a list" where
  "last_n array n = rest array (Some (max 0 (int (length array) - n)))"

fun flatten :: "jsval list \<Rightarrow> bool \<Rightarrow> bool \<Rightarrow> jsval list" where
  "flatten [] shallow strict = []"
| "flatten (Arr i vs # input) shallow strict =
     (if \<not> shallow then flatten vs shallow strict else vs) @ flatten input shallow strict"
| "flatten (v # input) shallow strict =
     (if \<not> strict then [v] else []) @ flatten input shallow strict"

text \<open>The first element with the largest computed number; \<open>None\<close> is the initial \<open>-Infinity\<close>.\<close>

definition max_by :: "('a \<Rightarrow> int) \<Rightarrow> 'a list \<Rightarrow> 'a option" where
  "max_by iteratee obj =
     fst (each obj (\<lambda>v _ (result, lastComputed).
       (let computed = iteratee v in
        if (case lastComputed of None \<Rightarrow> True | Some l \<Rightarrow> l < computed)
        then (Some v, Some computed) else (result, lastComputed))) (None, None))"

definition min_by :: "('a \<Rightarrow> int) \<Rightarrow> 'a list \<Rightarrow> 'a option" where
  "min_by iteratee obj =
     fst (each obj (\<lambda>v _ (result, lastComputed).
       (let computed = iteratee v in
        if (case lastComputed of None \<Rightarrow> True | Some l \<Rightarrow> computed < l)
        then (Some v, Some computed) else (result, lastComputed))) (None, None))"

definition pluck_index :: "jsval list list \<Rightarrow> nat \<Rightarrow> jsval list" where
  "pluck_index array index = map (\<lambda>xs. if index < length xs then xs ! index else Undef) array"

definition unzip :: "jsval list list \<Rightarrow> jsval list list" where
  "unzip array =
     (let len = (case max_by (\<lambda>xs. int (length xs)) array of None \<Rightarrow> 0 | Some xs \<Rightarrow> length xs)
      in map (pluck_index array) [0..<len])"

definition range_array :: "int \<Rightarrow> int option \<Rightarrow> int \<Rightarrow> int list" where
  "range_array start stop step =
     (let (start, stop) = (case stop of None \<Rightarrow> (0, start) | Some s \<Rightarrow> (start, s));
          step = (if step = 0 then 1 else step);
          len = nat (max (- ((- (stop - start)) div step)) 0)
      in map (\<lambda>idx. start + int idx * step) [0..<len])"

text \<open>
  Objects built from an array: an association list in the order in which the keys were first
  set.  The keys are the strings the property names are converted to.
\<close>

definition object_of :: "ustr list \<Rightarrow> jsval list \<Rightarrow> (ustr \<times> jsval) list" where
  "object_of keys vs =
     fold (\<lambda>i. AList.update (keys ! i) (if i < length vs then vs ! i else Undef)) [0..<length keys] []"

definition object_of_pairs :: "(ustr \<times> jsval) list \<Rightarrow> (ustr \<times> jsval) list" where
  "object_of_pairs ps = fold (\<lambda>(k, v). AList.update k v) ps []"

definition group_into ::
  "((ustr \<times> 'b) list \<Rightarrow> 'a \<Rightarrow> ustr \<Rightarrow> (ustr \<times> 'b) list) \<Rightarrow> 'a list \<Rightarrow> ('a \<Rightarrow> nat \<Rightarrow> ustr) \<Rightarrow>
   (ustr \<times> 'b) list" where
  "group_into behavior obj iteratee =
     each obj (\<lambda>v index result. behavior result v (iteratee v index)) []"

definition groupBy :: "'a list \<Rightarrow> ('a \<Rightarrow> nat \<Rightarrow> ustr) \<Rightarrow> (ustr \<times> 'a list) list" where
  "groupBy = group_into (\<lambda>result v key. case map_of result key of
       Some vs \<Rightarrow> AList.update key (vs @ [v]) result
     | None \<Rightarrow> AList.update key [v] result)"

definition indexBy :: "'a list \<Rightarrow> ('a \<Rightarrow> nat \<Rightarrow> ustr) \<Rightarrow> (ustr \<times> 'a) list" where
  "indexBy = group_into (\<lambda>result v key. AList.update key v result)"

definition countBy :: "'a list \<Rightarrow> ('a \<Rightarrow> nat \<Rightarrow> ustr) \<Rightarrow> (ustr \<times> nat) list" where
  "countBy = group_into (\<lambda>result v key. case map_of result key of
       Some n \<Rightarrow> AList.update key (n + 1) result
     | None \<Rightarrow> AList.update key 1 result)"

section \<open>Sets in arrays\<close>

text \<open>
  What the set operations of the library rely on: a membership test that finds an element up to
  an equivalence.
\<close>

locale membership =
  fixes eqv :: "'a \<Rightarrow> 'a \<Rightarrow> bool" and has :: "'a list \<Rightarrow> 'a \<Rightarrow> bool"
  assumes eqv_refl: "eqv x x"
    and eqv_sym: "eqv x y \<Longrightarrow> eqv y x"
    and eqv_trans: "eqv x y \<Longrightarrow> eqv y z \<Longrightarrow> eqv x z"
    and has_iff: "has xs v \<longleftrightarrow> (\<exists>x \<in> set xs. eqv x v)"
begin

lemma has_Nil [simp]: "\<not> has [] v"
  by (simp add: has_iff)

lemma has_Cons: "has (x # xs) v \<longleftrightarrow> eqv x v \<or> has xs v"
  by (simp add: has_iff)

lemma has_append [simp]: "has (xs @ ys) v \<longleftrightarrow> has xs v \<or> has ys v"
  by (auto simp: has_iff)

lemma has_concat: "has (concat xss) v \<longleftrightarrow> (\<exists>xs \<in> set xss. has xs v)"
  by (auto simp: has_iff)

lemma has_eqv: "eqv v w \<Longrightarrow> has xs v = has xs w"
  unfolding has_iff using eqv_sym eqv_trans by blast

lemma has_filter:
  assumes "\<And>v w. eqv v w \<Longrightarrow> P v = P w"
  shows "has (filter P xs) v \<longleftrightarrow> has xs v \<and> P v"
  unfolding has_iff using assms by auto

lemma has_member: "x \<in> set xs \<Longrightarrow> has xs x"
  unfolding has_iff using eqv_refl by blast

text \<open>The loop that keeps an element unless an earlier one has its key.\<close>

lemma fresh_key_has:
  "has (map key (filter (\<lambda>i. \<not> has (map key [0..<i]) (key i)) [0..<n])) v = has (map key [0..<n]) v"
proof (induction n)
  case (Suc n)
  then show ?case using has_eqv [of "key n" v] by (auto simp: has_Cons)
qed simp

end

interpretation js: membership same contains
  by unfold_locales (auto simp: contains_iff dest: same_sym intro: same_trans)

definition uniq_step ::
  "bool \<Rightarrow> (jsval \<Rightarrow> nat \<Rightarrow> jsval) option \<Rightarrow> jsval \<Rightarrow> nat \<Rightarrow> jsval list \<times> jsval list \<Rightarrow> jsval list \<times> jsval list" where
  "uniq_step isSorted iteratee v i st =
     (case st of (result, seen) \<Rightarrow>
       let computed = (case iteratee of Some f \<Rightarrow> f v i | None \<Rightarrow> v) in
       if isSorted then
         (if i = 0 \<or> \<not> strict_eq (hd seen) computed then result @ [v] else result, [computed])
       else if iteratee \<noteq> None then
         (if \<not> contains seen computed then (result @ [v], seen @ [computed]) else (result, seen))
       else if \<not> contains result v then (result @ [v], seen)
       else (result, seen))"

definition uniq :: "jsval list \<Rightarrow> bool \<Rightarrow> (jsval \<Rightarrow> nat \<Rightarrow> jsval) option \<Rightarrow> jsval list" where
  "uniq array isSorted iteratee = fst (each array (uniq_step isSorted iteratee) ([], []))"

text \<open>\<open>union\<close> and \<open>difference\<close> take any number of arguments; those that are no arrays are dropped.\<close>

definition union_arrays :: "jsval list \<Rightarrow> jsval list" where
  "union_arrays arguments = uniq (flatten arguments True True) False None"

fun shared_until :: "jsval list list \<Rightarrow> jsval \<Rightarrow> nat" where
  "shared_until [] item = 0"
| "shared_until (a # others) item =
     (if \<not> contains a item then 0 else Suc (shared_until others item))"

definition intersection :: "jsval list \<Rightarrow> jsval list list \<Rightarrow> jsval list" where
  "intersection array others =
     each array (\<lambda>item _ result.
       if contains result item then result
       else if shared_until others item = length others then result @ [item] else result) []"

definition difference :: "jsval list \<Rightarrow> jsval list \<Rightarrow> jsval list" where
  "difference array arguments =
     filter_array array (\<lambda>v _. \<not> contains (flatten arguments True True) v)"

definition without :: "jsval list \<Rightarrow> jsval list \<Rightarrow> jsval list" where
  "without array vs = difference array [Arr 0 vs]"

definition uniq_key :: "(jsval \<Rightarrow> nat \<Rightarrow> jsval) option \<Rightarrow> jsval list \<Rightarrow> nat \<Rightarrow> jsval" where
  "uniq_key iteratee array i =
     (case iteratee of Some f \<Rightarrow> f (array ! i) i | None \<Rightarrow> array ! i)"

definition first_with_key :: "(jsval \<Rightarrow> nat \<Rightarrow> jsval) option \<Rightarrow> jsval list \<Rightarrow> nat list" where
  "first_with_key iteratee array =
     filter (\<lambda>i. \<not> contains (map (uniq_key iteratee array) [0..<i]) (uniq_key iteratee array i))
       [0..<length array]"

lemma first_with_key_snoc:
  "first_with_key f (xs @ [x]) = first_with_key f xs @
     (if contains (map (uniq_key f xs) [0..<length xs]) (uniq_key f (xs @ [x]) (length xs)) then []
      else [length xs])"
proof -
  have k: "uniq_key f (xs @ [x]) i = uniq_key f xs i" if "i < length xs" for i
    using that by (simp add: uniq_key_def nth_append split: option.split)
  then have m: "map (uniq_key f (xs @ [x])) [0..<i] = map (uniq_key f xs) [0..<i]" if "i \<le> length xs" for i
    using that by simp
  have "filter (\<lambda>i. \<not> contains (map (uniq_key f (xs @ [x])) [0..<i]) (uniq_key f (xs @ [x]) i))
          [0..<length xs] = first_with_key f xs"
    unfolding first_with_key_def by (rule filter_cong) (auto simp: k m simp del: map_eq_conv)
  then show ?thesis by (simp add: first_with_key_def m del: map_eq_conv)
qed

lemma map_first_with_key_snoc:
  "map (g (xs @ [x])) (first_with_key f xs) = map (g xs) (first_with_key f xs)"
  if "\<And>i. i < length xs \<Longrightarrow> g (xs @ [x]) i = g xs i"
  using that by (auto simp: first_with_key_def)

lemma each_uniq:
  "each xs (uniq_step False f) ([], []) =
     (map (nth xs) (first_with_key f xs),
      if f = None then [] else map (uniq_key f xs) (first_with_key f xs))"
proof (induction xs rule: rev_induct)
  case Nil
  then show ?case by (simp add: each_def first_with_key_def)
next
  case (snoc x xs)
  let ?k = "uniq_key f (xs @ [x]) (length xs)"
  have K: "contains (map (uniq_key f xs) (first_with_key f xs)) v =
      contains (map (uniq_key f xs) [0..<length xs]) v" for v
    unfolding first_with_key_def by (rule js.fresh_key_has)
  have n: "map (nth (xs @ [x])) (first_with_key f xs) = map (nth xs) (first_with_key f xs)"
    "map (uniq_key f (xs @ [x])) (first_with_key f xs) = map (uniq_key f xs) (first_with_key f xs)"
    by (rule map_first_with_key_snoc; simp add: uniq_key_def nth_append split: option.split)+
  show ?case
  proof (cases f)
    case None
    then have "map (uniq_key f xs) is = map (nth xs) is" "?k = x" for "is"
      by (simp_all add: uniq_key_def)
    moreover have "each xs (uniq_step False None) ([], []) = (map (nth xs) (first_with_key None xs), [])"
      using snoc.IH None by simp
    ultimately show ?thesis using K [of x] n None
      by (simp add: each_upto uniq_step_def [of False None x "length xs"] first_with_key_snoc del: map_eq_conv)
  next
    case (Some g)
    then have "?k = g x (length xs)" by (simp add: uniq_key_def)
    moreover have "each xs (uniq_step False (Some g)) ([], []) =
        (map (nth xs) (first_with_key (Some g) xs), map (uniq_key (Some g) xs) (first_with_key (Some g) xs))"
      using snoc.IH Some by simp
    ultimately show ?thesis using K [of ?k] n Some
      by (simp add: each_upto uniq_step_def [of False "Some g" x "length xs"] first_with_key_snoc
          Let_def del: map_eq_conv)
  qed
qed

section \<open>Random order\<close>

text \<open>
  \<open>_.random(min, max)\<close> from the number \<open>r\<close> that \<open>Math.random()\<close> gave; the shuffle takes
  the sequence of those numbers as its argument.  The new array starts with holes.
\<close>

definition random :: "rat \<Rightarrow> int \<Rightarrow> int \<Rightarrow> int" where
  "random r low high = low + \<lfloor>r * of_int (high - low + 1)\<rfloor>"

definition shuffle_step :: "(nat \<Rightarrow> rat) \<Rightarrow> 'a list \<Rightarrow> nat \<Rightarrow> 'a option list \<Rightarrow> 'a option list" where
  "shuffle_step rnd xs index shuffled =
     (let rand = nat (random (rnd index) 0 (int index));
          shuffled = (if rand \<noteq> index then shuffled[index := shuffled ! rand] else shuffled)
      in shuffled[rand := Some (xs ! index)])"

definition shuffle :: "(nat \<Rightarrow> rat) \<Rightarrow> 'a list \<Rightarrow> 'a option list" where
  "shuffle rnd obj =
     fold (shuffle_step rnd obj) [0..<length obj] (replicate (length obj) None)"

definition sample :: "(nat \<Rightarrow> rat) \<Rightarrow> 'a list \<Rightarrow> int \<Rightarrow> 'a option list" where
  "sample rnd obj n = js_slice (shuffle rnd obj) 0 (max 0 n)"

lemma random_range:
  assumes "0 \<le> r" "r < 1"
  shows "0 \<le> random r 0 (int n)" "random r 0 (int n) \<le> int n"
proof -
  show "0 \<le> random r 0 (int n)" using assms by (simp add: random_def)
  have "r * (rat_of_nat n + 1) < 1 * (rat_of_nat n + 1)"
    by (rule mult_strict_right_mono) (use assms in auto)
  then have "\<lfloor>r * (rat_of_nat n + 1)\<rfloor> < int n + 1" by (subst floor_less_iff) simp
  moreover have "random r 0 (int n) = \<lfloor>r * (rat_of_nat n + 1)\<rfloor>"
    by (simp add: random_def)
  ultimately show "random r 0 (int n) \<le> int n" by linarith
qed

lemma shuffle_step_prefix:
  assumes "0 \<le> rnd n" "rnd n < 1" and n: "n < length xs" "length s = length xs"
    and m: "mset (take n s) = mset (map Some (take n xs))"
  shows "mset (take (Suc n) (shuffle_step rnd xs n s)) = mset (map Some (take (Suc n) xs)) \<and>
         length (shuffle_step rnd xs n s) = length xs"
proof -
  let ?r = "nat (random (rnd n) 0 (int n))"
  have r: "?r \<le> n" using random_range [OF assms(1,2), of n] by linarith
  have X: "mset (map Some (take (Suc n) xs)) = add_mset (Some (xs ! n)) (mset (take n s))"
    using n m by (simp add: take_Suc_conv_app_nth)
  show ?thesis
  proof (cases "?r = n")
    case True
    then show ?thesis using n X
      by (simp add: shuffle_step_def take_Suc_conv_app_nth Let_def)
  next
    case False
    then have lt: "?r < n" using r by simp
    let ?ls = "take n s @ [s ! ?r]"
    have "take (Suc n) (shuffle_step rnd xs n s) = ?ls[?r := Some (xs ! n)]"
      using False lt n by (simp add: shuffle_step_def Let_def take_update_swap take_Suc_conv_app_nth
          list_update_append)
    moreover have "mset (?ls[?r := Some (xs ! n)]) = add_mset (Some (xs ! n)) (mset (take n s))"
      using lt n by (subst mset_update) (auto simp: nth_append)
    ultimately show ?thesis using X n by (simp add: shuffle_step_def Let_def)
  qed
qed

lemma shuffle_prefix:
  assumes "\<And>i. 0 \<le> rnd i" "\<And>i. rnd i < 1" "n \<le> length xs"
  shows "mset (take n (fold (shuffle_step rnd xs) [0..<n] (replicate (length xs) None))) =
           mset (map Some (take n xs)) \<and>
         length (fold (shuffle_step rnd xs) [0..<n] (replicate (length xs) None)) = length xs"
  using assms(3)
proof (induction n)
  case (Suc n)
  then show ?case using shuffle_step_prefix [OF assms(1,2), of n xs] by simp
qed simp

section \<open>Properties\<close>

definition separates :: "('a \<Rightarrow> 'k :: linorder) \<Rightarrow> 'a list \<Rightarrow> 'k \<Rightarrow> nat \<Rightarrow> bool" where
  "separates key xs k r \<longleftrightarrow> r \<le> length xs \<and> (\<forall>i < r. key (xs ! i) < k) \<and>
     (\<forall>i. r \<le> i \<and> i < length xs \<longrightarrow> k \<le> key (xs ! i))"

lemma sorted_search_separates:
  assumes sorted: "sorted (map key xs)"
    and "low \<le> high" "high \<le> length xs"
    and "\<And>i. i < low \<Longrightarrow> key (xs ! i) < k"
    and "\<And>i. high \<le> i \<Longrightarrow> i < length xs \<Longrightarrow> k \<le> key (xs ! i)"
  shows "separates key xs k (sorted_search key xs k low high)"
  using assms
proof (induction key xs k low high rule: sorted_search.induct)
  case (1 key xs k low high)
  have mono: "key (xs ! i) \<le> key (xs ! j)" if "i \<le> j" "j < length xs" for i j
    using sorted_nth_mono [OF "1.prems"(1), of i j] that by simp
  let ?mid = "(low + high) div 2"
  consider (stop) "low = high" | (right) "low < high" "key (xs ! ?mid) < k"
    | (left) "low < high" "\<not> key (xs ! ?mid) < k" using "1.prems"(2) by linarith
  then show ?case
  proof cases
    case stop
    then have e: "sorted_search key xs k low high = low" by (subst sorted_search.simps) simp
    show ?thesis unfolding e separates_def using "1.prems"(3-5) stop by blast
  next
    case right
    then have e: "sorted_search key xs k low high = sorted_search key xs k (?mid + 1) high"
      by (subst sorted_search.simps) simp
    have mid: "?mid + 1 \<le> high" "?mid < length xs" using right(1) "1.prems"(3) by linarith+
    have "key (xs ! i) < k" if "i < ?mid + 1" for i
      using mono [of i ?mid] that mid by (intro le_less_trans [OF _ right(2)]) simp
    then show ?thesis unfolding e
      by (rule "1.IH"(1) [OF right "1.prems"(1) mid(1) "1.prems"(3) _ "1.prems"(5)])
  next
    case left
    then have e: "sorted_search key xs k low high = sorted_search key xs k low ?mid"
      by (subst sorted_search.simps) simp
    have mid: "low \<le> ?mid" "?mid \<le> length xs" using left(1) "1.prems"(3) by linarith+
    have "k \<le> key (xs ! i)" if "?mid \<le> i" "i < length xs" for i
      using mono [OF that] left(2) by (meson leI order_trans)
    from "1.IH"(2) [OF left "1.prems"(1) mid "1.prems"(4) this] show ?thesis unfolding e .
  qed
qed

definition push_if :: "(jsval \<Rightarrow> bool) \<Rightarrow> jsval list \<Rightarrow> jsval list" where
  "push_if P xs = each xs (\<lambda>item _ result. if contains result item then result
     else if P item then result @ [item] else result) []"

lemma has_push_if:
  assumes "\<And>v w. same v w \<Longrightarrow> P v = P w"
  shows "contains (push_if P xs) v \<longleftrightarrow> contains xs v \<and> P v"
proof (induction xs arbitrary: v rule: rev_induct)
  case (snoc x xs)
  have e: "push_if P (xs @ [x]) = (if contains (push_if P xs) x then push_if P xs
     else if P x then push_if P xs @ [x] else push_if P xs)"
    by (simp add: push_if_def each_upto)
  show ?case
  proof (cases "same x v")
    case True
    then have "contains xs x = contains xs v" "P x = P v" using js.has_eqv assms by blast+
    then show ?thesis using True snoc.IH by (simp add: e js.has_Cons)
  next
    case False
    then show ?thesis using snoc.IH by (simp add: e js.has_Cons)
  qed
qed (simp add: push_if_def each_def)

lemma shared_until_all: "shared_until others item = length others \<longleftrightarrow> list_all (\<lambda>a. contains a item) others"
proof -
  have "shared_until as item \<le> length as" for "as" by (induction "as") auto
  then show ?thesis by (induction others) auto
qed

lemma flatten_args: "flatten (map (\<lambda>(i, vs). Arr i vs) args) True s = concat (map snd args)"
  by (induction args) auto

lemma set_uniq_has: "contains (uniq xs False None) v \<longleftrightarrow> contains xs v"
proof -
  have "map (uniq_key None xs) is = map (nth xs) is" for "is" by (simp add: uniq_key_def)
  then have "uniq xs False None = map (uniq_key None xs) (first_with_key None xs)"
    by (simp add: uniq_def each_uniq)
  then have "contains (uniq xs False None) v = contains (map (uniq_key None xs) [0..<length xs]) v"
    by (simp only: first_with_key_def js.fresh_key_has)
  moreover have "map (uniq_key None xs) [0..<length xs] = xs" by (simp add: uniq_key_def map_nth cong: map_cong)
  ultimately show ?thesis by simp
qed

text \<open>
  \<open>uniq\<close> without an order keeps, in their order, exactly the elements whose
  computed value no earlier element has; \<open>NaN\<close> counts as equal to itself there.
\<close>
theorem uniq_keeps_first:
  "uniq array False iteratee =
     map (nth array)
       (filter (\<lambda>i. \<not> contains (map (uniq_key iteratee array) [0..<i]) (uniq_key iteratee array i))
         [0..<length array])"
  by (simp add: uniq_def each_uniq first_with_key_def)

text \<open>
  The set operations: a value is in the intersection when it is in the array and
  in every other one, in the difference when it is in the array and in no other one, in the union
  when it is in one of them.
\<close>
theorem set_operations_members:
  "contains (intersection array others) v =
     (contains array v \<and> list_all (\<lambda>a. contains a v) others) \<and>
   contains (difference array (map (\<lambda>(i, vs). Arr i vs) args)) v =
     (contains array v \<and> \<not> list_ex (\<lambda>(i, vs). contains vs v) args) \<and>
   contains (union_arrays (map (\<lambda>(i, vs). Arr i vs) args)) v = list_ex (\<lambda>(i, vs). contains vs v) args"
proof (intro conjI)
  have eqv: "list_all (\<lambda>a. contains a v) others = list_all (\<lambda>a. contains a w) others" if "same v w" for v w
    using js.has_eqv [OF that] by simp
  show "contains (intersection array others) v =
     (contains array v \<and> list_all (\<lambda>a. contains a v) others)"
    unfolding intersection_def shared_until_all
    by (rule has_push_if [unfolded push_if_def, OF eqv])
  have args: "contains (concat (map snd args)) v = list_ex (\<lambda>(i, vs). contains vs v) args" for v
    by (auto simp: js.has_concat list_ex_iff split: prod.splits) force+
  show "contains (difference array (map (\<lambda>(i, vs). Arr i vs) args)) v =
     (contains array v \<and> \<not> list_ex (\<lambda>(i, vs). contains vs v) args)"
    unfolding difference_def flatten_args filter_array_plain
    by (subst js.has_filter) (use js.has_eqv args in blast)+
  show "contains (union_arrays (map (\<lambda>(i, vs). Arr i vs) args)) v = list_ex (\<lambda>(i, vs). contains vs v) args"
    by (simp add: union_arrays_def flatten_args set_uniq_has args)
qed

text \<open>
  Property C32.  On a sorted array the binary search returns the least position at which the
  object can be inserted: everything before it is smaller, nothing from it on is.
\<close>
theorem sortedIndex_least:
  assumes "sorted (map iteratee array)"
  shows "sortedIndex array obj iteratee = length (takeWhile (\<lambda>x. iteratee x < iteratee obj) array) \<and>
         sorted (map iteratee
           (take (sortedIndex array obj iteratee) array @ obj # drop (sortedIndex array obj iteratee) array))"
proof -
  let ?r = "sortedIndex array obj iteratee"
  have S: "separates iteratee array (iteratee obj) ?r"
    unfolding sortedIndex_def by (rule sorted_search_separates [OF assms]) auto
  then have r: "?r \<le> length array" by (simp add: separates_def)
  have "takeWhile (\<lambda>x. iteratee x < iteratee obj) array = take ?r array"
    by (rule takeWhile_eq_take_P_nth) (use S in \<open>auto simp: separates_def not_less\<close>)
  then have "length (takeWhile (\<lambda>x. iteratee x < iteratee obj) array) = ?r" using r by simp
  moreover have "\<forall>x \<in> set (take ?r array). iteratee x < iteratee obj"
    "\<forall>x \<in> set (drop ?r array). iteratee obj \<le> iteratee x"
    using S r by (auto simp: separates_def in_set_conv_nth)
  moreover have "sorted (map iteratee (take ?r array))" "sorted (map iteratee (drop ?r array))"
    using assms by (simp_all flip: take_map drop_map add: sorted_wrt_take sorted_wrt_drop)
  ultimately show ?thesis by (fastforce simp: sorted_append)
qed

theorem sortedIndex_least_witness:
  "sortedIndex [10, 20, 20, 30] 20 (\<lambda>x. x :: int) = 1 \<and> sorted [10, 20, 20, 20, 30 :: int]"
  using sortedIndex_least [of "\<lambda>x. x :: int" "[10, 20, 20, 30]" 20] by simp

text \<open>
  Whatever numbers in [0, 1) \<open>Math.random\<close> gives, the shuffled array is a
  permutation of the given one and has no holes.
\<close>
theorem shuffle_permutes:
  assumes "\<And>i. 0 \<le> rnd i" and "\<And>i. rnd i < 1"
  shows "mset (shuffle rnd obj) = mset (map Some obj)"
  using shuffle_prefix [of rnd, OF assms, of "length obj" obj] by (auto simp: shuffle_def)

theorem shuffle_permutes_witness:
  "mset (shuffle (\<lambda>i. 1 / of_nat (i + 2)) [u ''a'', u ''b'', u ''c'']) =
   {#Some (u ''a''), Some (u ''b''), Some (u ''c'')#}"
  using shuffle_permutes [of "\<lambda>i. 1 / of_nat (i + 2)" "[u ''a'', u ''b'', u ''c'']"] by simp

end
