(* ===== verification/Js_Values.thy ===== *)
theory Js_Values
  imports Prelude
begin

text \<open>
  JavaScript values over a heap of objects, for the modules of the bundle that compare and copy
  objects (Underscore's object functions and \<open>assert\<close>).

  An object has a kind that stands for its internal class and slots, its own enumerable
  properties in the order \<open>Object.keys\<close> lists them, its own hidden ones, and what it inherits,
  with a flag that says whether \<open>for in\<close> lists it.  Elements of arrays, of \<open>arguments\<close> and of
  string objects come first among the own properties; their length is that of the list their kind
  holds and no property.  Numbers are integers, \<open>-0\<close> and \<open>NaN\<close>.
\<close>

section \<open>Values\<close>

datatype number = NaN | MinusZero | Whole int

datatype jv = Undefined | Null | Bool bool | Number number | String ustr | Ref nat

datatype kind =
    PlainObj | ArrayObj "jv list" | ArgumentsObj "jv list" | ErrorObj
  | FunctionObj bool | StringObj ustr | NumberObj number | BooleanObj bool | DateObj number
  | RegExpObj ustr | WrapperObj jv

text \<open>
  \<open>FunctionObj\<close> says whether the function is an instance of itself (\<open>Object\<close> and
  \<open>Function\<close> are); \<open>WrapperObj\<close> is a wrapped Underscore object.
\<close>

type_synonym props = "(ustr \<times> jv) list"

record obj =
  kind_of :: kind
  own :: props
  hidden :: props
  inherited :: "(ustr \<times> jv \<times> bool) list"

type_synonym heap = "obj list"

section \<open>Equality of values\<close>

fun num_strict :: "number \<Rightarrow> number \<Rightarrow> bool" where
  "num_strict NaN y = False"
| "num_strict x NaN = False"
| "num_strict MinusZero y = (y = MinusZero \<or> y = Whole 0)"
| "num_strict (Whole i) MinusZero = (i = 0)"
| "num_strict (Whole i) (Whole j) = (i = j)"

text \<open>The operator \<open>===\<close>.\<close>

fun strict :: "jv \<Rightarrow> jv \<Rightarrow> bool" where
  "strict (Number x) (Number y) = num_strict x y"
| "strict x y = (x = y)"

lemma num_strict_sym: "num_strict x y \<Longrightarrow> num_strict y x"
  by (cases x; cases y) auto

lemma strict_sym: "strict x y \<Longrightarrow> strict y x"
  by (cases x; cases y) (auto intro: num_strict_sym)

lemma strict_Ref [simp]: "strict (Ref r) y \<longleftrightarrow> y = Ref r"
  by auto

lemma num_strict_refl: "num_strict n n \<longleftrightarrow> n \<noteq> NaN"
  by (cases n) auto

lemma strict_refl: "strict x x \<longleftrightarrow> x \<noteq> Number NaN"
  by (cases x) (auto simp: num_strict_refl)

section \<open>Properties\<close>

definition own_elements :: "kind \<Rightarrow> jv list" where
  "own_elements k =
     (case k of ArrayObj vs \<Rightarrow> vs | ArgumentsObj vs \<Rightarrow> vs | StringObj s \<Rightarrow> map (\<lambda>c. String [c]) s | _ \<Rightarrow> [])"

definition own_props :: "obj \<Rightarrow> props" where
  "own_props ob =
     (let vs = own_elements (kind_of ob) in zip (map dec_digits [0..<length vs]) vs @ own ob)"

definition all_props :: "obj \<Rightarrow> props" where
  "all_props ob = own_props ob @ hidden ob @ map (\<lambda>(k, v, e). (k, v)) (inherited ob)"

text \<open>\<open>obj[key]\<close>, \<open>key in obj\<close> and \<open>hasOwnProperty\<close>.\<close>

definition get :: "obj \<Rightarrow> ustr \<Rightarrow> jv" where
  "get ob key = (case map_of (all_props ob) key of None \<Rightarrow> Undefined | Some v \<Rightarrow> v)"

definition in_obj :: "ustr \<Rightarrow> obj \<Rightarrow> bool" where
  "in_obj key ob \<longleftrightarrow> map_of (all_props ob) key \<noteq> None"

definition has_own :: "obj \<Rightarrow> ustr \<Rightarrow> bool" where
  "has_own ob key \<longleftrightarrow> map_of (own_props ob @ hidden ob) key \<noteq> None"

text \<open>\<open>Object.keys\<close> and the names that \<open>for in\<close> goes through.\<close>

definition obj_keys :: "obj \<Rightarrow> ustr list" where
  "obj_keys ob = map fst (own_props ob)"

definition obj_all_keys :: "obj \<Rightarrow> ustr list" where
  "obj_all_keys ob =
     (let ks = obj_keys ob
      in ks @ [k. (k, v, e) \<leftarrow> inherited ob, e \<and> k \<notin> set ks \<and> k \<notin> fst ` set (hidden ob)])"

section \<open>Well-formed heaps\<close>

text \<open>
  A typing of values in a heap: references lead to objects, and no two own properties of an
  object, hidden ones included, have the same name.
\<close>

definition value_ok :: "heap \<Rightarrow> jv \<Rightarrow> bool" where
  "value_ok H v \<longleftrightarrow> (case v of Ref r \<Rightarrow> r < length H | _ \<Rightarrow> True)"

definition kind_ok :: "heap \<Rightarrow> kind \<Rightarrow> bool" where
  "kind_ok H k \<longleftrightarrow>
     (case k of ArrayObj vs \<Rightarrow> list_all (value_ok H) vs | ArgumentsObj vs \<Rightarrow> list_all (value_ok H) vs
      | WrapperObj v \<Rightarrow> value_ok H v | _ \<Rightarrow> True)"

definition obj_ok :: "heap \<Rightarrow> obj \<Rightarrow> bool" where
  "obj_ok H ob \<longleftrightarrow>
     kind_ok H (kind_of ob) \<and> list_all (value_ok H) (map snd (all_props ob)) \<and>
     distinct (map fst (own_props ob @ hidden ob))"

definition heap_ok :: "heap \<Rightarrow> bool" where
  "heap_ok H \<longleftrightarrow> list_all (obj_ok H) H"

lemma value_ok_simps [simp]:
  "value_ok H Undefined" "value_ok H Null" "value_ok H (Bool b)" "value_ok H (Number n)"
  "value_ok H (String s)" "value_ok H (Ref r) \<longleftrightarrow> r < length H"
  by (simp_all add: value_ok_def)

lemma heap_okD: "heap_ok H \<Longrightarrow> r < length H \<Longrightarrow> obj_ok H (H ! r)"
  by (simp add: heap_ok_def list_all_length)

lemma get_ok: "obj_ok H ob \<Longrightarrow> value_ok H (get ob key)"
  by (auto simp: obj_ok_def get_def list_all_iff split: option.split dest!: map_of_SomeD)

lemma own_elements_ok: "kind_ok H k \<Longrightarrow> v \<in> set (own_elements k) \<Longrightarrow> value_ok H v"
  by (auto simp: kind_ok_def own_elements_def list_all_iff split: kind.splits)

lemma get_own:
  assumes "distinct (obj_keys ob)" and "(key, v) \<in> set (own_props ob)"
  shows "get ob key = v"
  using assms by (simp add: get_def all_props_def obj_keys_def)

lemma has_own_keys: "key \<in> set (obj_keys ob) \<Longrightarrow> has_own ob key"
  by (auto simp: has_own_def obj_keys_def map_add_def split: option.split dest: weak_map_of_SomeI)

end
