(* ===== verification/Js_Equal.thy ===== *)
theory Js_Equal
  imports Js_Values
begin

text \<open>
  The deep comparison \<open>eq\<close> behind Underscore's \<open>isEqual\<close>
  (\<open>site/assets/javascripts/lunr/wordcut.js\<close>, lines 5614 to 5707), on values over a heap that may
  hold cycles.  The two stacks of objects being compared are one list of pairs, the top first;
  \<open>None\<close> is the TypeError that two wrapped \<open>null\<close>s end in.
\<close>

section \<open>The comparison\<close>

fun kind_class :: "kind \<Rightarrow> ustr" where
  "kind_class (ArrayObj vs) = u ''Array''"
| "kind_class (ArgumentsObj vs) = u ''Arguments''"
| "kind_class ErrorObj = u ''Error''"
| "kind_class (FunctionObj i) = u ''Function''"
| "kind_class (StringObj s) = u ''String''"
| "kind_class (NumberObj n) = u ''Number''"
| "kind_class (BooleanObj b) = u ''Boolean''"
| "kind_class (DateObj t) = u ''Date''"
| "kind_class (RegExpObj s) = u ''RegExp''"
| "kind_class _ = u ''Object''"

fun class_name :: "heap \<Rightarrow> jv \<Rightarrow> ustr" where
  "class_name H Undefined = u ''Undefined''"
| "class_name H Null = u ''Null''"
| "class_name H (Bool b) = u ''Boolean''"
| "class_name H (Number n) = u ''Number''"
| "class_name H (String s) = u ''String''"
| "class_name H (Ref r) = kind_class (kind_of (H ! r))"

definition unwrap :: "heap \<Rightarrow> jv \<Rightarrow> jv" where
  "unwrap H v =
     (case v of Ref r \<Rightarrow> (case kind_of (H ! r) of WrapperObj w \<Rightarrow> w | _ \<Rightarrow> v) | _ \<Rightarrow> v)"

text \<open>What the values of the classes that are compared by value come to.\<close>

datatype contents_type = Text ustr | Num number | Moment number | Truth bool | Other

definition contents :: "heap \<Rightarrow> jv \<Rightarrow> contents_type" where
  "contents H v =
     (case v of
        String s \<Rightarrow> Text s
      | Number n \<Rightarrow> Num n
      | Bool b \<Rightarrow> Truth b
      | Ref r \<Rightarrow>
          (case kind_of (H ! r) of
             StringObj s \<Rightarrow> Text s | RegExpObj s \<Rightarrow> Text s | NumberObj n \<Rightarrow> Num n
           | DateObj t \<Rightarrow> Moment t | BooleanObj b \<Rightarrow> Truth b | _ \<Rightarrow> Other)
      | _ \<Rightarrow> Other)"

fun by_value :: "contents_type \<Rightarrow> contents_type \<Rightarrow> bool option" where
  "by_value (Text s) (Text t) = Some (s = t)"
| "by_value (Num x) (Num y) =
     Some (if x = NaN then y = NaN else if x = Whole 0 \<or> x = MinusZero then x = y else num_strict x y)"
| "by_value (Moment x) (Moment y) = Some (num_strict x y)"
| "by_value (Truth b) (Truth c) = Some (b = c)"
| "by_value _ _ = None"

definition is_array :: "heap \<Rightarrow> jv \<Rightarrow> bool" where
  "is_array H v \<longleftrightarrow> class_name H v = u ''Array''"

definition typeof_object :: "heap \<Rightarrow> jv \<Rightarrow> bool" where
  "typeof_object H v \<longleftrightarrow>
     (case v of Null \<Rightarrow> True
      | Ref r \<Rightarrow> (case kind_of (H ! r) of FunctionObj i \<Rightarrow> False | _ \<Rightarrow> True) | _ \<Rightarrow> False)"

text \<open>\<open>_.isFunction(c) && c instanceof c\<close>\<close>

definition own_instance :: "heap \<Rightarrow> jv \<Rightarrow> bool" where
  "own_instance H c \<longleftrightarrow> (case c of Ref r \<Rightarrow> kind_of (H ! r) = FunctionObj True | _ \<Rightarrow> False)"

definition ctors_differ :: "heap \<Rightarrow> nat \<Rightarrow> nat \<Rightarrow> bool" where
  "ctors_differ H r r' \<longleftrightarrow>
     (let aCtor = get (H ! r) (u ''constructor''); bCtor = get (H ! r') (u ''constructor'')
      in \<not> strict aCtor bCtor \<and> \<not> (own_instance H aCtor \<and> own_instance H bCtor) \<and>
         in_obj (u ''constructor'') (H ! r) \<and> in_obj (u ''constructor'') (H ! r'))"

text \<open>The comparison up to the stacks: decided, an exception, or two objects to go into.\<close>

datatype verdict = Decided bool | Thrown | Descend nat nat

definition eq_head :: "heap \<Rightarrow> jv \<Rightarrow> jv \<Rightarrow> verdict" where
  "eq_head H a b =
     (if strict a b then Decided (case a of Number x \<Rightarrow> b = Number x | _ \<Rightarrow> True)
      else if a = Undefined \<or> a = Null \<or> b = Undefined \<or> b = Null then Decided False
      else
        (let a' = unwrap H a; b' = unwrap H b in
         if class_name H a' \<noteq> class_name H b' then Decided False
         else
           (case by_value (contents H a') (contents H b') of
              Some r \<Rightarrow> Decided r
            | None \<Rightarrow>
                (case (a', b') of
                   (Ref r, Ref r') \<Rightarrow>
                     if is_array H a' then Descend r r'
                     else if \<not> typeof_object H a' \<or> \<not> typeof_object H b' then Decided False
                     else if ctors_differ H r r' then Decided False
                     else Descend r r'
                 | (Null, Null) \<Rightarrow> Thrown
                 | _ \<Rightarrow> Decided False))))"

text \<open>
  The pairs the loops compare, from the last to the first: \<open>None\<close> in a pair is a key \<open>b\<close> has not,
  no list is two lengths or numbers of keys that differ.
\<close>

definition items :: "heap \<Rightarrow> nat \<Rightarrow> nat \<Rightarrow> (jv \<times> jv option) list option" where
  "items H r r' =
     (case (kind_of (H ! r), kind_of (H ! r')) of
        (ArrayObj xs, ArrayObj ys) \<Rightarrow>
          if length xs = length ys then Some (rev (zip xs (map Some ys))) else None
      | _ \<Rightarrow>
          (let ks = obj_keys (H ! r) in
           if length (obj_keys (H ! r')) = length ks
           then Some (map (\<lambda>k. (get (H ! r) k, if has_own (H ! r') k then Some (get (H ! r') k) else None)) (rev ks))
           else None))"

definition unseen :: "heap \<Rightarrow> (nat \<times> nat) list \<Rightarrow> nat" where
  "unseen H st = card ({..<length H} - fst ` set st)"

lemma unseen_less: "map_of st r = None \<Longrightarrow> r < length H \<Longrightarrow> unseen H ((r, r') # st) < unseen H st"
  unfolding unseen_def map_of_eq_None_iff by (intro psubset_card_mono) auto

function (sequential)
  eq :: "heap \<Rightarrow> (nat \<times> nat) list \<Rightarrow> jv \<Rightarrow> jv \<Rightarrow> bool option" and
  eq_items :: "heap \<Rightarrow> (nat \<times> nat) list \<Rightarrow> (jv \<times> jv option) list \<Rightarrow> bool option" where
  "eq H st a b =
     (case eq_head H a b of
        Decided r \<Rightarrow> Some r
      | Thrown \<Rightarrow> None
      | Descend r r' \<Rightarrow>
          (case map_of st r of
             Some r'' \<Rightarrow> Some (r'' = r')
           | None \<Rightarrow>
               if length H \<le> r then None
               else (case items H r r' of None \<Rightarrow> Some False | Some ps \<Rightarrow> eq_items H ((r, r') # st) ps)))"
| "eq_items H st [] = Some True"
| "eq_items H st ((x, None) # ps) = Some False"
| "eq_items H st ((x, Some y) # ps) =
     (case eq H st x y of Some True \<Rightarrow> eq_items H st ps | res \<Rightarrow> res)"
  by pat_completeness auto

termination
  by (relation "inv_image (less_than <*lex*> less_than)
        (\<lambda>p. case p of Inl (H, st, a, b) \<Rightarrow> (unseen H st, 0) | Inr (H, st, ps) \<Rightarrow> (unseen H st, Suc (length ps)))")
     (auto intro: unseen_less)

declare eq.simps [simp del]

definition isEqual :: "heap \<Rightarrow> jv \<Rightarrow> jv \<Rightarrow> bool option" where
  "isEqual H a b = eq H [] a b"

section \<open>What equality means\<close>

text \<open>
  Two values are alike when no observation tells them apart: the same primitive, two values of a
  class that is compared by content, arrays of alike elements, or objects of one class and family
  with as many keys and alike values under each.  Being coinductive, the relation also holds between
  cyclic values that unfold to the same infinite tree.
\<close>

definition same_primitive :: "jv \<Rightarrow> jv \<Rightarrow> bool" where
  "same_primitive a b \<longleftrightarrow> a = b \<and> a \<noteq> Number NaN"

coinductive alike :: "heap \<Rightarrow> jv \<Rightarrow> jv \<Rightarrow> bool" for H where
  Same: "same_primitive a b \<Longrightarrow> alike H a b"
| Content: "class_name H (unwrap H a) = class_name H (unwrap H b) \<Longrightarrow>
    by_value (contents H (unwrap H a)) (contents H (unwrap H b)) = Some True \<Longrightarrow> alike H a b"
| Arrays: "unwrap H a = Ref r \<Longrightarrow> unwrap H b = Ref r' \<Longrightarrow>
    kind_of (H ! r) = ArrayObj xs \<Longrightarrow> kind_of (H ! r') = ArrayObj ys \<Longrightarrow>
    list_all2 (alike H) xs ys \<Longrightarrow> alike H a b"
| Objects: "unwrap H a = Ref r \<Longrightarrow> unwrap H b = Ref r' \<Longrightarrow>
    class_name H (Ref r) = class_name H (Ref r') \<Longrightarrow> \<not> ctors_differ H r r' \<Longrightarrow>
    length (obj_keys (H ! r)) = length (obj_keys (H ! r')) \<Longrightarrow>
    (\<forall>k \<in> set (obj_keys (H ! r)). has_own (H ! r') k \<and> alike H (get (H ! r) k) (get (H ! r') k)) \<Longrightarrow>
    alike H a b"

text \<open>What a comparison that succeeds has shown of a pair, given the pairs \<open>S\<close> it relied on.\<close>

definition linked :: "heap \<Rightarrow> (nat \<times> nat) set \<Rightarrow> jv \<Rightarrow> jv \<Rightarrow> bool" where
  "linked H S a b \<longleftrightarrow>
     (case eq_head H a b of Decided r \<Rightarrow> r | Thrown \<Rightarrow> False | Descend r r' \<Rightarrow> (r, r') \<in> S)"

definition item_linked :: "heap \<Rightarrow> (nat \<times> nat) set \<Rightarrow> jv \<times> jv option \<Rightarrow> bool" where
  "item_linked H S p \<longleftrightarrow> (case p of (x, Some y) \<Rightarrow> linked H S x y | _ \<Rightarrow> False)"

definition expands :: "heap \<Rightarrow> (nat \<times> nat) set \<Rightarrow> nat \<times> nat \<Rightarrow> bool" where
  "expands H S p \<longleftrightarrow> (case items H (fst p) (snd p) of None \<Rightarrow> False | Some ps \<Rightarrow> list_all (item_linked H S) ps)"

lemma linked_mono: "linked H S a b \<Longrightarrow> S \<subseteq> S' \<Longrightarrow> linked H S' a b"
  by (auto simp: linked_def split: verdict.splits)

lemma item_linked_mono: "item_linked H S p \<Longrightarrow> S \<subseteq> S' \<Longrightarrow> item_linked H S' p"
  by (auto simp: item_linked_def intro: linked_mono split: prod.splits option.splits)

lemma items_linked_mono: "list_all (item_linked H S) ps \<Longrightarrow> S \<subseteq> S' \<Longrightarrow> list_all (item_linked H S') ps"
  by (auto simp: list_all_iff intro: item_linked_mono)

lemma expands_mono: "expands H S p \<Longrightarrow> S \<subseteq> S' \<Longrightarrow> expands H S' p"
  by (auto simp: expands_def intro: items_linked_mono split: option.splits)

lemma eq_collects:
  "eq H st a b = Some True \<Longrightarrow>
     \<exists>Q. linked H (set st \<union> Q) a b \<and> (\<forall>p \<in> Q. expands H (set st \<union> Q) p)"
  "eq_items H st ps = Some True \<Longrightarrow>
     \<exists>Q. list_all (item_linked H (set st \<union> Q)) ps \<and> (\<forall>p \<in> Q. expands H (set st \<union> Q) p)"
proof (induction H st a b and H st ps rule: eq_eq_items.induct)
  case (1 H st a b)
  show ?case
  proof (cases "eq_head H a b")
    case (Decided d)
    with "1.prems" have "linked H (set st \<union> {}) a b" by (simp add: linked_def eq.simps)
    then show ?thesis by blast
  next
    case Thrown
    with "1.prems" show ?thesis by (simp add: eq.simps)
  next
    case (Descend r r')
    show ?thesis
    proof (cases "map_of st r")
      case (Some r'')
      with Descend "1.prems" have "(r, r') \<in> set st" by (simp add: eq.simps map_of_SomeD)
      with Descend have "linked H (set st \<union> {}) a b" by (simp add: linked_def)
      then show ?thesis by blast
    next
      case None
      with Descend "1.prems" obtain ps where
        ps: "items H r r' = Some ps" "\<not> length H \<le> r" "eq_items H ((r, r') # st) ps = Some True"
        by (auto simp: eq.simps split: if_splits option.splits)
      from "1.IH" [OF Descend None ps(2,1,3)] obtain Q where
        Q: "list_all (item_linked H (set ((r, r') # st) \<union> Q)) ps"
          "\<forall>p \<in> Q. expands H (set ((r, r') # st) \<union> Q) p" by blast
      have "set ((r, r') # st) \<union> Q = set st \<union> insert (r, r') Q" by auto
      with Q ps(1) have "\<forall>p \<in> insert (r, r') Q. expands H (set st \<union> insert (r, r') Q) p"
        by (simp add: expands_def)
      moreover have "linked H (set st \<union> insert (r, r') Q) a b" using Descend by (simp add: linked_def)
      ultimately show ?thesis by blast
    qed
  qed
next
  case (2 H st)
  show ?case by (intro exI [of _ "{}"]) simp
next
  case (3 H st x ps)
  then show ?case by simp
next
  case (4 H st x y ps)
  then have e: "eq H st x y = Some True" "eq_items H st ps = Some True"
    by (auto split: option.splits bool.splits)
  from "4.IH"(1) [OF e(1)] obtain Q where
    Q: "linked H (set st \<union> Q) x y" "\<forall>p \<in> Q. expands H (set st \<union> Q) p" by blast
  from "4.IH"(2) [OF e(1) _ e(2)] obtain Q' where
    Q': "list_all (item_linked H (set st \<union> Q')) ps" "\<forall>p \<in> Q'. expands H (set st \<union> Q') p" by blast
  have "list_all (item_linked H (set st \<union> (Q \<union> Q'))) ((x, Some y) # ps)"
    using linked_mono [OF Q(1)] items_linked_mono [OF Q'(1)] by (simp add: item_linked_def sup.coboundedI2 le_supI1)
  moreover have "\<forall>p \<in> Q \<union> Q'. expands H (set st \<union> (Q \<union> Q')) p"
    using Q(2) Q'(2) by (auto intro: expands_mono)
  ultimately show ?case by blast
qed

lemma strict_same: "strict a b \<Longrightarrow> (case a of Number x \<Rightarrow> b = Number x | _ \<Rightarrow> True) \<Longrightarrow> same_primitive a b"
  by (cases a; cases b) (auto simp: same_primitive_def num_strict_refl)

lemma eq_head_Decided:
  "eq_head H a b = Decided True \<Longrightarrow> same_primitive a b \<or>
     class_name H (unwrap H a) = class_name H (unwrap H b) \<and>
     by_value (contents H (unwrap H a)) (contents H (unwrap H b)) = Some True"
  using strict_same [of a b]
  by (auto simp: eq_head_def Let_def split: if_splits option.splits jv.splits)

lemma eq_head_Descend:
  "eq_head H a b = Descend r r' \<Longrightarrow> unwrap H a = Ref r \<and> unwrap H b = Ref r' \<and>
     class_name H (Ref r) = class_name H (Ref r') \<and> (is_array H (Ref r) \<or> \<not> ctors_differ H r r')"
  by (auto simp: eq_head_def Let_def split: if_splits option.splits jv.splits)

lemma kind_class_Array: "kind_class k = u ''Array'' \<longleftrightarrow> (\<exists>vs. k = ArrayObj vs)"
  by (cases k) (simp_all add: u_def)

lemma items_Array:
  assumes "kind_of (H ! r) = ArrayObj xs" and "kind_of (H ! r') = ArrayObj ys" and "expands H S (r, r')"
  shows "list_all2 (linked H S) xs ys"
proof -
  from assms have len: "length xs = length ys"
    by (auto simp: expands_def items_def split: if_splits)
  have "list_all (item_linked H S) (zip xs (map Some ys))"
    using assms len by (simp add: expands_def items_def list_all_iff)
  then show ?thesis
    using len by (auto simp: list_all2_conv_all_nth list_all_length item_linked_def)
qed

lemma items_Object:
  assumes "\<not> is_array H (Ref r)" and "expands H S (r, r')"
  shows "length (obj_keys (H ! r)) = length (obj_keys (H ! r'))"
    and "\<forall>k \<in> set (obj_keys (H ! r)). has_own (H ! r') k \<and> linked H S (get (H ! r) k) (get (H ! r') k)"
proof -
  let ?pair = "\<lambda>k. (get (H ! r) k, if has_own (H ! r') k then Some (get (H ! r') k) else None)"
  have "\<nexists>vs. kind_of (H ! r) = ArrayObj vs" using assms(1) by (auto simp: is_array_def)
  then have "items H r r' = (if length (obj_keys (H ! r')) = length (obj_keys (H ! r))
      then Some (map ?pair (rev (obj_keys (H ! r)))) else None)"
    by (cases "kind_of (H ! r)") (auto simp: items_def Let_def)
  with assms(2) have "length (obj_keys (H ! r)) = length (obj_keys (H ! r')) \<and>
      list_all (item_linked H S) (map ?pair (rev (obj_keys (H ! r))))"
    by (auto simp: expands_def split: if_splits)
  then show "length (obj_keys (H ! r)) = length (obj_keys (H ! r'))"
    and "\<forall>k \<in> set (obj_keys (H ! r)). has_own (H ! r') k \<and> linked H S (get (H ! r) k) (get (H ! r') k)"
    by (auto simp: list_all_iff item_linked_def split: if_splits)
qed

lemma closed_alike:
  assumes closed: "\<forall>p \<in> Q. expands H Q p" and "linked H Q a b"
  shows "alike H a b"
  using assms(2)
proof (coinduction arbitrary: a b)
  case alike
  show ?case
  proof (cases "eq_head H a b")
    case (Decided d)
    with alike have "eq_head H a b = Decided True" by (simp add: linked_def)
    from eq_head_Decided [OF this] show ?thesis by blast
  next
    case Thrown
    with alike show ?thesis by (simp add: linked_def)
  next
    case (Descend r r')
    note facts = eq_head_Descend [OF Descend]
    from Descend alike have "(r, r') \<in> Q" by (simp add: linked_def)
    with closed have ex: "expands H Q (r, r')" by blast
    show ?thesis
    proof (cases "is_array H (Ref r)")
      case True
      with facts obtain xs ys where k: "kind_of (H ! r) = ArrayObj xs" "kind_of (H ! r') = ArrayObj ys"
        by (auto simp: is_array_def kind_class_Array)
      have "list_all2 (\<lambda>v w. (\<exists>a b. v = a \<and> w = b \<and> linked H Q a b) \<or> alike H v w) xs ys"
        using items_Array [OF k ex] by (rule list_all2_mono) simp
      with facts k show ?thesis by blast
    next
      case False
      with facts have "\<not> ctors_differ H r r'" by simp
      with facts items_Object [OF False ex] show ?thesis by blast
    qed
  qed
qed

lemma eq_alike: "eq H [] a b = Some True \<Longrightarrow> alike H a b"
  using eq_collects(1) [of H "[]" a b] closed_alike by fastforce

section \<open>When it returns\<close>

text \<open>No wrapped object holds \<open>null\<close>, the one value whose comparison reads a property of it.\<close>

definition no_wrapped_null :: "heap \<Rightarrow> bool" where
  "no_wrapped_null H \<longleftrightarrow> list_all (\<lambda>ob. kind_of ob \<noteq> WrapperObj Null) H"

lemma unwrap_ok: "heap_ok H \<Longrightarrow> value_ok H v \<Longrightarrow> value_ok H (unwrap H v)"
  by (auto simp: unwrap_def obj_ok_def kind_ok_def dest!: heap_okD split: jv.splits kind.splits)

lemma unwrap_not_null: "no_wrapped_null H \<Longrightarrow> value_ok H v \<Longrightarrow> unwrap H v = Null \<Longrightarrow> v = Null"
  by (auto simp: unwrap_def no_wrapped_null_def list_all_length split: jv.splits kind.splits)

lemma eq_head_not_Thrown:
  assumes "no_wrapped_null H" and "value_ok H a"
  shows "eq_head H a b \<noteq> Thrown"
proof
  assume t: "eq_head H a b = Thrown"
  then have "unwrap H a = Null" "a \<noteq> Null"
    by (auto simp: eq_head_def Let_def split: if_splits option.splits jv.splits)
  with unwrap_not_null [OF assms] show False by blast
qed

lemma items_ok:
  assumes "heap_ok H" and "r < length H" and "r' < length H" and "items H r r' = Some ps"
  shows "list_all (\<lambda>(x, y). value_ok H x \<and> (case y of None \<Rightarrow> True | Some y \<Rightarrow> value_ok H y)) ps"
proof -
  have o: "obj_ok H (H ! r)" "obj_ok H (H ! r')" using heap_okD assms(1-3) by blast+
  have "value_ok H x" if "kind_of (H ! i) = ArrayObj vs" "x \<in> set vs" "obj_ok H (H ! i)" for i vs x
    using that by (auto simp: obj_ok_def kind_ok_def list_all_iff)
  then have z: "value_ok H x \<and> value_ok H y"
    if "kind_of (H ! r) = ArrayObj xs" "kind_of (H ! r') = ArrayObj ys" "(x, y) \<in> set (zip xs ys)" for xs ys x y
    using that o by (meson set_zip_leftD set_zip_rightD)
  show ?thesis
    using assms(4) get_ok [OF o(1)] get_ok [OF o(2)] z
    by (auto simp: items_def Let_def list_all_iff zip_map2 split: kind.splits if_splits)
qed

lemma eq_returns:
  "heap_ok H \<Longrightarrow> no_wrapped_null H \<Longrightarrow> value_ok H a \<Longrightarrow> value_ok H b \<Longrightarrow> eq H st a b \<noteq> None"
  "heap_ok H \<Longrightarrow> no_wrapped_null H \<Longrightarrow>
     list_all (\<lambda>(x, y). value_ok H x \<and> (case y of None \<Rightarrow> True | Some y \<Rightarrow> value_ok H y)) ps \<Longrightarrow>
     eq_items H st ps \<noteq> None"
proof (induction H st a b and H st ps rule: eq_eq_items.induct)
  case (1 H st a b)
  show ?case
  proof (cases "eq_head H a b")
    case (Descend r r')
    note facts = eq_head_Descend [OF Descend]
    with unwrap_ok [OF "1.prems"(1)] "1.prems"(3,4) have r: "r < length H" "r' < length H"
      by (metis value_ok_simps(6))+
    show ?thesis
    proof (cases "map_of st r")
      case None
      show ?thesis
      proof (cases "items H r r'")
        case (Some ps)
        from "1.IH" [OF Descend None _ Some "1.prems"(1,2) items_ok [OF "1.prems"(1) r Some]] r
        show ?thesis using Descend None Some by (simp add: eq.simps [of H st a b])
      qed (use Descend None r in \<open>simp add: eq.simps [of H st a b]\<close>)
    qed (use Descend in \<open>simp add: eq.simps [of H st a b]\<close>)
  qed (use eq_head_not_Thrown [OF "1.prems"(2,3)] in \<open>simp_all add: eq.simps [of H st a b]\<close>)
next
  case (4 H st x y ps)
  then show ?case by (auto split: option.split bool.split)
qed simp_all

section \<open>Properties\<close>


text \<open>A cycle of two objects and one that points to itself, with equal names.\<close>

definition rings :: heap where
  "rings =
     (let ring = (\<lambda>r. \<lparr>kind_of = PlainObj, own = [(u ''n'', Number (Whole 1)), (u ''link'', Ref r)],
                      hidden = [], inherited = []\<rparr>)
      in [ring 1, ring 0, ring 2])"




lemma rings_facts:
  "list_all (\<lambda>i. unwrap rings (Ref i) = Ref i \<and> class_name rings (Ref i) = u ''Object'' \<and>
     obj_keys (rings ! i) = [u ''n'', u ''link''] \<and> has_own (rings ! i) (u ''n'') \<and> has_own (rings ! i) (u ''link'') \<and>
     get (rings ! i) (u ''n'') = Number (Whole 1) \<and> \<not> ctors_differ rings 2 i) [0, 1, 2]"
  "get (rings ! 0) (u ''link'') = Ref 1" "get (rings ! 1) (u ''link'') = Ref 0" "get (rings ! 2) (u ''link'') = Ref 2"
  by code_simp+

lemma rings_alike: "a = Ref 2 \<and> (b = Ref 0 \<or> b = Ref 1) \<Longrightarrow> alike rings a b"
proof (coinduction arbitrary: a b)
  case alike
  have one: "alike rings (Number (Whole 1)) (Number (Whole 1))"
    by (rule Same) (simp add: same_primitive_def)
  obtain i where i: "b = Ref i" "i = 0 \<or> i = 1" using alike by blast
  have "unwrap rings a = Ref 2" "unwrap rings b = Ref i" "class_name rings (Ref 2) = class_name rings (Ref i)"
      "\<not> ctors_differ rings 2 i" "length (obj_keys (rings ! 2)) = length (obj_keys (rings ! i))"
    using rings_facts(1) i alike by auto
  moreover have "\<forall>k \<in> set (obj_keys (rings ! 2)). has_own (rings ! i) k \<and>
      ((\<exists>a b. get (rings ! 2) k = a \<and> get (rings ! i) k = b \<and> a = Ref 2 \<and> (b = Ref 0 \<or> b = Ref 1)) \<or>
       alike rings (get (rings ! 2) k) (get (rings ! i) k))"
    using rings_facts i one by auto
  ultimately show ?case by blast
qed

text \<open>
  \<open>isEqual\<close> is not symmetric on cyclic values: an object that links to itself and a
  cycle of two such objects are alike, but only one order of the arguments returns true.
\<close>
theorem isEqual_asymmetric:
  "isEqual rings (Ref 2) (Ref 0) = Some False \<and> isEqual rings (Ref 0) (Ref 2) = Some True \<and>
   alike rings (Ref 2) (Ref 0)"
proof (intro conjI)
  show "isEqual rings (Ref 2) (Ref 0) = Some False" by code_simp
  show "isEqual rings (Ref 0) (Ref 2) = Some True" by code_simp
  show "alike rings (Ref 2) (Ref 0)" by (rule rings_alike) simp
qed

end
