(* ===== verification/Js_Objects.thy ===== *)
theory Js_Objects
  imports Js_Equal
begin

text \<open>
  Underscore's functions on objects (\<open>site/assets/javascripts/lunr/wordcut.js\<close>, lines 4621 to
  4652, 5449 to 5611 and 5717 to 5834), on values over a heap.

  A function that builds a plain object returns its own properties in order; those that write to
  an object they are given return the new heap.  The names a program gives to properties are no array
  indices and not \<open>__proto__\<close>, so that a new property comes last and is an own one, and the
  objects written to have no elements.  A callback is a function of the value and its key.
\<close>

section \<open>Reading\<close>

definition js_keys_of :: "heap \<Rightarrow> jv \<Rightarrow> ustr list" where
  "js_keys_of H v = (case v of Ref r \<Rightarrow> obj_keys (H ! r) | _ \<Rightarrow> [])"

definition js_allKeys :: "heap \<Rightarrow> jv \<Rightarrow> ustr list" where
  "js_allKeys H v = (case v of Ref r \<Rightarrow> obj_all_keys (H ! r) | _ \<Rightarrow> [])"

text \<open>
  \<open>obj[key]\<close> on any value that has properties; \<open>boxed\<close> are those of the object that stands in
  for a primitive.
\<close>

definition read :: "(jv \<Rightarrow> props) \<Rightarrow> heap \<Rightarrow> jv \<Rightarrow> ustr \<Rightarrow> jv" where
  "read boxed H v key =
     (case v of
        Ref r \<Rightarrow> get (H ! r) key
      | _ \<Rightarrow> (case map_of (boxed v) key of None \<Rightarrow> Undefined | Some w \<Rightarrow> w))"

definition has_key :: "(jv \<Rightarrow> props) \<Rightarrow> heap \<Rightarrow> jv \<Rightarrow> ustr \<Rightarrow> bool" where
  "has_key boxed H v key =
     (case v of Ref r \<Rightarrow> in_obj key (H ! r) | _ \<Rightarrow> map_of (boxed v) key \<noteq> None)"

definition nullish :: "jv \<Rightarrow> bool" where
  "nullish v \<longleftrightarrow> v = Undefined \<or> v = Null"

text \<open>\<open>_.has\<close>, \<open>_.property\<close> and \<open>_.isEmpty\<close>.\<close>

definition js_has :: "heap \<Rightarrow> jv \<Rightarrow> ustr \<Rightarrow> bool" where
  "js_has H v key = (case v of Ref r \<Rightarrow> has_own (H ! r) key | _ \<Rightarrow> False)"

definition js_property :: "(jv \<Rightarrow> props) \<Rightarrow> heap \<Rightarrow> ustr \<Rightarrow> jv \<Rightarrow> jv" where
  "js_property boxed H key v = (if nullish v then Undefined else read boxed H v key)"

definition js_isEmpty :: "heap \<Rightarrow> jv \<Rightarrow> bool" where
  "js_isEmpty H v =
     (if nullish v then True
      else
        (case v of
           String s \<Rightarrow> s = []
         | Ref r \<Rightarrow>
             (case kind_of (H ! r) of
                ArrayObj vs \<Rightarrow> vs = []
              | ArgumentsObj vs \<Rightarrow> vs = []
              | StringObj s \<Rightarrow> s = []
              | _ \<Rightarrow> obj_keys (H ! r) = [])
         | _ \<Rightarrow> True))"

definition js_values :: "heap \<Rightarrow> jv \<Rightarrow> jv list" where
  "js_values H v = (case v of Ref r \<Rightarrow> map (get (H ! r)) (js_keys_of H v) | _ \<Rightarrow> [])"

definition js_pairs :: "heap \<Rightarrow> jv \<Rightarrow> (ustr \<times> jv) list" where
  "js_pairs H v = (case v of Ref r \<Rightarrow> map (\<lambda>k. (k, get (H ! r) k)) (js_keys_of H v) | _ \<Rightarrow> [])"

definition js_findKey :: "heap \<Rightarrow> jv \<Rightarrow> (jv \<Rightarrow> ustr \<Rightarrow> bool) \<Rightarrow> ustr option" where
  "js_findKey H v predicate =
     (case v of Ref r \<Rightarrow> find (\<lambda>k. predicate (get (H ! r) k) k) (js_keys_of H v) | _ \<Rightarrow> None)"

definition js_functions :: "heap \<Rightarrow> jv \<Rightarrow> ustr list" where
  "js_functions H v =
     (case v of
        Ref r \<Rightarrow> sort (filter (\<lambda>k. case get (H ! r) k of
            Ref f \<Rightarrow> (case kind_of (H ! f) of FunctionObj i \<Rightarrow> True | _ \<Rightarrow> False) | _ \<Rightarrow> False) (obj_all_keys (H ! r)))
      | _ \<Rightarrow> [])"

definition js_isMatch :: "(jv \<Rightarrow> props) \<Rightarrow> heap \<Rightarrow> jv \<Rightarrow> jv \<Rightarrow> bool" where
  "js_isMatch boxed H ob attrs =
     (let keys = js_keys_of H attrs in
      if nullish ob then keys = []
      else list_all (\<lambda>k. strict (read boxed H attrs k) (read boxed H ob k) \<and> has_key boxed H ob k) keys)"

section \<open>Building\<close>

definition put :: "ustr \<Rightarrow> jv \<Rightarrow> obj \<Rightarrow> obj" where
  "put key v ob =
     (if map_of (hidden ob) key \<noteq> None then ob\<lparr>hidden := AList.update key v (hidden ob)\<rparr>
      else ob\<lparr>own := AList.update key v (own ob)\<rparr>)"

definition js_mapObject :: "heap \<Rightarrow> jv \<Rightarrow> (jv \<Rightarrow> ustr \<Rightarrow> jv) \<Rightarrow> props" where
  "js_mapObject H v iteratee =
     (case v of
        Ref r \<Rightarrow> fold (\<lambda>k ps. AList.update k (iteratee (get (H ! r) k) k) ps) (js_keys_of H v) []
      | _ \<Rightarrow> [])"

text \<open>\<open>to_str\<close> is the conversion of a value to the name of a property.\<close>

definition js_invert :: "(jv \<Rightarrow> ustr) \<Rightarrow> heap \<Rightarrow> jv \<Rightarrow> (ustr \<times> ustr) list" where
  "js_invert to_str H v =
     (case v of
        Ref r \<Rightarrow> fold (\<lambda>k ps. AList.update (to_str (get (H ! r) k)) k ps) (js_keys_of H v) []
      | _ \<Rightarrow> [])"

text \<open>\<open>pick\<close> with a function, and with the flattened names.\<close>

definition js_pick_by :: "(jv \<Rightarrow> props) \<Rightarrow> heap \<Rightarrow> jv \<Rightarrow> (jv \<Rightarrow> ustr \<Rightarrow> bool) \<Rightarrow> props" where
  "js_pick_by boxed H ob iteratee =
     (if nullish ob then []
      else fold (\<lambda>k ps. if iteratee (read boxed H ob k) k then AList.update k (read boxed H ob k) ps else ps)
             (js_allKeys H ob) [])"

definition js_pick :: "(jv \<Rightarrow> props) \<Rightarrow> heap \<Rightarrow> jv \<Rightarrow> ustr list \<Rightarrow> props" where
  "js_pick boxed H ob keys =
     (if nullish ob then []
      else fold (\<lambda>k ps. if has_key boxed H ob k then AList.update k (read boxed H ob k) ps else ps) keys [])"

definition js_omit_by :: "(jv \<Rightarrow> props) \<Rightarrow> heap \<Rightarrow> jv \<Rightarrow> (jv \<Rightarrow> ustr \<Rightarrow> bool) \<Rightarrow> props" where
  "js_omit_by boxed H ob iteratee = js_pick_by boxed H ob (\<lambda>v k. \<not> iteratee v k)"

definition js_omit :: "(jv \<Rightarrow> props) \<Rightarrow> heap \<Rightarrow> jv \<Rightarrow> ustr list \<Rightarrow> props" where
  "js_omit boxed H ob keys = js_pick_by boxed H ob (\<lambda>v k. k \<notin> set keys)"

section \<open>Assigning\<close>

definition assign_key :: "(jv \<Rightarrow> props) \<Rightarrow> bool \<Rightarrow> nat \<Rightarrow> jv \<Rightarrow> ustr \<Rightarrow> heap \<Rightarrow> heap" where
  "assign_key boxed undefinedOnly r source key H =
     (if \<not> undefinedOnly \<or> get (H ! r) key = Undefined
      then H[r := put key (read boxed H source key) (H ! r)] else H)"

definition assign_source ::
    "(jv \<Rightarrow> props) \<Rightarrow> (heap \<Rightarrow> jv \<Rightarrow> ustr list) \<Rightarrow> bool \<Rightarrow> nat \<Rightarrow> jv \<Rightarrow> heap \<Rightarrow> heap" where
  "assign_source boxed keysFunc undefinedOnly r source H =
     fold (assign_key boxed undefinedOnly r source) (keysFunc H source) H"

definition createAssigner ::
    "(jv \<Rightarrow> props) \<Rightarrow> (heap \<Rightarrow> jv \<Rightarrow> ustr list) \<Rightarrow> bool \<Rightarrow> heap \<Rightarrow> jv \<Rightarrow> jv list \<Rightarrow> heap" where
  "createAssigner boxed keysFunc undefinedOnly H ob sources =
     (case ob of
        Ref r \<Rightarrow> fold (assign_source boxed keysFunc undefinedOnly r) sources H
      | _ \<Rightarrow> H)"

definition js_extend :: "(jv \<Rightarrow> props) \<Rightarrow> heap \<Rightarrow> jv \<Rightarrow> jv list \<Rightarrow> heap" where
  "js_extend boxed = createAssigner boxed js_allKeys False"

definition js_extendOwn :: "(jv \<Rightarrow> props) \<Rightarrow> heap \<Rightarrow> jv \<Rightarrow> jv list \<Rightarrow> heap" where
  "js_extendOwn boxed = createAssigner boxed js_keys_of False"

definition js_defaults :: "(jv \<Rightarrow> props) \<Rightarrow> heap \<Rightarrow> jv \<Rightarrow> jv list \<Rightarrow> heap" where
  "js_defaults boxed = createAssigner boxed js_allKeys True"

text \<open>A new plain object at the end of the heap; \<open>proto\<close> is what it inherits.\<close>

definition alloc :: "kind \<Rightarrow> props \<Rightarrow> (ustr \<times> jv \<times> bool) list \<Rightarrow> heap \<Rightarrow> heap \<times> jv" where
  "alloc k ps proto H = (H @ [\<lparr>kind_of = k, own = ps, hidden = [], inherited = proto\<rparr>], Ref (length H))"

definition js_clone ::
    "(jv \<Rightarrow> props) \<Rightarrow> (ustr \<times> jv \<times> bool) list \<Rightarrow> (ustr \<times> jv \<times> bool) list \<Rightarrow> heap \<Rightarrow> jv \<Rightarrow> heap \<times> jv" where
  "js_clone boxed obj_proto array_proto H v =
     (case v of
        Ref r \<Rightarrow>
          (case kind_of (H ! r) of
             ArrayObj vs \<Rightarrow> alloc (ArrayObj vs) [] array_proto H
           | _ \<Rightarrow> (let (H1, v1) = alloc PlainObj [] obj_proto H in (js_extend boxed H1 v1 [v], v1)))
      | _ \<Rightarrow> (H, v))"

text \<open>\<open>_.matcher\<close>: the test keeps a copy of the attributes, made when it is built.\<close>

definition js_matcher :: "(jv \<Rightarrow> props) \<Rightarrow> (ustr \<times> jv \<times> bool) list \<Rightarrow> heap \<Rightarrow> jv \<Rightarrow> heap \<times> jv" where
  "js_matcher boxed obj_proto H attrs =
     (let (H1, v1) = alloc PlainObj [] obj_proto H in (js_extendOwn boxed H1 v1 [attrs], v1))"

section \<open>Reading back\<close>

lemma get_put:
  assumes "own_elements (kind_of ob) = []" and "fst ` set (own ob) \<inter> fst ` set (hidden ob) = {}"
  shows "get (put k v ob) key = (if key = k then v else get ob key)"
proof (cases "map_of (hidden ob) k")
  case None
  then show ?thesis using assms(1)
    by (simp add: put_def get_def all_props_def own_props_def map_add_def update_conv split: option.splits)
next
  case (Some w)
  then have "map_of (own ob) k = None"
    using assms(2) by (force simp: map_of_eq_None_iff dest: map_of_SomeD)
  with Some show ?thesis using assms(1)
    by (auto simp: put_def get_def all_props_def own_props_def map_add_def update_conv split: option.splits)
qed

text \<open>Assigning to an object without hidden properties touches its own properties only.\<close>

lemma assign_plain:
  assumes "s < length H" and "hidden ob = []"
  shows "fold (assign_key boxed False (length H) (Ref s)) ks (H @ [ob]) =
    H @ [ob\<lparr>own := fold (\<lambda>k. AList.update k (get (H ! s) k)) ks (own ob)\<rparr>]"
  using assms(2)
proof (induction ks arbitrary: ob)
  case (Cons k ks)
  have "assign_key boxed False (length H) (Ref s) k (H @ [ob]) =
      H @ [ob\<lparr>own := AList.update k (get (H ! s) k) (own ob)\<rparr>]"
    using assms(1) Cons.prems by (simp add: assign_key_def read_def put_def nth_append)
  with Cons.IH [of "ob\<lparr>own := AList.update k (get (H ! s) k) (own ob)\<rparr>"] Cons.prems show ?case by simp
qed simp

section \<open>Copies are equal\<close>

lemma eq_self: "eq H st x x = Some True"
proof (cases "x = Number NaN")
  case True
  then show ?thesis by (simp add: eq.simps eq_head_def unwrap_def contents_def)
next
  case False
  then show ?thesis by (cases x) (simp_all add: eq.simps eq_head_def strict_refl)
qed

lemma eq_items_same: "list_all (\<lambda>(x, y). y = Some x) ps \<Longrightarrow> eq_items H st ps = Some True"
  by (induction ps) (auto simp: eq_self)

text \<open>An object of the kind \<open>_.clone\<close> copies faithfully: it has what a new object has, and its own
  enumerable properties.\<close>

definition copyable :: "(ustr \<times> jv \<times> bool) list \<Rightarrow> obj \<Rightarrow> bool" where
  "copyable proto ob \<longleftrightarrow>
     (case kind_of ob of
        ArrayObj vs \<Rightarrow> True
      | PlainObj \<Rightarrow> hidden ob = [] \<and> inherited ob = proto \<and> list_all (\<lambda>(k, v, e). \<not> e) proto \<and>
          distinct (map fst (own ob)) \<and> get ob (u ''constructor'') \<noteq> Number NaN
      | _ \<Rightarrow> False)"

lemma clone_plain:
  assumes "r < length H" and "kind_of (H ! r) = PlainObj" and "copyable proto (H ! r)"
  shows "js_clone boxed proto ap H (Ref r) =
    (H @ [\<lparr>kind_of = PlainObj, own = own (H ! r), hidden = [], inherited = proto\<rparr>], Ref (length H))"
proof -
  let ?new = "\<lparr>kind_of = PlainObj, own = [], hidden = [], inherited = proto\<rparr>"
  have c: "hidden (H ! r) = []" "inherited (H ! r) = proto" "list_all (\<lambda>(k, v, e). \<not> e) proto"
      "distinct (map fst (own (H ! r)))"
    using assms(2,3) by (auto simp: copyable_def)
  have own: "own_props (H ! r) = own (H ! r)"
    using assms(2) by (simp add: own_props_def own_elements_def)
  have "[k. (k, v, e) \<leftarrow> proto, e \<and> P k] = []" for P
    using c(3) by (induction proto) auto
  then have keys: "obj_all_keys (H ! r) = map fst (own (H ! r))"
    using c(2) by (simp add: obj_all_keys_def obj_keys_def own Let_def)
  have "map (\<lambda>k. (k, get (H ! r) k)) (map fst (own (H ! r))) = own (H ! r)"
  proof -
    have "(fst p, get (H ! r) (fst p)) = p" if "p \<in> set (own (H ! r))" for p
      using get_own [of "H ! r" "fst p" "snd p"] that c(4) by (simp add: obj_keys_def own)
    then show ?thesis by (simp add: map_idI)
  qed
  then have "fold (\<lambda>k. AList.update k (get (H ! r) k)) (map fst (own (H ! r))) [] = own (H ! r)"
    using fold_update_new [OF c(4), of "[]" "get (H ! r)"] by simp
  with assign_plain [OF assms(1), of ?new boxed "map fst (own (H ! r))"] show ?thesis
    using assms(1,2)
    by (simp add: js_clone_def alloc_def js_extend_def createAssigner_def assign_source_def js_allKeys_def keys nth_append)
qed

lemma clone_array:
  "kind_of (H ! r) = ArrayObj vs \<Longrightarrow> js_clone boxed proto ap H (Ref r) =
    (H @ [\<lparr>kind_of = ArrayObj vs, own = [], hidden = [], inherited = ap\<rparr>], Ref (length H))"
  by (simp add: js_clone_def alloc_def)

lemma copy_equal_array:
  assumes "r < length H" and "kind_of (H ! r) = ArrayObj vs" and "kind_of new = ArrayObj vs"
  shows "isEqual (H @ [new]) (Ref r) (Ref (length H)) = Some True"
proof -
  let ?H = "H @ [new]"
  have k: "kind_of (?H ! r) = ArrayObj vs" "kind_of (?H ! length H) = ArrayObj vs"
    using assms by (simp_all add: nth_append)
  have "eq_head ?H (Ref r) (Ref (length H)) = Descend r (length H)"
    using k assms(1) by (simp add: eq_head_def unwrap_def contents_def is_array_def Let_def)
  moreover have "items ?H r (length H) = Some (rev (zip vs (map Some vs)))"
    using k by (simp add: items_def)
  moreover have "eq_items ?H [(r, length H)] (rev (zip vs (map Some vs))) = Some True"
    by (rule eq_items_same) (auto simp: list_all_iff in_set_zip)
  ultimately show ?thesis using assms(1) by (simp add: isEqual_def eq.simps [of ?H "[]"])
qed

lemma copy_equal_plain:
  assumes "r < length H" and "kind_of (H ! r) = PlainObj" and "copyable proto (H ! r)"
    and new: "new = \<lparr>kind_of = PlainObj, own = own (H ! r), hidden = [], inherited = proto\<rparr>"
  shows "isEqual (H @ [new]) (Ref r) (Ref (length H)) = Some True"
proof -
  let ?H = "H @ [new]"
  have nth: "?H ! r = H ! r" "?H ! length H = new" using assms(1) by (simp_all add: nth_append)
  have same: "get new = get (H ! r)" "obj_keys new = obj_keys (H ! r)"
    using assms(2,3) by (simp_all add: new fun_eq_iff get_def all_props_def own_props_def obj_keys_def copyable_def)
  have ctor: "\<not> ctors_differ ?H r (length H)"
    using assms(2,3) by (simp add: ctors_differ_def nth same strict_refl copyable_def)
  have k: "kind_of (?H ! r) = PlainObj" "kind_of (?H ! length H) = PlainObj"
    using assms(2) nth new by simp_all
  have "eq_head ?H (Ref r) (Ref (length H)) = Descend r (length H)"
    using k assms(1) ctor
    by (simp add: eq_head_def unwrap_def contents_def is_array_def typeof_object_def Let_def)
  moreover
  let ?ps = "map (\<lambda>k. (get (H ! r) k, if has_own new k then Some (get new k) else None)) (rev (obj_keys (H ! r)))"
  have "items ?H r (length H) = Some ?ps"
    using assms(2) by (simp add: items_def nth same)
  moreover have "eq_items ?H [(r, length H)] ?ps = Some True"
    by (rule eq_items_same) (auto simp: list_all_iff same has_own_keys)
  ultimately show ?thesis using assms(1) by (simp add: isEqual_def eq.simps [of ?H "[]"])
qed

section \<open>Well-formed heaps stay well formed\<close>

text \<open>An object that may be written to: no elements, and so no property that is one.\<close>

definition writable :: "obj \<Rightarrow> bool" where
  "writable ob \<longleftrightarrow> own_elements (kind_of ob) = []"

lemma obj_ok_grow: "obj_ok H ob \<Longrightarrow> length H \<le> length H' \<Longrightarrow> obj_ok H' ob"
proof -
  assume ob: "obj_ok H ob" and len: "length H \<le> length H'"
  have v: "value_ok H v \<Longrightarrow> value_ok H' v" for v using len by (auto simp: value_ok_def split: jv.splits)
  with ob show ?thesis
    by (auto simp: obj_ok_def kind_ok_def list_all_iff split: kind.splits)
qed

lemma values_update:
  "list_all (value_ok H) (map snd ps) \<Longrightarrow> value_ok H v \<Longrightarrow> list_all (value_ok H) (map snd (AList.update k v ps))"
  by (induction ps) auto

lemma fst_update: "fst ` set (AList.update k v ps) = insert k (fst ` set ps)"
  by (induction ps) auto

lemma put_ok:
  assumes "obj_ok H ob" and "writable ob" and "value_ok H v"
  shows "obj_ok H (put k v ob)" and "writable (put k v ob)"
proof -
  have own: "list_all (value_ok H) (map snd (own ob))" "list_all (value_ok H) (map snd (hidden ob))"
      "list_all (value_ok H) (map snd (map (\<lambda>(k, v, e). (k, v)) (inherited ob)))" "kind_ok H (kind_of ob)"
      "distinct (map fst (own ob))" "distinct (map fst (hidden ob))" "fst ` set (own ob) \<inter> fst ` set (hidden ob) = {}"
    using assms(1,2) by (simp_all add: obj_ok_def all_props_def own_props_def writable_def)
  show "obj_ok H (put k v ob)"
  proof (cases "map_of (hidden ob) k")
    case None
    then have "k \<notin> fst ` set (hidden ob)" by (simp add: map_of_eq_None_iff)
    with None show ?thesis
      using own values_update [OF own(1) assms(3), of k] assms(2) distinct_update [OF own(5), of k v]
      by (simp add: obj_ok_def put_def all_props_def own_props_def writable_def fst_update)
  next
    case (Some w)
    then have "k \<in> fst ` set (hidden ob)" by (force dest: map_of_SomeD)
    with own(7) have "k \<notin> fst ` set (own ob)" by blast
    with Some show ?thesis
      using own values_update [OF own(2) assms(3), of k] assms(2) distinct_update [OF own(6), of k v]
      by (simp add: obj_ok_def put_def all_props_def own_props_def writable_def fst_update)
  qed
  show "writable (put k v ob)" using assms(2) by (simp add: writable_def put_def)
qed

text \<open>The wrapper objects of primitives hold values of the heap.\<close>

definition boxed_ok :: "heap \<Rightarrow> (jv \<Rightarrow> props) \<Rightarrow> bool" where
  "boxed_ok H boxed \<longleftrightarrow> (\<forall>v. list_all (value_ok H) (map snd (boxed v)))"

lemma read_ok:
  assumes "heap_ok H" and "boxed_ok H boxed" and "value_ok H v"
  shows "value_ok H (read boxed H v key)"
proof -
  have "value_ok H w" if "map_of (boxed x) key = Some w" for x w
    using assms(2) map_of_SomeD [OF that] by (fastforce simp: boxed_ok_def list_all_iff)
  with assms(1,3) get_ok heap_okD show ?thesis
    by (auto simp: read_def split: jv.splits option.splits)
qed

text \<open>What the steps of an assigner keep: the heap is well formed and the object written to writable.\<close>

definition target_ok :: "(jv \<Rightarrow> props) \<Rightarrow> nat \<Rightarrow> jv list \<Rightarrow> heap \<Rightarrow> bool" where
  "target_ok boxed r sources H \<longleftrightarrow>
     heap_ok H \<and> r < length H \<and> writable (H ! r) \<and> list_all (value_ok H) sources \<and> boxed_ok H boxed"

lemma value_ok_length: "length H = length H' \<Longrightarrow> value_ok H = value_ok H'"
  by (auto simp: value_ok_def fun_eq_iff split: jv.splits)

lemma assign_key_ok:
  assumes "target_ok boxed r sources H" and "source \<in> set sources"
  shows "target_ok boxed r sources (assign_key boxed undefinedOnly r source key H)"
proof -
  let ?ob = "put key (read boxed H source key) (H ! r)"
  have H: "heap_ok H" "r < length H" "writable (H ! r)" "boxed_ok H boxed" "value_ok H source"
    using assms by (auto simp: target_ok_def list_all_iff)
  have ob: "obj_ok H ?ob" "writable ?ob"
    using put_ok [OF heap_okD [OF H(1,2)] H(3) read_ok [OF H(1,4,5)]] by auto
  have same: "value_ok (H[r := ?ob]) = value_ok H" by (rule value_ok_length) simp
  have "heap_ok (H[r := ?ob])"
    using H(1,2) ob(1) obj_ok_grow [of H _ "H[r := ?ob]"]
    by (simp add: heap_ok_def list_all_length nth_list_update)
  with H ob same assms(1) show ?thesis by (simp add: assign_key_def target_ok_def boxed_ok_def)
qed

lemma fold_keeps: "(\<And>x s. x \<in> set xs \<Longrightarrow> P s \<Longrightarrow> P (f x s)) \<Longrightarrow> P s \<Longrightarrow> P (fold f xs s)"
  by (induction xs arbitrary: s) auto

lemma createAssigner_ok:
  assumes "target_ok boxed r sources H"
  shows "target_ok boxed r sources (createAssigner boxed keysFunc undefinedOnly H (Ref r) sources)"
proof -
  have "target_ok boxed r sources (assign_source boxed keysFunc undefinedOnly r source G)"
    if "source \<in> set sources" "target_ok boxed r sources G" for source G
    unfolding assign_source_def
    by (rule fold_keeps [where P = "target_ok boxed r sources"]) (use that in \<open>auto intro: assign_key_ok\<close>)
  then have "target_ok boxed r sources (fold (assign_source boxed keysFunc undefinedOnly r) sources H)"
    by (rule fold_keeps [where P = "target_ok boxed r sources"]) (assumption+, rule assms)
  then show ?thesis by (simp add: createAssigner_def)
qed

section \<open>Properties\<close>

text \<open>
  A clone is a new object that \<open>isEqual\<close> to the original, for arrays and for plain
  objects that inherit what new objects inherit, whatever values they hold.
\<close>
theorem clone_isEqual:
  assumes "r < length H" and "copyable proto (H ! r)"
  shows "case js_clone boxed proto ap H (Ref r) of
    (H', v) \<Rightarrow> isEqual H' (Ref r) v = Some True \<and> v = Ref (length H) \<and> take (length H) H' = H"
proof (cases "kind_of (H ! r)")
  case PlainObj
  with clone_plain [OF assms(1) _ assms(2)] copy_equal_plain [OF assms(1) _ assms(2) refl] show ?thesis by simp
next
  case (ArrayObj vs)
  with clone_array copy_equal_array [OF assms(1)] show ?thesis by simp
qed (use assms(2) in \<open>simp_all add: copyable_def\<close>)

theorem clone_isEqual_witness:
  "case js_clone (\<lambda>_. []) [] [] rings (Ref 0) of
    (H', v) \<Rightarrow> isEqual H' (Ref 0) v = Some True \<and> v = Ref (length rings) \<and> take (length rings) H' = rings"
proof (rule clone_isEqual)
  show "0 < length rings" by code_simp
  show "copyable [] (rings ! 0)" by code_simp
qed

text \<open>
  \<open>extend\<close>, \<open>extendOwn\<close> and \<open>defaults\<close> keep the heap well typed: all references
  still lead to objects and no object has two properties of one name, also when the object
  written to is among the sources.
\<close>
theorem assigners_typed:
  assumes "target_ok boxed r sources H"
  shows "heap_ok (js_extend boxed H (Ref r) sources) \<and> heap_ok (js_extendOwn boxed H (Ref r) sources) \<and>
    heap_ok (js_defaults boxed H (Ref r) sources)"
  using createAssigner_ok [OF assms]
  by (simp add: js_extend_def js_extendOwn_def js_defaults_def target_ok_def)

theorem assigners_typed_witness:
  "heap_ok (js_extend (\<lambda>_. []) rings (Ref 0) [Ref 2, Ref 0, String (u ''ab'')]) \<and>
   heap_ok (js_extendOwn (\<lambda>_. []) rings (Ref 0) [Ref 2, Ref 0, String (u ''ab'')]) \<and>
   heap_ok (js_defaults (\<lambda>_. []) rings (Ref 0) [Ref 2, Ref 0, String (u ''ab'')])"
proof (rule assigners_typed)
  have "heap_ok rings" "writable (rings ! 0)" by code_simp+
  then show "target_ok (\<lambda>_. []) 0 [Ref 2, Ref 0, String (u ''ab'')] rings"
    by (simp add: target_ok_def boxed_ok_def rings_def)
qed

end
