(* ===== verification/Js_Util.thy ===== *)
theory Js_Util
  imports Js_Objects
begin

text \<open>
  The module \<open>util\<close> of the bundle (\<open>site/assets/javascripts/lunr/wordcut.js\<close>, lines 6076 to
  6670) on values over a heap: the tests of types, \<open>inspect\<close> with its helpers, and \<open>isBuffer\<close>.

  What the engine and the program around it provide is the record \<open>engine\<close>: the texts of dates, of
  objects and of JSON, the properties with accessors, the instances of \<open>Error\<close> beyond the error
  objects themselves, and the functions named \<open>inspect\<close> that objects bring along.  A value
  \<open>None\<close> is an exception: the limit of the stack, which is a number of nested calls of
  \<open>formatValue\<close>, or one that such a function throws.  Primitives have no property
  \<open>inspect\<close>, and property names no index beyond the elements.
\<close>

section \<open>Tests of types\<close>

definition isFunction :: "heap \<Rightarrow> jv \<Rightarrow> bool" where
  "isFunction H v \<longleftrightarrow>
     (case v of Ref r \<Rightarrow> (case kind_of (H ! r) of FunctionObj i \<Rightarrow> True | _ \<Rightarrow> False) | _ \<Rightarrow> False)"

definition isObject :: "heap \<Rightarrow> jv \<Rightarrow> bool" where
  "isObject H v \<longleftrightarrow> typeof_object H v \<and> v \<noteq> Null"

definition isRegExp :: "heap \<Rightarrow> jv \<Rightarrow> bool" where
  "isRegExp H v \<longleftrightarrow> isObject H v \<and> class_name H v = u ''RegExp''"

definition isDate :: "heap \<Rightarrow> jv \<Rightarrow> bool" where
  "isDate H v \<longleftrightarrow> isObject H v \<and> class_name H v = u ''Date''"

definition isArray :: "heap \<Rightarrow> jv \<Rightarrow> bool" where
  "isArray H v \<longleftrightarrow>
     (case v of Ref r \<Rightarrow> (case kind_of (H ! r) of ArrayObj vs \<Rightarrow> True | _ \<Rightarrow> False) | _ \<Rightarrow> False)"

definition isPrimitive :: "jv \<Rightarrow> bool" where
  "isPrimitive v \<longleftrightarrow> (case v of Ref r \<Rightarrow> False | _ \<Rightarrow> True)"

definition isBuffer :: "heap \<Rightarrow> jv \<Rightarrow> bool" where
  "isBuffer H v \<longleftrightarrow>
     (case v of
        Ref r \<Rightarrow> typeof_object H v \<and> isFunction H (get (H ! r) (u ''copy'')) \<and>
          isFunction H (get (H ! r) (u ''fill'')) \<and> isFunction H (get (H ! r) (u ''readUInt8''))
      | _ \<Rightarrow> False)"

fun truthy :: "jv \<Rightarrow> bool" where
  "truthy Undefined = False"
| "truthy Null = False"
| "truthy (Bool b) = b"
| "truthy (Number n) = (n \<noteq> NaN \<and> n \<noteq> MinusZero \<and> n \<noteq> Whole 0)"
| "truthy (String s) = (s \<noteq> [])"
| "truthy (Ref r) = True"

section \<open>Texts\<close>

record engine =
  date_text :: "number \<Rightarrow> ustr"
  utc_text :: "number \<Rightarrow> ustr"
  object_text :: "nat \<Rightarrow> ustr"
  accessors :: "nat \<Rightarrow> ustr \<Rightarrow> bool \<times> bool"
  error_instance :: "nat \<Rightarrow> bool"
  util_inspect :: nat
  call_inspect :: "nat \<Rightarrow> int option \<Rightarrow> jv option"
  json :: "jv \<Rightarrow> ustr option"
  to_number :: "jv \<Rightarrow> number"

definition int_text :: "int \<Rightarrow> ustr" where
  "int_text i = (if i < 0 then 45 # dec_digits (nat (- i)) else dec_digits (nat i))"

fun num_text :: "number \<Rightarrow> ustr" where
  "num_text NaN = u ''NaN''"
| "num_text MinusZero = u ''0''"
| "num_text (Whole i) = int_text i"

text \<open>\<open>'' + v\<close> and \<open>String(v)\<close>.\<close>

fun to_text :: "engine \<Rightarrow> jv \<Rightarrow> ustr" where
  "to_text hst Undefined = u ''undefined''"
| "to_text hst Null = u ''null''"
| "to_text hst (Bool b) = (if b then u ''true'' else u ''false'')"
| "to_text hst (Number n) = num_text n"
| "to_text hst (String s) = s"
| "to_text hst (Ref r) = object_text hst r"

text \<open>\<open>JSON.stringify\<close> of a string.\<close>

definition hex_digit :: "nat \<Rightarrow> nat" where
  "hex_digit d = (if d < 10 then 48 + d else 87 + d)"

definition json_char :: "nat \<Rightarrow> ustr" where
  "json_char c =
     (if c = 34 then [92, 34] else if c = 92 then [92, 92]
      else if c = 8 then 92 # u ''b'' else if c = 9 then 92 # u ''t'' else if c = 10 then 92 # u ''n''
      else if c = 12 then 92 # u ''f'' else if c = 13 then 92 # u ''r''
      else if c < 32 then 92 # u ''u00'' @ [hex_digit (c div 16), hex_digit (c mod 16)]
      else [c])"

definition json_quote :: "ustr \<Rightarrow> ustr" where
  "json_quote s = [34] @ concat (map json_char s) @ [34]"

section \<open>Colours\<close>

definition color_codes :: "(ustr \<times> nat \<times> nat) list" where
  "color_codes =
     [(u ''bold'', 1, 22), (u ''italic'', 3, 23), (u ''underline'', 4, 24), (u ''inverse'', 7, 27),
      (u ''white'', 37, 39), (u ''grey'', 90, 39), (u ''black'', 30, 39), (u ''blue'', 34, 39),
      (u ''cyan'', 36, 39), (u ''green'', 32, 39), (u ''magenta'', 35, 39), (u ''red'', 31, 39),
      (u ''yellow'', 33, 39)]"

definition style_colors :: "(ustr \<times> ustr) list" where
  "style_colors =
     [(u ''special'', u ''cyan''), (u ''number'', u ''yellow''), (u ''boolean'', u ''yellow''),
      (u ''undefined'', u ''grey''), (u ''null'', u ''bold''), (u ''string'', u ''green''),
      (u ''date'', u ''magenta''), (u ''regexp'', u ''red'')]"

definition color_code :: "nat \<Rightarrow> ustr" where
  "color_code n = [27, 91] @ dec_digits n @ [109]"

definition stylizeWithColor :: "ustr \<Rightarrow> ustr \<Rightarrow> ustr" where
  "stylizeWithColor str styleType =
     (case map_of style_colors styleType of
        None \<Rightarrow> str
      | Some style \<Rightarrow>
          (case map_of color_codes style of
             None \<Rightarrow> str
           | Some (on, off) \<Rightarrow> color_code on @ str @ color_code off))"

record inspect_ctx =
  show_hidden :: bool
  colored :: bool
  custom_inspect :: bool

definition stylize :: "inspect_ctx \<Rightarrow> ustr \<Rightarrow> ustr \<Rightarrow> ustr" where
  "stylize ctx str styleType = (if colored ctx then stylizeWithColor str styleType else str)"

section \<open>Primitives\<close>

text \<open>The pattern \<open>/^"|"$/g\<close> replaced by \<open>r\<close>.\<close>

definition replace_outer_quotes :: "ustr \<Rightarrow> ustr \<Rightarrow> ustr" where
  "replace_outer_quotes r s =
     (let s1 = (if take 1 s = [34] then (r, tl s) else ([], s));
          s2 = (if snd s1 \<noteq> [] \<and> List.last (snd s1) = 34 then butlast (snd s1) @ r else snd s1)
      in fst s1 @ s2)"

definition formatString :: "ustr \<Rightarrow> ustr" where
  "formatString s =
     [39] @ replace_all [92, 34] [34] (replace_all [39] [92, 39] (replace_outer_quotes [] (json_quote s))) @ [39]"

definition formatPrimitive :: "inspect_ctx \<Rightarrow> jv \<Rightarrow> ustr option" where
  "formatPrimitive ctx v =
     (case v of
        Undefined \<Rightarrow> Some (stylize ctx (u ''undefined'') (u ''undefined''))
      | String s \<Rightarrow> Some (stylize ctx (formatString s) (u ''string''))
      | Number n \<Rightarrow> Some (stylize ctx (num_text n) (u ''number''))
      | Bool b \<Rightarrow> Some (stylize ctx (if b then u ''true'' else u ''false'') (u ''boolean''))
      | Null \<Rightarrow> Some (stylize ctx (u ''null'') (u ''null''))
      | Ref r \<Rightarrow> None)"

section \<open>Objects\<close>

text \<open>
  \<open>Object.getOwnPropertyNames\<close>: the constructor makes the length and the hidden properties
  before the program adds its own.
\<close>

definition own_names :: "obj \<Rightarrow> ustr list" where
  "own_names ob =
     (let vs = own_elements (kind_of ob)
      in map dec_digits [0..<length vs] @
         (case kind_of ob of ArrayObj vs \<Rightarrow> [u ''length''] | ArgumentsObj vs \<Rightarrow> [u ''length'']
          | StringObj s \<Rightarrow> [u ''length''] | _ \<Rightarrow> []) @
         map fst (hidden ob) @ map fst (own ob))"

definition length_value :: "obj \<Rightarrow> jv" where
  "length_value ob = Number (Whole (int (length (own_elements (kind_of ob)))))"

text \<open>The value of a property that one of the two lists of names holds.\<close>

definition property_value :: "obj \<Rightarrow> ustr \<Rightarrow> jv" where
  "property_value ob key =
     (if key = u ''length'' \<and> (case kind_of ob of ArrayObj vs \<Rightarrow> True | ArgumentsObj vs \<Rightarrow> True
          | StringObj s \<Rightarrow> True | _ \<Rightarrow> False)
      then length_value ob else get ob key)"

definition isError :: "engine \<Rightarrow> heap \<Rightarrow> jv \<Rightarrow> bool" where
  "isError hst H v \<longleftrightarrow>
     isObject H v \<and>
     (class_name H v = u ''Error'' \<or> (case v of Ref r \<Rightarrow> error_instance hst r | _ \<Rightarrow> False))"

definition formatError :: "engine \<Rightarrow> heap \<Rightarrow> nat \<Rightarrow> ustr" where
  "formatError hst H r =
     (let name = get (H ! r) (u ''name''); msg = get (H ! r) (u ''message'');
          n = (if name = Undefined then u ''Error'' else to_text hst name);
          m = (if msg = Undefined then [] else to_text hst msg)
      in [91] @ (if n = [] then m else if m = [] then n else n @ u '': '' @ m) @ [93])"

definition regexp_text :: "heap \<Rightarrow> nat \<Rightarrow> ustr" where
  "regexp_text H r = (case kind_of (H ! r) of RegExpObj s \<Rightarrow> s | _ \<Rightarrow> [])"

definition date_number :: "heap \<Rightarrow> nat \<Rightarrow> number" where
  "date_number H r = (case kind_of (H ! r) of DateObj t \<Rightarrow> t | _ \<Rightarrow> NaN)"

definition function_text :: "engine \<Rightarrow> heap \<Rightarrow> nat \<Rightarrow> ustr" where
  "function_text hst H r =
     (let name = get (H ! r) (u ''name'')
      in u ''[Function'' @ (if truthy name then u '': '' @ to_text hst name else []) @ u '']'')"

text \<open>An object without keys of a kind that has a text of its own.\<close>

definition format_keyless :: "engine \<Rightarrow> inspect_ctx \<Rightarrow> heap \<Rightarrow> nat \<Rightarrow> ustr option" where
  "format_keyless hst ctx H r =
     (if isFunction H (Ref r) then Some (stylize ctx (function_text hst H r) (u ''special''))
      else if isRegExp H (Ref r) then Some (stylize ctx (regexp_text H r) (u ''regexp''))
      else if isDate H (Ref r) then Some (stylize ctx (date_text hst (date_number H r)) (u ''date''))
      else if isError hst H (Ref r) then Some (formatError hst H r)
      else None)"

definition format_base :: "engine \<Rightarrow> heap \<Rightarrow> nat \<Rightarrow> ustr" where
  "format_base hst H r =
     (let base = (if isFunction H (Ref r) then [32] @ function_text hst H r else []);
          base = (if isRegExp H (Ref r) then [32] @ regexp_text H r else base);
          base = (if isDate H (Ref r) then [32] @ utc_text hst (date_number H r) else base)
      in if isError hst H (Ref r) then [32] @ formatError hst H r else base)"

text \<open>The pattern \<open>/\u001b\[\d\d?m/g\<close> replaced by the empty string.\<close>

definition code_at :: "nat \<Rightarrow> ustr \<Rightarrow> bool" where
  "code_at k s \<longleftrightarrow>
     k + 3 \<le> length s \<and> take 2 s = [27, 91] \<and> list_all is_dec (take k (drop 2 s)) \<and> s ! (k + 2) = 109"

function strip_codes :: "ustr \<Rightarrow> ustr" where
  "strip_codes [] = []"
| "strip_codes (c # cs) =
     (if code_at 2 (c # cs) then strip_codes (drop 4 cs)
      else if code_at 1 (c # cs) then strip_codes (drop 3 cs)
      else c # strip_codes cs)"
  by pat_completeness auto
termination by (relation "measure length") auto

definition reduceToSingleString :: "ustr list \<Rightarrow> ustr \<Rightarrow> ustr \<times> ustr \<Rightarrow> ustr" where
  "reduceToSingleString output base braces =
     (let len = sum_list (map (\<lambda>cur. length (strip_codes cur) + 1) output)
      in if 60 < len
         then fst braces @ (if base = [] then [] else base @ [10, 32]) @ [32] @
              join_with [44, 10, 32, 32] output @ [32] @ snd braces
         else fst braces @ base @ [32] @ join_with [44, 32] output @ [32] @ snd braces)"

definition digits_only :: "ustr \<Rightarrow> bool" where
  "digits_only s \<longleftrightarrow> s \<noteq> [] \<and> list_all is_dec s"

definition plain_name :: "ustr \<Rightarrow> bool" where
  "plain_name s \<longleftrightarrow>
     s \<noteq> [] \<and> \<not> is_dec (hd s) \<and>
     list_all (\<lambda>c. is_dec c \<or> 65 \<le> c \<and> c \<le> 90 \<or> c = 95 \<or> 97 \<le> c \<and> c \<le> 122) s"

definition key_text :: "inspect_ctx \<Rightarrow> ustr \<Rightarrow> ustr" where
  "key_text ctx key =
     (let name = json_quote key
      in if plain_name (slice 1 (length name - 1) name) then stylize ctx (slice 1 (length name - 1) name) (u ''name'')
         else stylize ctx (replace_outer_quotes [39] (replace_all [92, 34] [34] (replace_all [39] [92, 39] name)))
                (u ''string''))"

definition indented :: "bool \<Rightarrow> ustr \<Rightarrow> ustr" where
  "indented array str =
     (if 10 \<in> set str
      then if array then drop 2 (join_with [10] (map (\<lambda>line. [32, 32] @ line) (split_on 10 str)))
           else [10] @ join_with [10] (map (\<lambda>line. [32, 32, 32] @ line) (split_on 10 str))
      else str)"

text \<open>
  The functions that format the members of an object: \<open>fmt\<close> is \<open>formatValue\<close> with what is
  left of the stack, \<open>seen\<close> the objects around the member.
\<close>

definition formatProperty ::
    "engine \<Rightarrow> inspect_ctx \<Rightarrow> heap \<Rightarrow> (jv \<Rightarrow> int option \<Rightarrow> ustr option) \<Rightarrow> nat list \<Rightarrow> nat \<Rightarrow> int option \<Rightarrow>
      ustr list \<Rightarrow> ustr \<Rightarrow> bool \<Rightarrow> ustr option" where
  "formatProperty hst ctx H fmt seen r recurseTimes visibleKeys key array =
     (let (getter, setter) = accessors hst r key;
          v = property_value (H ! r) key;
          str = (if getter then Some (stylize ctx (if setter then u ''[Getter/Setter]'' else u ''[Getter]'') (u ''special''))
                 else if setter then Some (stylize ctx (u ''[Setter]'') (u ''special''))
                 else if (\<exists>w \<in> set seen. v = Ref w) then Some (stylize ctx (u ''[Circular]'') (u ''special''))
                 else map_option (indented array) (fmt v (map_option (\<lambda>i. i - 1) recurseTimes)))
      in case str of
           None \<Rightarrow> None
         | Some s \<Rightarrow>
             if key \<notin> set visibleKeys then Some ([91] @ key @ [93] @ u '': '' @ s)
             else if array \<and> digits_only key then Some s
             else Some (key_text ctx key @ u '': '' @ s))"

fun all_some :: "'a option list \<Rightarrow> 'a list option" where
  "all_some [] = Some []"
| "all_some (None # xs) = None"
| "all_some (Some x # xs) = map_option ((#) x) (all_some xs)"

definition formatArray ::
    "(ustr \<Rightarrow> bool \<Rightarrow> ustr option) \<Rightarrow> obj \<Rightarrow> ustr list \<Rightarrow> ustr list option" where
  "formatArray property ob keys =
     all_some (map (\<lambda>i. if has_own ob (dec_digits i) then property (dec_digits i) True else Some [])
                 [0..<length (own_elements (kind_of ob))] @
               map (\<lambda>key. property key True) (filter (\<lambda>key. \<not> digits_only key) keys))"

definition format_object ::
    "engine \<Rightarrow> inspect_ctx \<Rightarrow> heap \<Rightarrow> (jv \<Rightarrow> int option \<Rightarrow> ustr option) \<Rightarrow> nat list \<Rightarrow> nat \<Rightarrow> int option \<Rightarrow> ustr option" where
  "format_object hst ctx H fmt seen r recurseTimes =
     (let visibleKeys = obj_keys (H ! r);
          keys = (if show_hidden ctx then own_names (H ! r) else visibleKeys);
          array = isArray H (Ref r);
          braces = (if array then ([91], [93]) else ([123], [125]));
          base = format_base hst H r;
          property = formatProperty hst ctx H fmt (seen @ [r]) r recurseTimes visibleKeys
      in if isError hst H (Ref r) \<and> (u ''message'' \<in> set keys \<or> u ''description'' \<in> set keys)
         then Some (formatError hst H r)
         else if keys = [] \<and> format_keyless hst ctx H r \<noteq> None then format_keyless hst ctx H r
         else if keys = [] \<and> (\<not> array \<or> own_elements (kind_of (H ! r)) = []) then Some (fst braces @ base @ snd braces)
         else if (case recurseTimes of None \<Rightarrow> False | Some i \<Rightarrow> i < 0)
         then Some (if isRegExp H (Ref r) then stylize ctx (regexp_text H r) (u ''regexp'')
                    else stylize ctx (u ''[Object]'') (u ''special''))
         else map_option (\<lambda>output. reduceToSingleString output base braces)
                (if array then formatArray property (H ! r) keys
                 else all_some (map (\<lambda>key. property key False) keys)))"

text \<open>Whether the object brings a function \<open>inspect\<close> of its own.\<close>

definition brings_inspect :: "engine \<Rightarrow> inspect_ctx \<Rightarrow> heap \<Rightarrow> nat \<Rightarrow> bool" where
  "brings_inspect hst ctx H r \<longleftrightarrow>
     (let f = get (H ! r) (u ''inspect''); c = get (H ! r) (u ''constructor'')
      in custom_inspect ctx \<and> isFunction H f \<and> f \<noteq> Ref (util_inspect hst) \<and>
         \<not> (case c of Ref k \<Rightarrow> get (H ! k) (u ''prototype'') = Ref r | _ \<Rightarrow> False))"

definition as_string :: "jv \<Rightarrow> ustr option" where
  "as_string v = (case v of String s \<Rightarrow> Some s | _ \<Rightarrow> None)"

primrec formatValue ::
    "nat \<Rightarrow> engine \<Rightarrow> inspect_ctx \<Rightarrow> heap \<Rightarrow> nat list \<Rightarrow> jv \<Rightarrow> int option \<Rightarrow> ustr option" where
  "formatValue 0 hst ctx H seen v recurseTimes = None"
| "formatValue (Suc n) hst ctx H seen v recurseTimes =
     (case v of
        Ref r \<Rightarrow>
          if brings_inspect hst ctx H r
          then (case call_inspect hst r recurseTimes of
                  None \<Rightarrow> None
                | Some ret \<Rightarrow>
                    (case as_string ret of
                       Some s \<Rightarrow> Some s
                     | None \<Rightarrow> formatValue n hst ctx H seen ret recurseTimes))
          else format_object hst ctx H (formatValue n hst ctx H (seen @ [r])) seen r recurseTimes
      | _ \<Rightarrow> formatPrimitive ctx v)"

section \<open>inspect\<close>

text \<open>
  The second argument: none, the flag of the older interface, or an object whose properties
  override the defaults.  A depth of \<open>None\<close> is \<open>null\<close>.
\<close>

datatype inspect_opts =
    NoOpts | Flag bool
  | Opts "bool option" "int option option" "bool option" "bool option"

definition default_to :: "'a option \<Rightarrow> 'a \<Rightarrow> 'a" where
  "default_to v d = (case v of None \<Rightarrow> d | Some w \<Rightarrow> w)"

text \<open>\<open>old_depth\<close> and \<open>old_colors\<close> are the third and fourth argument.\<close>

definition inspect ::
    "nat \<Rightarrow> engine \<Rightarrow> heap \<Rightarrow> jv \<Rightarrow> inspect_opts \<Rightarrow> int option option \<Rightarrow> bool option \<Rightarrow> ustr option" where
  "inspect n hst H v opts old_depth old_colors =
     (let (showHidden, depth, colors, customInspect) =
            (case opts of
               NoOpts \<Rightarrow> (None, old_depth, old_colors, None)
             | Flag b \<Rightarrow> (Some b, old_depth, old_colors, None)
             | Opts s d c i \<Rightarrow>
                 (s, (if d = None then old_depth else d), (if c = None then old_colors else c), i))
      in formatValue n hst \<lparr>show_hidden = default_to showHidden False, colored = default_to colors False,
           custom_inspect = default_to customInspect True\<rparr> H [] v (default_to depth (Some 2)))"

section \<open>Returning\<close>

lemma all_some_None: "all_some xs = None \<longleftrightarrow> None \<in> set xs"
  by (induction xs rule: all_some.induct) auto

lemma property_value_ok: "obj_ok H ob \<Longrightarrow> value_ok H (property_value ob key)"
  by (simp add: property_value_def length_value_def get_ok)

text \<open>An object is formatted when its members are, and without them when the depth is used up.\<close>

lemma formatProperty_returns:
  assumes "\<And>v. value_ok H v \<Longrightarrow> (\<forall>w \<in> set seen. v \<noteq> Ref w) \<Longrightarrow> fmt v (map_option (\<lambda>i. i - 1) rt) \<noteq> None"
    and "obj_ok H (H ! r)"
  shows "formatProperty hst ctx H fmt seen r rt visible key array \<noteq> None"
proof -
  obtain g s where a: "accessors hst r key = (g, s)" by fastforce
  let ?v = "property_value (H ! r) key"
  have "fmt ?v (map_option (\<lambda>i. i - 1) rt) \<noteq> None" if "\<forall>w \<in> set seen. ?v \<noteq> Ref w"
    using assms(1) [OF property_value_ok [OF assms(2)] that] .
  then show ?thesis by (auto simp: formatProperty_def a Let_def)
qed

lemma format_object_returns:
  assumes "obj_ok H (H ! r)"
    and "(\<forall>v. value_ok H v \<and> (\<forall>w \<in> set (seen @ [r]). v \<noteq> Ref w) \<longrightarrow>
            fmt v (map_option (\<lambda>i. i - 1) rt) \<noteq> None) \<or> (\<exists>i. rt = Some i \<and> i < 0)"
  shows "format_object hst ctx H fmt seen r rt \<noteq> None"
proof (cases "\<exists>i. rt = Some i \<and> i < 0")
  case True
  then show ?thesis by (auto simp: format_object_def Let_def)
next
  case False
  with assms have "formatProperty hst ctx H fmt (seen @ [r]) r rt visible key array \<noteq> None" for visible key array
    using formatProperty_returns [of H "seen @ [r]" fmt rt r] by blast
  then have "None \<noteq> formatProperty hst ctx H fmt (seen @ [r]) r rt visible key array" for visible key array
    by metis
  then have "all_some (map (\<lambda>key. formatProperty hst ctx H fmt (seen @ [r]) r rt visible key array) keys) \<noteq> None"
    and "formatArray (formatProperty hst ctx H fmt (seen @ [r]) r rt visible) (H ! r) keys \<noteq> None" for visible keys array
    by (auto simp: all_some_None formatArray_def image_iff split: if_splits)
  then show ?thesis by (simp add: format_object_def Let_def)
qed

definition quiet :: "engine \<Rightarrow> inspect_ctx \<Rightarrow> heap \<Rightarrow> bool" where
  "quiet hst ctx H \<longleftrightarrow> list_all (\<lambda>r. \<not> brings_inspect hst ctx H r) [0..<length H]"

lemma formatPrimitive_returns: "\<nexists>r. v = Ref r \<Longrightarrow> formatPrimitive ctx v \<noteq> None"
  by (cases v) (simp_all add: formatPrimitive_def)

lemma formatValue_Ref:
  assumes "quiet hst ctx H" and "r < length H"
  shows "formatValue (Suc n) hst ctx H seen (Ref r) rt =
    format_object hst ctx H (formatValue n hst ctx H (seen @ [r])) seen r rt"
  using assms by (simp add: quiet_def list_all_iff)

lemma formatValue_cyclic:
  assumes "heap_ok H" and "quiet hst ctx H" and "value_ok H v" and "\<forall>w \<in> set seen. v \<noteq> Ref w"
    and "distinct seen" and "set seen \<subseteq> {..<length H}" and "length H < n + length seen"
  shows "formatValue n hst ctx H seen v rt \<noteq> None"
  using assms(3-)
proof (induction n arbitrary: seen v rt)
  case 0
  have "card (set seen) \<le> card {..<length H}" using 0 by (intro card_mono) auto
  with 0 show ?case by (simp add: distinct_card)
next
  case (Suc n)
  show ?case
  proof (cases "\<exists>r. v = Ref r")
    case True
    then obtain r where v: "v = Ref r" by blast
    with Suc.prems have r: "r < length H" "r \<notin> set seen" by auto
    have "formatValue n hst ctx H (seen @ [r]) w rt' \<noteq> None"
      if "value_ok H w" "\<forall>x \<in> set (seen @ [r]). w \<noteq> Ref x" for w rt'
      using Suc.prems r that by (intro Suc.IH) auto
    then show ?thesis
      unfolding v formatValue_Ref [OF assms(2) r(1)] using heap_okD [OF assms(1) r(1)]
      by (intro format_object_returns) blast+
  next
    case False
    then show ?thesis using formatPrimitive_returns [of v] by (cases v) simp_all
  qed
qed

lemma formatValue_depth:
  assumes "heap_ok H" and "quiet hst ctx H" and "value_ok H v" and "i + 2 \<le> int n" and "0 < n"
  shows "formatValue n hst ctx H seen v (Some i) \<noteq> None"
  using assms(3-)
proof (induction n arbitrary: seen v i)
  case (Suc n)
  show ?case
  proof (cases "\<exists>r. v = Ref r")
    case True
    then obtain r where v: "v = Ref r" by blast
    with Suc.prems have r: "r < length H" by simp
    have "formatValue n hst ctx H (seen @ [r]) w (Some (i - 1)) \<noteq> None" if "value_ok H w" "0 \<le> i" for w
      using Suc.prems that by (intro Suc.IH) auto
    then have "(\<forall>w. value_ok H w \<longrightarrow> formatValue n hst ctx H (seen @ [r]) w (Some (i - 1)) \<noteq> None) \<or> i < 0"
      by (meson not_less)
    then show ?thesis
      unfolding v formatValue_Ref [OF assms(2) r] using heap_okD [OF assms(1) r]
      by (intro format_object_returns) auto
  next
    case False
    then show ?thesis using formatPrimitive_returns [of v] by (cases v) simp_all
  qed
qed simp

text \<open>A deeper stack changes no result.\<close>

lemma all_some_mono:
  "all_some (map f xs) = Some ys \<Longrightarrow> (\<And>x y. x \<in> set xs \<Longrightarrow> f x = Some y \<Longrightarrow> g x = Some y) \<Longrightarrow>
     all_some (map g xs) = Some ys"
proof (induction xs arbitrary: ys)
  case (Cons x xs)
  from Cons.prems(1) obtain y zs where "f x = Some y" "all_some (map f xs) = Some zs" "ys = y # zs"
    by (cases "f x") auto
  with Cons.IH [of zs] Cons.prems(2) [of x y] Cons.prems(2) show ?case by simp
qed simp

lemma formatProperty_mono:
  assumes "\<And>v rt s. fmt v rt = Some s \<Longrightarrow> fmt' v rt = Some s"
    and "formatProperty hst ctx H fmt seen r rt visible key array = Some s"
  shows "formatProperty hst ctx H fmt' seen r rt visible key array = Some s"
proof -
  obtain g st where a: "accessors hst r key = (g, st)" by fastforce
  let ?v = "property_value (H ! r) key"
  consider "g \<or> st \<or> (\<exists>w \<in> set seen. ?v = Ref w)" | t where "fmt ?v (map_option (\<lambda>i. i - 1) rt) = Some t"
    using assms(2) by (cases "fmt ?v (map_option (\<lambda>i. i - 1) rt)") (auto simp: formatProperty_def a Let_def split: if_splits)
  then show ?thesis
  proof cases
    case 1
    then have "formatProperty hst ctx H fmt' seen r rt visible key array = formatProperty hst ctx H fmt seen r rt visible key array"
      by (auto simp: formatProperty_def a Let_def)
    with assms(2) show ?thesis by simp
  next
    case 2
    with assms(1) [OF 2] have "fmt' ?v (map_option (\<lambda>i. i - 1) rt) = fmt ?v (map_option (\<lambda>i. i - 1) rt)" by simp
    then have "formatProperty hst ctx H fmt' seen r rt visible key array = formatProperty hst ctx H fmt seen r rt visible key array"
      unfolding formatProperty_def a Let_def prod.case by (simp only:)
    with assms(2) show ?thesis by simp
  qed
qed

lemma all_some_append: "all_some (xs @ ys) = (case all_some xs of None \<Rightarrow> None | Some a \<Rightarrow> map_option ((@) a) (all_some ys))"
proof (induction xs rule: all_some.induct)
  case 1
  show ?case by (cases "all_some ys") simp_all
next
  case (3 x xs)
  then show ?case by (cases "all_some xs"; cases "all_some ys") simp_all
qed simp

lemma formatArray_mono:
  assumes "\<And>key s. p key True = Some s \<Longrightarrow> q key True = Some s" and "formatArray p ob keys = Some out"
  shows "formatArray q ob keys = Some out"
proof -
  let ?n = "length (own_elements (kind_of ob))"
  let ?f = "\<lambda>p i. if has_own ob (dec_digits i) then p (dec_digits i) True else Some []"
  let ?ks = "filter (\<lambda>key. \<not> digits_only key) keys"
  from assms(2) obtain a b where
    ab: "all_some (map (?f p) [0..<?n]) = Some a" "all_some (map (\<lambda>key. p key True) ?ks) = Some b" "out = a @ b"
    by (auto simp: formatArray_def all_some_append split: option.splits)
  have "all_some (map (?f q) [0..<?n]) = Some a" by (rule all_some_mono [OF ab(1)]) (use assms(1) in \<open>auto split: if_splits\<close>)
  moreover have "all_some (map (\<lambda>key. q key True) ?ks) = Some b" by (rule all_some_mono [OF ab(2)]) (use assms(1) in auto)
  ultimately show ?thesis using ab(3) by (simp add: formatArray_def all_some_append)
qed

lemma format_object_mono:
  assumes "\<And>v rt s. fmt v rt = Some s \<Longrightarrow> fmt' v rt = Some s"
    and "format_object hst ctx H fmt seen r rt = Some s"
  shows "format_object hst ctx H fmt' seen r rt = Some s"
proof -
  note property = formatProperty_mono [where fmt = fmt and fmt' = fmt', OF assms(1)]
  have "all_some (map (\<lambda>key. formatProperty hst ctx H fmt' sn r rt visible key b) ks) = Some out"
    if "all_some (map (\<lambda>key. formatProperty hst ctx H fmt sn r rt visible key b) ks) = Some out" for sn visible ks b out
    by (rule all_some_mono [OF that]) (rule property)
  moreover have "formatArray (formatProperty hst ctx H fmt' sn r rt visible) ob ks = Some out"
    if "formatArray (formatProperty hst ctx H fmt sn r rt visible) ob ks = Some out" for sn visible ob ks out
    by (rule formatArray_mono [OF _ that]) (rule property)
  ultimately show ?thesis using assms(2)
    by (auto simp: format_object_def Let_def split: if_splits)
qed

lemma formatValue_Suc: "formatValue n hst ctx H seen v rt = Some s \<Longrightarrow> formatValue (Suc n) hst ctx H seen v rt = Some s"
proof (induction n arbitrary: seen v rt s)
  case (Suc n)
  show ?case
  proof (cases v)
    case (Ref r)
    show ?thesis
    proof (cases "brings_inspect hst ctx H r")
      case True
      with Ref Suc.prems obtain ret where ret: "call_inspect hst r rt = Some ret"
        by (cases "call_inspect hst r rt") simp_all
      show ?thesis
      proof (cases "as_string ret")
        case None
        with True Ref ret Suc.prems have "formatValue n hst ctx H seen ret rt = Some s" by simp
        from Suc.IH [OF this] show ?thesis
          unfolding Ref formatValue.simps(2) [of "Suc n"] by (simp add: True ret None del: formatValue.simps)
      qed (use True Ref ret Suc.prems in simp)
    next
      case False
      with Ref Suc.prems have "format_object hst ctx H (formatValue n hst ctx H (seen @ [r])) seen r rt = Some s" by simp
      then have "format_object hst ctx H (formatValue (Suc n) hst ctx H (seen @ [r])) seen r rt = Some s"
        by (rule format_object_mono [rotated]) (rule Suc.IH)
      then show ?thesis
        unfolding Ref formatValue.simps(2) [of "Suc n"] by (simp add: False del: formatValue.simps)
    qed
  qed (use Suc.prems in simp_all)
qed simp

lemma formatValue_mono: "formatValue m hst ctx H seen v rt = Some s \<Longrightarrow> m \<le> n \<Longrightarrow> formatValue n hst ctx H seen v rt = Some s"
  by (rotate_tac, induction rule: dec_induct) (blast intro: formatValue_Suc)+

section \<open>Reading strings back\<close>

text \<open>
  The body of a string literal in single quotes, read by the rules of the language up to its closing
  quote, which has to be the end.
\<close>

definition hex_value :: "nat \<Rightarrow> nat" where
  "hex_value c = (if c \<le> 57 then c - 48 else c - 87)"

fun read_body :: "ustr \<Rightarrow> ustr option" where
  "read_body [] = None"
| "read_body (c # cs) =
     (if c = 39 then if cs = [] then Some [] else None
      else if c = 10 \<or> c = 13 then None
      else if c \<noteq> 92 then map_option ((#) c) (read_body cs)
      else (case cs of
              [] \<Rightarrow> None
            | e # es \<Rightarrow>
                if e = 117
                then (case es of
                        a # b # d # h # rest \<Rightarrow>
                          map_option ((#) (4096 * hex_value a + 256 * hex_value b + 16 * hex_value d + hex_value h))
                            (read_body rest)
                      | _ \<Rightarrow> None)
                else map_option ((#) (if e = 98 then 8 else if e = 116 then 9 else if e = 110 then 10
                       else if e = 102 then 12 else if e = 114 then 13 else e)) (read_body es)))"

definition read_literal :: "ustr \<Rightarrow> ustr option" where
  "read_literal s = (if take 1 s = [39] then read_body (tl s) else None)"

lemma replace_all_Cons:
  assumes "a \<noteq> []"
  shows "replace_all a b (c # cs) =
    (if take (length a) (c # cs) = a then b @ replace_all a b (drop (length a) (c # cs)) else c # replace_all a b cs)"
proof -
  have ne: "split_str a s \<noteq> []" for s by (cases s) (auto split: list.splits)
  have "join_with b ((c # p) # ps) = c # join_with b (p # ps)" for p ps by (cases ps) simp_all
  with assms ne [of cs] ne [of "drop (length a) (c # cs)"] show ?thesis
    by (cases "split_str a cs") (auto simp: replace_all_def join_with_Cons)
qed

lemma replace_all_Nil [simp]: "replace_all a b [] = []"
  by (simp add: replace_all_def)

lemma replace_char: "replace_all [a] b s = concat (map (\<lambda>c. if c = a then b else [c]) s)"
  by (induction s) (simp_all add: replace_all_Cons)

lemma replace_free: "a \<notin> set s \<Longrightarrow> replace_all [a] b (s @ t) = s @ replace_all [a] b t"
  by (induction s) (auto simp: replace_all_Cons)

definition quoted_char :: "nat \<Rightarrow> ustr" where
  "quoted_char c = (if c = 39 then [92, 39] else json_char c)"

lemma json_char_quote: "replace_all [39] [92, 39] (json_char c) = quoted_char c"
  by (auto simp: replace_char quoted_char_def json_char_def u_def hex_digit_def)

lemma replace_char_append: "replace_all [a] b (s @ t) = replace_all [a] b s @ replace_all [a] b t"
  by (simp add: replace_char)

lemma replace_quotes: "replace_all [39] [92, 39] (concat (map json_char s)) = concat (map quoted_char s)"
  by (induction s) (simp_all add: replace_char_append json_char_quote)

definition literal_char :: "nat \<Rightarrow> ustr" where
  "literal_char c = (if c = 34 then [34] else quoted_char c)"

lemma quoted_char_hd: "quoted_char c \<noteq> [] \<and> hd (quoted_char c) \<noteq> 34"
  by (simp add: quoted_char_def json_char_def)

lemma unescape_simps:
  "c \<noteq> 92 \<Longrightarrow> replace_all [92, 34] [34] (c # t) = c # replace_all [92, 34] [34] t"
  "replace_all [92, 34] [34] (92 # 34 # t) = 34 # replace_all [92, 34] [34] t"
  "t = [] \<or> hd t \<noteq> 34 \<Longrightarrow> replace_all [92, 34] [34] (92 # t) = 92 # replace_all [92, 34] [34] t"
  by (cases t; simp add: replace_all_Cons)+

lemma unescape_char:
  assumes "t = [] \<or> hd t \<noteq> 34"
  shows "replace_all [92, 34] [34] (quoted_char c @ t) = literal_char c @ replace_all [92, 34] [34] t"
  using assms by (simp add: literal_char_def quoted_char_def json_char_def u_def hex_digit_def unescape_simps)

lemma unescape_quotes: "replace_all [92, 34] [34] (concat (map quoted_char s)) = concat (map literal_char s)"
proof (induction s)
  case (Cons c s)
  have "concat (map quoted_char s) = [] \<or> hd (concat (map quoted_char s)) \<noteq> 34"
    using quoted_char_hd by (cases s) auto
  from unescape_char [OF this, of c] Cons show ?case by simp
qed simp

lemma formatString_chars: "formatString s = [39] @ concat (map literal_char s) @ [39]"
  by (simp add: formatString_def replace_outer_quotes_def json_quote_def replace_quotes unescape_quotes butlast_append)

lemma hex_value_digit: "d < 16 \<Longrightarrow> hex_value (hex_digit d) = d"
  by (simp add: hex_value_def hex_digit_def)

lemma read_literal_char: "read_body (literal_char c @ t) = map_option ((#) c) (read_body t)"
proof -
  have "c div 16 < 16" "16 * (c div 16) + c mod 16 = c" if "c < 32" using that by simp_all
  moreover have "hex_value 48 = 0" by (simp add: hex_value_def)
  ultimately show ?thesis
    by (simp add: literal_char_def quoted_char_def json_char_def u_def hex_value_digit)
qed

lemma read_body_chars: "read_body (concat (map literal_char s) @ [39]) = Some s"
  by (induction s) (simp_all add: read_literal_char)

section \<open>Properties\<close>


text \<open>An engine whose objects bring nothing along.\<close>

definition plain_engine :: engine where
  "plain_engine = \<lparr>date_text = num_text, utc_text = num_text, object_text = (\<lambda>r. u ''[object Object]''),
     accessors = (\<lambda>r key. (False, False)), error_instance = (\<lambda>r. False), util_inspect = 0,
     call_inspect = (\<lambda>r rt. None), json = (\<lambda>v. None), to_number = (\<lambda>v. NaN)\<rparr>"

lemma quiet_rings: "quiet plain_engine ctx rings"
proof -
  have "list_all (\<lambda>r. \<not> isFunction rings (get (rings ! r) (u ''inspect''))) [0..<length rings]" by code_simp
  then show ?thesis by (auto simp: quiet_def brings_inspect_def list_all_iff Let_def)
qed


text \<open>
  The depth bounds the stack: on any heap, \<open>inspect\<close> with depth \<open>d\<close> nests at most
  \<open>d + 2\<close> calls, four with the default.
\<close>
theorem inspect_depth_bounds:
  assumes "heap_ok H" and "value_ok H v" and "\<forall>ctx. quiet hst ctx H" and "-1 \<le> d" and "d + 2 \<le> int n"
    and "opts = Opts sh (Some (Some d)) co cu \<or> opts = NoOpts \<and> old_depth = None \<and> d = 2"
  shows "inspect n hst H v opts old_depth old_colors \<noteq> None"
  using formatValue_depth [OF assms(1) _ assms(2,5)] assms(3-6) by (auto simp: inspect_def default_to_def)

theorem inspect_depth_bounds_witness: "inspect 4 plain_engine rings (Ref 0) NoOpts None None \<noteq> None"
proof (rule inspect_depth_bounds [where d = 2])
  show "heap_ok rings" by code_simp
  show "value_ok rings (Ref 0)" by code_simp
  show "\<forall>ctx. quiet plain_engine ctx rings" using quiet_rings by blast
qed simp_all

text \<open>
  Property C31.  A string that \<open>inspect\<close> prints without colours is a string literal of the language that
  reads back as the string.
\<close>
theorem inspect_string_round_trip:
  "\<exists>t. inspect (Suc n) hst H (String s) NoOpts old_depth None = Some t \<and> read_literal t = Some s"
  by (simp add: inspect_def default_to_def formatPrimitive_def stylize_def formatString_chars read_literal_def
      read_body_chars)

text \<open>
  Keys are not printed that way: the name of a property that ends in a backslash, printed
  within the quotes that follow, is no string literal.
\<close>
theorem inspect_key_unreadable:
  "inspect 4 plain_engine
     [\<lparr>kind_of = PlainObj, own = [([97, 92], Number (Whole 1))], hidden = [], inherited = []\<rparr>]
     (Ref 0) NoOpts None None = Some (u ''{ '' @ [39, 97, 92, 39] @ u '': 1 }'') \<and>
   read_literal [39, 97, 92, 39] = None \<and> read_literal [39, 97, 92, 92, 39] = Some [97, 92]"
  by code_simp

end
