(* ===== verification/Js_Collections.thy ===== *)
theory Js_Collections
  imports Js_Objects Js_Util
begin

text \<open>
  Underscore's collection functions on values over a heap (\<open>site/assets/javascripts/lunr/wordcut.js\<close>,
  lines 4610 to 4960 and 5724 to 5787): arrays, strings, plain objects and whatever has a property
  \<open>length\<close>, with the shorthands for callbacks that \<open>cb\<close> expands.  \<open>Js_Underscore\<close> holds the
  functions on arrays of any elements.

  A callback is a function of the value and its key, and leaves the collection as it is; one
  that is given as a value is called by \<open>call\<close>.  The context that \<open>optimizeCb\<close> binds is part of it.
\<close>

section \<open>Tests of types\<close>

definition coll_isObject :: "heap \<Rightarrow> jv \<Rightarrow> bool" where
  "coll_isObject H v \<longleftrightarrow> (case v of Ref r \<Rightarrow> True | _ \<Rightarrow> False)"

definition has_class :: "heap \<Rightarrow> ustr \<Rightarrow> jv \<Rightarrow> bool" where
  "has_class H name v \<longleftrightarrow> class_name H v = name"

definition coll_isBoolean :: "heap \<Rightarrow> jv \<Rightarrow> bool" where
  "coll_isBoolean H v \<longleftrightarrow> v = Bool True \<or> v = Bool False \<or> class_name H v = u ''Boolean''"

definition coll_isElement :: "(jv \<Rightarrow> props) \<Rightarrow> heap \<Rightarrow> jv \<Rightarrow> bool" where
  "coll_isElement boxed H v \<longleftrightarrow> truthy v \<and> strict (read boxed H v (u ''nodeType'')) (Number (Whole 1))"

section \<open>Arrays and objects\<close>

text \<open>\<open>obj.length\<close>, and \<open>obj[i]\<close> for an index.\<close>

definition getLength :: "(jv \<Rightarrow> props) \<Rightarrow> heap \<Rightarrow> jv \<Rightarrow> jv" where
  "getLength boxed H v =
     (case v of
        Ref r \<Rightarrow>
          (case kind_of (H ! r) of
             ArrayObj vs \<Rightarrow> Number (Whole (int (length vs)))
           | ArgumentsObj vs \<Rightarrow> Number (Whole (int (length vs)))
           | StringObj s \<Rightarrow> Number (Whole (int (length s)))
           | _ \<Rightarrow> js_property boxed H (u ''length'') v)
      | String s \<Rightarrow> Number (Whole (int (length s)))
      | _ \<Rightarrow> js_property boxed H (u ''length'') v)"

definition element_at :: "(jv \<Rightarrow> props) \<Rightarrow> heap \<Rightarrow> jv \<Rightarrow> nat \<Rightarrow> jv" where
  "element_at boxed H v i =
     (case v of
        String s \<Rightarrow> if i < length s then String [s ! i] else read boxed H v (dec_digits i)
      | _ \<Rightarrow> read boxed H v (dec_digits i))"

text \<open>
  \<open>isArrayLike\<close> with the length it finds.  A length between 0 and \<open>2\<^sup>5\<^sup>3 - 1\<close> makes any value an
  array; \<open>None\<close> stands for a value whose keys are gone through.
\<close>

definition array_length :: "(jv \<Rightarrow> props) \<Rightarrow> heap \<Rightarrow> jv \<Rightarrow> nat option" where
  "array_length boxed H v =
     (case getLength boxed H v of
        Number MinusZero \<Rightarrow> Some 0
      | Number (Whole n) \<Rightarrow> if 0 \<le> n \<and> n \<le> 2 ^ 53 - 1 then Some (nat n) else None
      | _ \<Rightarrow> None)"

datatype coll_key = Index nat | Key ustr

text \<open>What a loop over a collection goes through.\<close>

definition entries_of :: "(jv \<Rightarrow> props) \<Rightarrow> heap \<Rightarrow> jv \<Rightarrow> (coll_key \<times> jv) list" where
  "entries_of boxed H v =
     (case array_length boxed H v of
        Some n \<Rightarrow> map (\<lambda>i. (Index i, element_at boxed H v i)) [0..<n]
      | None \<Rightarrow> map (\<lambda>k. (Key k, read boxed H v k)) (js_keys_of H v))"

section \<open>Loops\<close>

definition coll_each :: "(jv \<Rightarrow> props) \<Rightarrow> heap \<Rightarrow> jv \<Rightarrow> (jv \<Rightarrow> coll_key \<Rightarrow> 's \<Rightarrow> 's) \<Rightarrow> 's \<Rightarrow> 's" where
  "coll_each boxed H v iteratee = fold (\<lambda>(k, x). iteratee x k) (entries_of boxed H v)"

definition coll_map :: "(jv \<Rightarrow> props) \<Rightarrow> heap \<Rightarrow> jv \<Rightarrow> (jv \<Rightarrow> coll_key \<Rightarrow> jv) \<Rightarrow> jv list" where
  "coll_map boxed H v iteratee = map (\<lambda>(k, x). iteratee x k) (entries_of boxed H v)"

text \<open>
  \<open>createReduce\<close>, from the left or from the right.  Without an initial value the entry at the end it
  starts from is taken; in an empty collection that is the property \<open>0\<close>, \<open>-1\<close> or \<open>undefined\<close> of
  the value, and the outcome \<open>None\<close> is the \<open>TypeError\<close> of reading it from \<open>null\<close> or \<open>undefined\<close>.
\<close>

definition coll_reduce ::
  "bool \<Rightarrow> (jv \<Rightarrow> props) \<Rightarrow> heap \<Rightarrow> jv \<Rightarrow> (jv \<Rightarrow> jv \<Rightarrow> coll_key \<Rightarrow> jv) \<Rightarrow> jv option \<Rightarrow> jv option" where
  "coll_reduce from_left boxed H v iteratee memo =
     (let es = (if from_left then entries_of boxed H v else rev (entries_of boxed H v));
          run = (\<lambda>m es. foldl (\<lambda>m (k, x). iteratee m x k) m es)
      in case memo of
           Some m \<Rightarrow> Some (run m es)
         | None \<Rightarrow>
             (case es of
                (k, x) # rest \<Rightarrow> Some (run x rest)
              | [] \<Rightarrow>
                  if nullish v then None
                  else Some (read boxed H v
                    (if array_length boxed H v = None then u ''undefined''
                     else if from_left then u ''0'' else u ''-1''))))"

definition coll_find :: "(jv \<Rightarrow> props) \<Rightarrow> heap \<Rightarrow> jv \<Rightarrow> (jv \<Rightarrow> coll_key \<Rightarrow> bool) \<Rightarrow> jv" where
  "coll_find boxed H v predicate =
     (case find (\<lambda>(k, x). predicate x k) (entries_of boxed H v) of Some (k, x) \<Rightarrow> x | None \<Rightarrow> Undefined)"

definition coll_filter :: "(jv \<Rightarrow> props) \<Rightarrow> heap \<Rightarrow> jv \<Rightarrow> (jv \<Rightarrow> coll_key \<Rightarrow> bool) \<Rightarrow> jv list" where
  "coll_filter boxed H v predicate =
     coll_each boxed H v (\<lambda>x k results. if predicate x k then results @ [x] else results) []"

definition coll_reject :: "(jv \<Rightarrow> props) \<Rightarrow> heap \<Rightarrow> jv \<Rightarrow> (jv \<Rightarrow> coll_key \<Rightarrow> bool) \<Rightarrow> jv list" where
  "coll_reject boxed H v predicate = coll_filter boxed H v (\<lambda>x k. \<not> predicate x k)"

fun every_entry :: "(jv \<Rightarrow> coll_key \<Rightarrow> bool) \<Rightarrow> (coll_key \<times> jv) list \<Rightarrow> bool" where
  "every_entry predicate [] = True"
| "every_entry predicate ((k, x) # es) = (if \<not> predicate x k then False else every_entry predicate es)"

fun some_entry :: "(jv \<Rightarrow> coll_key \<Rightarrow> bool) \<Rightarrow> (coll_key \<times> jv) list \<Rightarrow> bool" where
  "some_entry predicate [] = False"
| "some_entry predicate ((k, x) # es) = (if predicate x k then True else some_entry predicate es)"

definition coll_every :: "(jv \<Rightarrow> props) \<Rightarrow> heap \<Rightarrow> jv \<Rightarrow> (jv \<Rightarrow> coll_key \<Rightarrow> bool) \<Rightarrow> bool" where
  "coll_every boxed H v predicate = every_entry predicate (entries_of boxed H v)"

definition coll_some :: "(jv \<Rightarrow> props) \<Rightarrow> heap \<Rightarrow> jv \<Rightarrow> (jv \<Rightarrow> coll_key \<Rightarrow> bool) \<Rightarrow> bool" where
  "coll_some boxed H v predicate = some_entry predicate (entries_of boxed H v)"

section \<open>Callbacks given as values\<close>

text \<open>A property name made of a value: \<open>to_str\<close> is the conversion.\<close>

definition coll_callback ::
  "(jv \<Rightarrow> ustr) \<Rightarrow> (jv \<Rightarrow> jv \<Rightarrow> coll_key \<Rightarrow> jv) \<Rightarrow> (jv \<Rightarrow> props) \<Rightarrow> (ustr \<times> jv \<times> bool) list \<Rightarrow> heap \<Rightarrow> jv \<Rightarrow>
   heap \<times> (jv \<Rightarrow> coll_key \<Rightarrow> jv)" where
  "coll_callback to_str call boxed obj_proto H v =
     (if nullish v then (H, \<lambda>x k. x)
      else
        (case v of
           Ref r \<Rightarrow>
             (case kind_of (H ! r) of
                FunctionObj i \<Rightarrow> (H, call v)
              | _ \<Rightarrow>
                  (let (H1, attrs) = js_matcher boxed obj_proto H v
                   in (H1, \<lambda>x k. Bool (js_isMatch boxed H1 x attrs))))
         | _ \<Rightarrow> (H, \<lambda>x k. js_property boxed H (to_str v) x)))"

definition coll_pluck :: "(jv \<Rightarrow> props) \<Rightarrow> heap \<Rightarrow> jv \<Rightarrow> ustr \<Rightarrow> jv list" where
  "coll_pluck boxed H v key = coll_map boxed H v (\<lambda>x k. js_property boxed H key x)"

definition coll_where ::
  "(jv \<Rightarrow> props) \<Rightarrow> (ustr \<times> jv \<times> bool) list \<Rightarrow> heap \<Rightarrow> jv \<Rightarrow> jv \<Rightarrow> jv list" where
  "coll_where boxed obj_proto H v attrs =
     (let (H1, copy) = js_matcher boxed obj_proto H attrs
      in coll_filter boxed H1 v (\<lambda>x k. js_isMatch boxed H1 x copy))"

definition coll_findWhere ::
  "(jv \<Rightarrow> props) \<Rightarrow> (ustr \<times> jv \<times> bool) list \<Rightarrow> heap \<Rightarrow> jv \<Rightarrow> jv \<Rightarrow> jv" where
  "coll_findWhere boxed obj_proto H v attrs =
     (let (H1, copy) = js_matcher boxed obj_proto H attrs
      in coll_find boxed H1 v (\<lambda>x k. js_isMatch boxed H1 x copy))"

text \<open>
  \<open>_.invoke\<close>: the method is a function or the name of one; \<open>apply_to\<close> calls a function on a value.
  \<open>None\<close> is the \<open>TypeError\<close> of reading a property of \<open>null\<close> or \<open>undefined\<close>, or of calling what is
  no function.
\<close>

definition coll_invoke ::
  "(jv \<Rightarrow> ustr) \<Rightarrow> (jv \<Rightarrow> jv \<Rightarrow> jv) \<Rightarrow> (jv \<Rightarrow> props) \<Rightarrow> heap \<Rightarrow> jv \<Rightarrow> jv \<Rightarrow> jv list option" where
  "coll_invoke to_str apply_to boxed H v method =
     those (map (\<lambda>(k, x).
       if isFunction H method then Some (apply_to method x)
       else if nullish x then None
       else
         (let func = read boxed H x (to_str method) in
          if nullish func then Some func
          else if isFunction H func then Some (apply_to func x) else None))
     (entries_of boxed H v))"

section \<open>Extremes and sizes\<close>

text \<open>
  \<open>_.max\<close> and \<open>_.min\<close> without an iteratee.  \<open>beyond\<close> is the operator \<open>>\<close> or \<open><\<close> of the engine on
  any values; its second argument \<open>None\<close> is the infinity that the search starts from, and so is
  the result \<open>None\<close>.
\<close>

definition coll_extreme :: "(jv \<Rightarrow> jv option \<Rightarrow> bool) \<Rightarrow> (jv \<Rightarrow> props) \<Rightarrow> heap \<Rightarrow> jv \<Rightarrow> jv option" where
  "coll_extreme beyond boxed H v =
     fold (\<lambda>x result. if beyond x result then Some x else result)
       (case array_length boxed H v of
          Some n \<Rightarrow> map (element_at boxed H v) [0..<n]
        | None \<Rightarrow> js_values H v) None"

definition coll_max :: "(jv \<Rightarrow> jv option \<Rightarrow> bool) \<Rightarrow> (jv \<Rightarrow> props) \<Rightarrow> heap \<Rightarrow> jv \<Rightarrow> jv option" where
  "coll_max larger = coll_extreme larger"

definition coll_min :: "(jv \<Rightarrow> jv option \<Rightarrow> bool) \<Rightarrow> (jv \<Rightarrow> props) \<Rightarrow> heap \<Rightarrow> jv \<Rightarrow> jv option" where
  "coll_min smaller = coll_extreme smaller"

definition coll_toArray :: "(jv \<Rightarrow> props) \<Rightarrow> heap \<Rightarrow> jv \<Rightarrow> jv list" where
  "coll_toArray boxed H v =
     (if \<not> truthy v then []
      else
        (case v of
           Ref r \<Rightarrow>
             (case kind_of (H ! r) of
                ArrayObj vs \<Rightarrow> vs
              | _ \<Rightarrow> if array_length boxed H v \<noteq> None then coll_map boxed H v (\<lambda>x k. x) else js_values H v)
         | _ \<Rightarrow> if array_length boxed H v \<noteq> None then coll_map boxed H v (\<lambda>x k. x) else js_values H v))"

definition coll_size :: "(jv \<Rightarrow> props) \<Rightarrow> heap \<Rightarrow> jv \<Rightarrow> nat" where
  "coll_size boxed H v =
     (if nullish v then 0
      else (case array_length boxed H v of Some n \<Rightarrow> n | None \<Rightarrow> length (js_keys_of H v)))"

definition coll_compact :: "(jv \<Rightarrow> props) \<Rightarrow> heap \<Rightarrow> jv \<Rightarrow> jv list" where
  "coll_compact boxed H v = coll_filter boxed H v (\<lambda>x k. truthy x)"

section \<open>Entries and sizes\<close>

lemma length_entries: "length (entries_of boxed H v) = coll_size boxed H v"
proof (cases "nullish v")
  case True
  then have "array_length boxed H v = None"
    by (auto simp: nullish_def array_length_def getLength_def js_property_def)
  with True show ?thesis
    by (auto simp: entries_of_def coll_size_def nullish_def js_keys_of_def)
next
  case False
  then show ?thesis by (auto simp: entries_of_def coll_size_def split: option.split)
qed

lemma coll_filter_entries:
  "coll_filter boxed H v predicate = map snd (filter (\<lambda>(k, x). predicate x k) (entries_of boxed H v))"
proof -
  have "fold (\<lambda>(k, x) results. if predicate x k then results @ [x] else results) es rs =
      rs @ map snd (filter (\<lambda>(k, x). predicate x k) es)" for es rs
    by (induction es arbitrary: rs) (auto split: prod.splits)
  then show ?thesis by (simp add: coll_filter_def coll_each_def)
qed

lemma every_entry_iff: "every_entry predicate es \<longleftrightarrow> (\<forall>(k, x) \<in> set es. predicate x k)"
  and some_entry_iff: "some_entry predicate es \<longleftrightarrow> (\<exists>(k, x) \<in> set es. predicate x k)"
  by (induction es) (auto split: if_splits)

text \<open>\<open>filter\<close> and \<open>reject\<close> divide the values of a collection, and \<open>every\<close> and \<open>some\<close> ask for all of them.\<close>

lemma filter_reject_divide:
  "length (coll_filter boxed H v P) + length (coll_reject boxed H v P) = coll_size boxed H v"
  "coll_every boxed H v P \<longleftrightarrow> coll_reject boxed H v P = []"
  "coll_some boxed H v P \<longleftrightarrow> coll_filter boxed H v P \<noteq> []"
proof -
  show "length (coll_filter boxed H v P) + length (coll_reject boxed H v P) = coll_size boxed H v"
    using sum_length_filter_compl [of "\<lambda>e. P (snd e) (fst e)" "entries_of boxed H v"]
    by (simp add: coll_reject_def coll_filter_entries length_entries case_prod_unfold)
  show "coll_every boxed H v P \<longleftrightarrow> coll_reject boxed H v P = []"
    by (auto simp: coll_reject_def coll_filter_entries coll_every_def every_entry_iff filter_empty_conv)
  show "coll_some boxed H v P \<longleftrightarrow> coll_filter boxed H v P \<noteq> []"
    by (auto simp: coll_filter_entries coll_some_def some_entry_iff filter_empty_conv)
qed

lemma coll_find_filter:
  "coll_find boxed H v P = (case coll_filter boxed H v P of [] \<Rightarrow> Undefined | x # xs \<Rightarrow> x)"
proof -
  have "(case find Q es of None \<Rightarrow> Undefined | Some (k, x) \<Rightarrow> x) =
      (case map snd (filter Q es) of [] \<Rightarrow> Undefined | x # xs \<Rightarrow> x)" for Q and es :: "(coll_key \<times> jv) list"
    by (induction es) (auto split: prod.splits)
  then show ?thesis by (simp add: coll_find_def coll_filter_entries)
qed

section \<open>The copy of the attributes\<close>

text \<open>Nothing that could be seen before changes when an object is added to the heap.\<close>

lemma read_grown: "value_ok H v \<Longrightarrow> read boxed (H @ [ob]) v key = read boxed H v key"
  and has_key_grown: "value_ok H v \<Longrightarrow> has_key boxed (H @ [ob]) v key = has_key boxed H v key"
  and keys_grown: "value_ok H v \<Longrightarrow> js_keys_of (H @ [ob]) v = js_keys_of H v"
  by (cases v; simp add: read_def has_key_def js_keys_of_def nth_append)+

lemma array_length_grown:
  assumes "value_ok H v"
  shows "array_length boxed (H @ [ob]) v = array_length boxed H v"
proof -
  have "getLength boxed (H @ [ob]) v = getLength boxed H v"
    using assms by (cases v) (simp_all add: getLength_def js_property_def read_grown nth_append split: kind.split)
  then show ?thesis by (simp add: array_length_def)
qed

lemma entries_grown: "value_ok H v \<Longrightarrow> entries_of boxed (H @ [ob]) v = entries_of boxed H v"
  by (auto simp: entries_of_def array_length_grown keys_grown read_grown element_at_def
      split: option.split jv.split)

lemma entries_ok:
  assumes "heap_ok H" and "boxed_ok H boxed" and "value_ok H v" and "(k, x) \<in> set (entries_of boxed H v)"
  shows "value_ok H x"
  using assms(4) read_ok [OF assms(1-3)]
  by (auto simp: entries_of_def element_at_def split: option.splits jv.splits if_splits)

lemma matcher_copy:
  assumes "heap_ok H" and "value_ok H attrs"
  obtains ob where "js_matcher boxed obj_proto H attrs = (H @ [ob], Ref (length H))"
    and "obj_keys ob = js_keys_of H attrs"
    and "\<And>k. k \<in> set (js_keys_of H attrs) \<Longrightarrow> get ob k = read boxed H attrs k"
proof (cases "\<exists>r. attrs = Ref r")
  case False
  let ?new = "\<lparr>kind_of = PlainObj, own = [], hidden = [], inherited = obj_proto\<rparr>"
  have k: "js_keys_of G attrs = []" for G using False by (cases attrs) (auto simp: js_keys_of_def)
  then have "js_matcher boxed obj_proto H attrs = (H @ [?new], Ref (length H))"
    by (simp add: js_matcher_def alloc_def js_extendOwn_def createAssigner_def assign_source_def)
  with that [of ?new] k show thesis by (simp add: obj_keys_def own_props_def own_elements_def)
next
  case True
  then obtain r where r: "attrs = Ref r" "r < length H" using assms(2) by auto
  let ?ks = "obj_keys (H ! r)"
  let ?new = "\<lparr>kind_of = PlainObj, own = map (\<lambda>k. (k, get (H ! r) k)) ?ks, hidden = [], inherited = obj_proto\<rparr>"
  have dist: "distinct ?ks" using heap_okD [OF assms(1) r(2)] by (simp add: obj_ok_def obj_keys_def)
  have "js_matcher boxed obj_proto H attrs = (H @ [?new], Ref (length H))"
    using r assign_plain [OF r(2), of "\<lparr>kind_of = PlainObj, own = [], hidden = [], inherited = obj_proto\<rparr>" boxed ?ks]
      fold_update_new [OF dist, of "[]" "get (H ! r)"]
    by (simp add: js_matcher_def alloc_def js_extendOwn_def createAssigner_def assign_source_def
        js_keys_of_def nth_append)
  moreover have keys: "obj_keys ?new = ?ks"
    by (simp add: obj_keys_def own_props_def own_elements_def comp_def)
  moreover have "get ?new k = get (H ! r) k" if "k \<in> set ?ks" for k
    using that dist keys by (intro get_own) (auto simp: own_props_def own_elements_def)
  ultimately show thesis using that [of ?new] r(1) by (simp add: js_keys_of_def read_def)
qed

text \<open>
  The matcher compares with the properties that the attributes had when it was made; as nothing is
  written in between these are those of the attributes.
\<close>

lemma where_matches:
  assumes "heap_ok H" and "boxed_ok H boxed" and "value_ok H v" and "value_ok H attrs"
  shows "coll_where boxed obj_proto H v attrs =
      map snd (filter (\<lambda>(k, x). js_isMatch boxed H x attrs) (entries_of boxed H v)) \<and>
    coll_findWhere boxed obj_proto H v attrs =
      (case coll_where boxed obj_proto H v attrs of [] \<Rightarrow> Undefined | x # xs \<Rightarrow> x)"
proof -
  obtain ob where ob: "js_matcher boxed obj_proto H attrs = (H @ [ob], Ref (length H))"
      "obj_keys ob = js_keys_of H attrs"
      "\<And>k. k \<in> set (js_keys_of H attrs) \<Longrightarrow> get ob k = read boxed H attrs k"
    by (rule matcher_copy [OF assms(1,4)]) blast
  have match: "js_isMatch boxed (H @ [ob]) x (Ref (length H)) = js_isMatch boxed H x attrs"
    if "value_ok H x" for x
  proof -
    have "js_keys_of (H @ [ob]) (Ref (length H)) = js_keys_of H attrs"
      using ob(2) by (simp add: js_keys_of_def)
    moreover have "read boxed (H @ [ob]) (Ref (length H)) k = read boxed H attrs k"
      if "k \<in> set (js_keys_of H attrs)" for k
      using ob(3) [OF that] by (simp add: read_def [of _ "H @ [ob]"])
    ultimately show ?thesis
      using that by (auto simp: js_isMatch_def Let_def read_grown has_key_grown list_all_iff)
  qed
  have "filter (\<lambda>(k, x). js_isMatch boxed (H @ [ob]) x (Ref (length H))) (entries_of boxed H v) =
      filter (\<lambda>(k, x). js_isMatch boxed H x attrs) (entries_of boxed H v)"
    using match entries_ok [OF assms(1-3)] by (intro filter_cong) auto
  then show ?thesis
    by (simp add: coll_where_def coll_findWhere_def ob(1) coll_find_filter coll_filter_entries
        entries_grown [OF assms(3)])
qed

text \<open>
  A property \<open>length\<close> that is a number makes an array of any object: its keys are not gone through,
  and it has as many values as the number says.
\<close>

lemma length_makes_array:
  fixes H defines "H \<equiv> [\<lparr>kind_of = PlainObj, own = [(u ''length'', Number (Whole 2)), (u ''a'', Bool True)],
    hidden = [], inherited = []\<rparr>]"
  shows "coll_toArray (\<lambda>_. []) H (Ref 0) = [Undefined, Undefined] \<and> coll_size (\<lambda>_. []) H (Ref 0) = 2"
  unfolding H_def by code_simp

end
