(* ===== verification/Js_Log.thy ===== *)
theory Js_Log
  imports Js_Util
begin

text \<open>
  The rest of the module \<open>util\<close> (\<open>site/assets/javascripts/lunr/wordcut.js\<close>, lines 6105 to
  6197 and 6616 to 6665): \<open>format\<close>, \<open>deprecate\<close>, \<open>debuglog\<close>, the time stamps of
  \<open>log\<close> and \<open>_extend\<close>.

  A \<open>None\<close> of \<open>format\<close> is an exception of \<open>inspect\<close>.  What a deprecated function writes to
  the console is a list of notices; the number of nested calls the stack allows is an argument.
\<close>

section \<open>format\<close>

text \<open>
  The replacements of \<open>/%[sdj%]/g\<close>, with the arguments that remain; \<open>%j\<close> of a value that
  \<open>JSON.stringify\<close> rejects is \<open>[Circular]\<close>.
\<close>

definition format_value :: "engine \<Rightarrow> nat \<Rightarrow> jv \<Rightarrow> ustr" where
  "format_value hst d v =
     (if d = 115 then to_text hst v
      else if d = 100 then num_text (to_number hst v)
      else (case json hst v of None \<Rightarrow> u ''[Circular]'' | Some s \<Rightarrow> s))"

fun format_scan :: "engine \<Rightarrow> ustr \<Rightarrow> jv list \<Rightarrow> ustr \<times> jv list" where
  "format_scan hst [] args = ([], args)"
| "format_scan hst [c] args = ([c], args)"
| "format_scan hst (c # d # cs) args =
     (if c = 37 \<and> d = 37 then map_prod ((#) 37) id (format_scan hst cs args)
      else if c = 37 \<and> d \<in> {115, 100, 106}
      then (case args of
              [] \<Rightarrow> map_prod ((@) [c, d]) id (format_scan hst cs [])
            | v # vs \<Rightarrow> map_prod ((@) (format_value hst d v)) id (format_scan hst cs vs))
      else map_prod ((#) c) id (format_scan hst (d # cs) args))"

definition format_rest :: "nat \<Rightarrow> engine \<Rightarrow> heap \<Rightarrow> jv \<Rightarrow> ustr option" where
  "format_rest n hst H x =
     (if isObject H x then map_option ((#) 32) (inspect n hst H x NoOpts None None)
      else Some (32 # to_text hst x))"

definition format :: "nat \<Rightarrow> engine \<Rightarrow> heap \<Rightarrow> jv list \<Rightarrow> ustr option" where
  "format n hst H args =
     (case args of
        String s # rest \<Rightarrow>
          (let (str, left) = format_scan hst s rest
           in map_option (\<lambda>ts. str @ concat ts) (all_some (map (format_rest n hst H) left)))
      | _ \<Rightarrow> map_option (join_with [32]) (all_some (map (\<lambda>x. inspect n hst H x NoOpts None None) args)))"

section \<open>deprecate\<close>

record process_flags =
  noDeprecation :: bool
  throwDeprecation :: bool
  traceDeprecation :: bool

datatype notice = Traced ustr | Printed ustr

text \<open>
  What \<open>deprecate\<close> returns: the function itself, one that warns and has or has not done so, or one
  that calls \<open>deprecate\<close> again when it is called.
\<close>

datatype wrapper = Unwrapped | Warns bool | Later

datatype called = Ran "notice list" wrapper | Threw ustr | Overflow

definition deprecate :: "bool \<Rightarrow> process_flags \<Rightarrow> wrapper" where
  "deprecate has_process flags =
     (if \<not> has_process then Later else if noDeprecation flags then Unwrapped else Warns False)"

definition deprecated :: "process_flags \<Rightarrow> ustr \<Rightarrow> bool \<Rightarrow> called" where
  "deprecated flags msg warned =
     (if warned then Ran [] (Warns True)
      else if throwDeprecation flags then Threw msg
      else Ran [if traceDeprecation flags then Traced msg else Printed msg] (Warns True))"

primrec call_wrapper :: "nat \<Rightarrow> bool \<Rightarrow> process_flags \<Rightarrow> ustr \<Rightarrow> wrapper \<Rightarrow> called" where
  "call_wrapper 0 has_process flags msg w = Overflow"
| "call_wrapper (Suc n) has_process flags msg w =
     (case w of
        Unwrapped \<Rightarrow> Ran [] Unwrapped
      | Warns warned \<Rightarrow> deprecated flags msg warned
      | Later \<Rightarrow>
          (case call_wrapper n has_process flags msg (deprecate has_process flags) of
             Ran ns w' \<Rightarrow> Ran ns Later
           | res \<Rightarrow> res))"

text \<open>A sequence of calls, each under the flags of its time: the notices and the wrapper left.\<close>

fun call_all :: "nat \<Rightarrow> ustr \<Rightarrow> process_flags list \<Rightarrow> wrapper \<Rightarrow> notice list" where
  "call_all n msg [] w = []"
| "call_all n msg (flags # fs) w =
     (case call_wrapper n True flags msg w of
        Ran ns w' \<Rightarrow> ns @ call_all n msg fs w'
      | _ \<Rightarrow> call_all n msg fs w)"

section \<open>debuglog\<close>

record debug_state =
  debugs :: "(ustr \<times> bool) list"
  debugEnviron :: "ustr option"

text \<open>
  Whether the function returned writes: \<open>upper\<close> is \<open>toUpperCase\<close>, \<open>names set env\<close> the test of
  the environment for the word, \<open>env\<close> the variable at the time of the call, empty when unset.
\<close>

definition debuglog ::
    "(ustr \<Rightarrow> ustr) \<Rightarrow> (ustr \<Rightarrow> ustr \<Rightarrow> bool) \<Rightarrow> ustr \<Rightarrow> ustr \<Rightarrow> debug_state \<Rightarrow> bool \<times> debug_state" where
  "debuglog upper names env name s =
     (let environ = (case debugEnviron s of None \<Rightarrow> env | Some e \<Rightarrow> e);
          set_name = upper name
      in case map_of (debugs s) set_name of
           Some enabled \<Rightarrow> (enabled, s\<lparr>debugEnviron := Some environ\<rparr>)
         | None \<Rightarrow>
             (names set_name environ,
              \<lparr>debugs = AList.update set_name (names set_name environ) (debugs s), debugEnviron = Some environ\<rparr>))"

section \<open>log and _extend\<close>

definition pad :: "nat \<Rightarrow> ustr" where
  "pad n = (if n < 10 then 48 # dec_digits n else dec_digits n)"

definition month_names :: "ustr list" where
  "month_names = [u ''Jan'', u ''Feb'', u ''Mar'', u ''Apr'', u ''May'', u ''Jun'', u ''Jul'', u ''Aug'', u ''Sep'',
     u ''Oct'', u ''Nov'', u ''Dec'']"

record clock_time =
  hours :: nat
  minutes :: nat
  seconds :: nat
  day :: nat
  month :: nat

definition timestamp :: "clock_time \<Rightarrow> ustr" where
  "timestamp d =
     (let time = join_with [58] [pad (hours d), pad (minutes d), pad (seconds d)]
      in join_with [32] [dec_digits (day d), month_names ! month d, time])"

definition log_line :: "nat \<Rightarrow> engine \<Rightarrow> heap \<Rightarrow> clock_time \<Rightarrow> jv list \<Rightarrow> (ustr \<times> ustr) option" where
  "log_line n hst H d args = map_option (\<lambda>s. (timestamp d, s)) (format n hst H args)"

definition util_extend :: "(jv \<Rightarrow> props) \<Rightarrow> heap \<Rightarrow> nat \<Rightarrow> jv \<Rightarrow> heap" where
  "util_extend boxed H origin add =
     (if truthy add \<and> isObject H add
      then fold (assign_key boxed False origin add) (rev (js_keys_of H add)) H
      else H)"

section \<open>Directives\<close>

text \<open>A format string as a list of pieces, and what filling it in means.\<close>

datatype piece = Lit ustr | Percent | Directive nat

fun piece_text :: "piece \<Rightarrow> ustr" where
  "piece_text (Lit s) = s"
| "piece_text Percent = [37, 37]"
| "piece_text (Directive d) = [37, d]"

fun piece_ok :: "piece \<Rightarrow> bool" where
  "piece_ok (Lit s) = (37 \<notin> set s)"
| "piece_ok Percent = True"
| "piece_ok (Directive d) = (d \<in> {115, 100, 106})"

definition is_directive :: "piece \<Rightarrow> bool" where
  "is_directive p \<longleftrightarrow> (case p of Directive d \<Rightarrow> True | _ \<Rightarrow> False)"

fun fill :: "engine \<Rightarrow> piece list \<Rightarrow> jv list \<Rightarrow> ustr" where
  "fill hst [] args = []"
| "fill hst (Lit s # ps) args = s @ fill hst ps args"
| "fill hst (Percent # ps) args = 37 # fill hst ps args"
| "fill hst (Directive d # ps) [] = [37, d] @ fill hst ps []"
| "fill hst (Directive d # ps) (v # vs) = format_value hst d v @ fill hst ps vs"

lemma format_scan_free:
  "37 \<notin> set s \<Longrightarrow> format_scan hst (s @ t) args = map_prod ((@) s) id (format_scan hst t args)"
proof (induction s)
  case (Cons c s)
  have "format_scan hst (c # r) args = map_prod ((#) c) id (format_scan hst r args)" if "c \<noteq> 37" for r
    using that by (cases r) simp_all
  with Cons show ?case by (simp add: prod.map_comp comp_def)
qed (cases "format_scan hst t args", simp)

lemma format_scan_pieces:
  "list_all piece_ok ps \<Longrightarrow>
     format_scan hst (concat (map piece_text ps)) args =
       (fill hst ps args, drop (length (filter is_directive ps)) args)"
  by (induction hst ps args rule: fill.induct) (auto simp: format_scan_free is_directive_def)

section \<open>Properties\<close>

text \<open>
  \<open>format\<close> fills the directives of its first argument from left to right, each from an
  argument of its own, \<open>%%\<close> being a percent sign; the primitives left over follow, each after
  a space.
\<close>
theorem format_fills:
  assumes "list_all piece_ok ps" and "list_all isPrimitive (drop (length (filter is_directive ps)) args)"
  shows "format n hst H (String (concat (map piece_text ps)) # args) =
    Some (fill hst ps args @
      concat (map (\<lambda>v. 32 # to_text hst v) (drop (length (filter is_directive ps)) args)))"
proof -
  have "all_some (map (format_rest n hst H) vs) = Some (map (\<lambda>v. 32 # to_text hst v) vs)"
    if "list_all isPrimitive vs" for vs
    using that by (induction vs)
      (auto simp: format_rest_def isObject_def typeof_object_def isPrimitive_def split: jv.splits)
  from this [OF assms(2)] format_scan_pieces [OF assms(1)] show ?thesis by (simp add: format_def)
qed

theorem format_fills_witness:
  "format 4 plain_engine [] (String (concat (map piece_text [Lit (u ''at ''), Directive 115, Percent])) # [Bool True, Null]) =
    Some (fill plain_engine [Lit (u ''at ''), Directive 115, Percent] [Bool True, Null] @ 32 # u ''null'')"
  using format_fills [of "[Lit (u ''at ''), Directive 115, Percent]" "[Bool True, Null]" 4 plain_engine "[]"]
  by (simp add: is_directive_def isPrimitive_def u_def)

text \<open>
  A deprecated function warns once: over any calls, with any flags at each, the notices are
  one at the first call that does not throw and none after it.
\<close>
theorem deprecated_warns_once:
  "call_all (Suc n) msg fs (Warns False) =
     (case filter (\<lambda>f. \<not> throwDeprecation f) fs of
        [] \<Rightarrow> []
      | f # rest \<Rightarrow> [if traceDeprecation f then Traced msg else Printed msg])"
proof -
  have "call_all (Suc n) msg fs (Warns True) = []" for fs
    by (induction fs) (simp_all add: deprecated_def)
  then show ?thesis by (induction fs) (simp_all add: deprecated_def)
qed

text \<open>
  A function deprecated before the global \<open>process\<close> exists overflows every stack when it is
  called without one, as in a browser, and warns at each call once there is one.
\<close>
theorem deprecated_early:
  "call_wrapper n False flags msg (deprecate False flags0) = Overflow \<and>
   (\<not> noDeprecation flags \<and> \<not> throwDeprecation flags \<longrightarrow>
      call_all (Suc (Suc n)) msg (replicate k flags) (deprecate False flags0) =
        replicate k (if traceDeprecation flags then Traced msg else Printed msg))"
proof
  show "call_wrapper n False flags msg (deprecate False flags0) = Overflow"
    by (induction n) (simp_all add: deprecate_def)
  show "\<not> noDeprecation flags \<and> \<not> throwDeprecation flags \<longrightarrow>
      call_all (Suc (Suc n)) msg (replicate k flags) (deprecate False flags0) =
        replicate k (if traceDeprecation flags then Traced msg else Printed msg)"
    by (induction k) (auto simp: deprecate_def deprecated_def)
qed

theorem deprecated_early_witness:
  "call_all 2 (u ''old'') (replicate 3 \<lparr>noDeprecation = False, throwDeprecation = False, traceDeprecation = False\<rparr>)
     (deprecate False \<lparr>noDeprecation = False, throwDeprecation = False, traceDeprecation = False\<rparr>) =
   replicate 3 (Printed (u ''old''))"
  using deprecated_early [of 0 "\<lparr>noDeprecation = False, throwDeprecation = False, traceDeprecation = False\<rparr>" "u ''old''"
      "\<lparr>noDeprecation = False, throwDeprecation = False, traceDeprecation = False\<rparr>" 3]
  by (simp add: numeral_2_eq_2)

end
