(* ===== verification/Js_Assert.thy ===== *)
theory Js_Assert
  imports Js_Util
begin

text \<open>
  The module \<open>assert\<close> of the bundle (\<open>site/assets/javascripts/lunr/wordcut.js\<close>, lines 644 to
  978) on values over a heap.

  The coercions of \<open>==\<close> that depend on the engine or on the program's objects are the record
  \<open>coercions\<close>; what \<open>throws\<close> asks of the value it is given is the record \<open>testers\<close>.  An
  assertion passes, throws an \<open>AssertionError\<close>, lets an exception of the program through, or
  breaks with an error of the engine: a \<open>TypeError\<close>, or the \<open>RangeError\<close> of a full stack,
  where the stack is a number of nested calls of \<open>_deepEqual\<close>.
\<close>

section \<open>Loose equality\<close>

record coercions =
  string_number :: "ustr \<Rightarrow> number"
  primitive_of :: "nat \<Rightarrow> jv"
  boxed_props :: "jv \<Rightarrow> props"

definition to_primitive :: "coercions \<Rightarrow> jv \<Rightarrow> jv" where
  "to_primitive cv v = (case v of Ref r \<Rightarrow> primitive_of cv r | _ \<Rightarrow> v)"

fun number_of :: "coercions \<Rightarrow> jv \<Rightarrow> number" where
  "number_of cv (Number n) = n"
| "number_of cv (Bool b) = Whole (if b then 1 else 0)"
| "number_of cv (String s) = string_number cv s"
| "number_of cv Null = Whole 0"
| "number_of cv _ = NaN"

definition loose_primitives :: "coercions \<Rightarrow> jv \<Rightarrow> jv \<Rightarrow> bool" where
  "loose_primitives cv x y \<longleftrightarrow>
     (if nullish x \<or> nullish y then nullish x \<and> nullish y
      else (case (x, y) of
              (String s, String t) \<Rightarrow> s = t
            | _ \<Rightarrow> num_strict (number_of cv x) (number_of cv y)))"

text \<open>The operator \<open>==\<close>: an object is compared by what it coerces to, which never is \<open>null\<close> to it.\<close>

definition loose :: "coercions \<Rightarrow> jv \<Rightarrow> jv \<Rightarrow> bool" where
  "loose cv x y \<longleftrightarrow>
     (if nullish x \<or> nullish y then nullish x \<and> nullish y
      else (case (x, y) of
              (Ref r, Ref r') \<Rightarrow> r = r'
            | _ \<Rightarrow> loose_primitives cv (to_primitive cv x) (to_primitive cv y)))"

section \<open>Deep equality\<close>

definition length_count :: "coercions \<Rightarrow> jv \<Rightarrow> nat" where
  "length_count cv l = (case number_of cv (to_primitive cv l) of Whole i \<Rightarrow> nat i | _ \<Rightarrow> 0)"

definition buffers_equal :: "coercions \<Rightarrow> heap \<Rightarrow> nat \<Rightarrow> nat \<Rightarrow> bool" where
  "buffers_equal cv H r r' \<longleftrightarrow>
     (let l = property_value (H ! r) (u ''length''); l' = property_value (H ! r') (u ''length'')
      in loose cv l l' \<and>
         list_all (\<lambda>i. strict (get (H ! r) (dec_digits i)) (get (H ! r') (dec_digits i))) [0..<length_count cv l])"

definition regexp_source :: "ustr \<Rightarrow> ustr" where
  "regexp_source s = rev (tl (dropWhile (\<lambda>c. c \<noteq> 47) (rev (tl s))))"

definition regexp_flags :: "ustr \<Rightarrow> ustr" where
  "regexp_flags s = rev (takeWhile (\<lambda>c. c \<noteq> 47) (rev s))"

definition regexps_equal :: "heap \<Rightarrow> nat \<Rightarrow> nat \<Rightarrow> bool" where
  "regexps_equal H r r' \<longleftrightarrow>
     (let s = regexp_text H r; s' = regexp_text H r'
      in regexp_source s = regexp_source s' \<and>
         list_all (\<lambda>c. c \<in> set (regexp_flags s) \<longleftrightarrow> c \<in> set (regexp_flags s')) (u ''gmi'') \<and>
         strict (get (H ! r) (u ''lastIndex'')) (get (H ! r') (u ''lastIndex'')))"

text \<open>
  The end of \<open>objEquiv\<close> on the own enumerable properties of two objects: sorted keys are compared,
  then the values from the last key to the first.
\<close>

fun all_hold :: "('a \<Rightarrow> bool option) \<Rightarrow> 'a list \<Rightarrow> bool option" where
  "all_hold p [] = Some True"
| "all_hold p (x # xs) = (case p x of Some True \<Rightarrow> all_hold p xs | res \<Rightarrow> res)"

definition value_at :: "props \<Rightarrow> ustr \<Rightarrow> jv" where
  "value_at ps k = (case map_of ps k of None \<Rightarrow> Undefined | Some v \<Rightarrow> v)"

definition compare_props :: "(jv \<Rightarrow> jv \<Rightarrow> bool option) \<Rightarrow> props \<Rightarrow> props \<Rightarrow> bool option" where
  "compare_props cmp pa pb =
     (let ka = sort (map fst pa); kb = sort (map fst pb)
      in if length ka \<noteq> length kb then Some False
         else if ka \<noteq> kb then Some False
         else all_hold (\<lambda>k. cmp (value_at pa k) (value_at pb k)) (rev ka))"

text \<open>What is compared: a value, or the fresh array that \<open>pSlice.call\<close> makes of \<open>arguments\<close>.\<close>

datatype operand = Val jv | Slice "jv list"

definition is_arguments :: "heap \<Rightarrow> nat \<Rightarrow> bool" where
  "is_arguments H r \<longleftrightarrow> (case kind_of (H ! r) of ArgumentsObj vs \<Rightarrow> True | _ \<Rightarrow> False)"

definition element_props :: "jv list \<Rightarrow> props" where
  "element_props vs = zip (map dec_digits [0..<length vs]) vs"

definition objEquiv ::
    "coercions \<Rightarrow> heap \<Rightarrow> (operand \<Rightarrow> operand \<Rightarrow> bool option) \<Rightarrow> jv \<Rightarrow> jv \<Rightarrow> bool option" where
  "objEquiv cv H rec a b =
     (if nullish a \<or> nullish b then Some False
      else if \<not> strict (read (boxed_props cv) H a (u ''prototype'')) (read (boxed_props cv) H b (u ''prototype''))
      then Some False
      else (case (a, b) of
              (Ref r, Ref r') \<Rightarrow>
                if is_arguments H r \<noteq> is_arguments H r' then Some False
                else if is_arguments H r
                then rec (Slice (own_elements (kind_of (H ! r)))) (Slice (own_elements (kind_of (H ! r'))))
                else compare_props (\<lambda>x y. rec (Val x) (Val y)) (own_props (H ! r)) (own_props (H ! r'))
            | _ \<Rightarrow> Some (strict a b)))"

text \<open>The tests before \<open>objEquiv\<close>; \<open>None\<close> is that none of them applies.\<close>

definition deep_head :: "coercions \<Rightarrow> heap \<Rightarrow> jv \<Rightarrow> jv \<Rightarrow> bool option" where
  "deep_head cv H a b =
     (if strict a b then Some True
      else (case (a, b) of
              (Ref r, Ref r') \<Rightarrow>
                if isBuffer H a \<and> isBuffer H b then Some (buffers_equal cv H r r')
                else if isDate H a \<and> isDate H b then Some (num_strict (date_number H r) (date_number H r'))
                else if isRegExp H a \<and> isRegExp H b then Some (regexps_equal H r r')
                else if \<not> isObject H a \<and> \<not> isObject H b then Some (loose cv a b)
                else None
            | _ \<Rightarrow> if \<not> isObject H a \<and> \<not> isObject H b then Some (loose cv a b) else None))"

primrec deep_equal :: "nat \<Rightarrow> coercions \<Rightarrow> heap \<Rightarrow> operand \<Rightarrow> operand \<Rightarrow> bool option" where
  "deep_equal 0 cv H x y = None"
| "deep_equal (Suc n) cv H x y =
     (case (x, y) of
        (Val a, Val b) \<Rightarrow>
          (case deep_head cv H a b of
             Some res \<Rightarrow> Some res
           | None \<Rightarrow> objEquiv cv H (deep_equal n cv H) a b)
      | (Slice vs, Slice ws) \<Rightarrow>
          compare_props (\<lambda>v w. deep_equal n cv H (Val v) (Val w)) (element_props vs) (element_props ws)
      | _ \<Rightarrow> Some False)"

section \<open>Assertion errors\<close>

record assertion_error =
  err_actual :: jv
  err_expected :: jv
  err_operator :: jv
  err_message :: jv
  generatedMessage :: bool

datatype result = Passed | Asserted assertion_error | Raised jv | Broke

text \<open>\<open>stringify\<close> is \<open>JSON.stringify\<close> with a replacer, \<open>None\<close> the \<open>TypeError\<close> of a cycle.\<close>

type_synonym stringify = "(ustr \<Rightarrow> jv \<Rightarrow> jv) \<Rightarrow> jv \<Rightarrow> jv option"

definition replacer :: "engine \<Rightarrow> heap \<Rightarrow> ustr \<Rightarrow> jv \<Rightarrow> jv" where
  "replacer hst H key v =
     (if v = Undefined then String (u ''undefined'')
      else if v = Number NaN then String (num_text NaN)
      else if isFunction H v \<or> isRegExp H v then String (to_text hst v)
      else v)"

definition truncate_text :: "jv \<Rightarrow> nat \<Rightarrow> jv" where
  "truncate_text s n = (case s of String t \<Rightarrow> String (if length t < n then t else take n t) | _ \<Rightarrow> s)"

definition getMessage :: "engine \<Rightarrow> stringify \<Rightarrow> heap \<Rightarrow> jv \<Rightarrow> jv \<Rightarrow> jv \<Rightarrow> ustr option" where
  "getMessage hst stringify H actual expected operator =
     (case stringify (replacer hst H) actual of
        None \<Rightarrow> None
      | Some a \<Rightarrow>
          (case stringify (replacer hst H) expected of
             None \<Rightarrow> None
           | Some e \<Rightarrow>
               Some (to_text hst (truncate_text a 128) @ [32] @ to_text hst operator @ [32] @
                     to_text hst (truncate_text e 128))))"

definition fail :: "engine \<Rightarrow> stringify \<Rightarrow> heap \<Rightarrow> jv \<Rightarrow> jv \<Rightarrow> jv \<Rightarrow> jv \<Rightarrow> result" where
  "fail hst stringify H actual expected message operator =
     (if truthy message
      then Asserted \<lparr>err_actual = actual, err_expected = expected, err_operator = operator,
             err_message = message, generatedMessage = False\<rparr>
      else (case getMessage hst stringify H actual expected operator of
              None \<Rightarrow> Broke
            | Some m \<Rightarrow> Asserted \<lparr>err_actual = actual, err_expected = expected, err_operator = operator,
                err_message = String m, generatedMessage = True\<rparr>))"

text \<open>The trace without the lines up to the function \<open>fn_name\<close>, where traces cannot be captured.\<close>

definition strip_frames :: "ustr \<Rightarrow> ustr \<Rightarrow> ustr" where
  "strip_frames fn_name out =
     (let idx = index_from (10 # fn_name) out 0
      in if 0 \<le> idx then drop (nat (index_from [10] out (nat idx + 1) + 1)) out else out)"

section \<open>The assertions\<close>

definition assert_ok :: "engine \<Rightarrow> stringify \<Rightarrow> heap \<Rightarrow> jv \<Rightarrow> jv \<Rightarrow> result" where
  "assert_ok hst stringify H v message =
     (if \<not> truthy v then fail hst stringify H v (Bool True) message (String (u ''=='')) else Passed)"

definition assert_equal :: "engine \<Rightarrow> stringify \<Rightarrow> coercions \<Rightarrow> heap \<Rightarrow> jv \<Rightarrow> jv \<Rightarrow> jv \<Rightarrow> result" where
  "assert_equal hst stringify cv H actual expected message =
     (if \<not> loose cv actual expected then fail hst stringify H actual expected message (String (u ''==''))
      else Passed)"

definition assert_notEqual :: "engine \<Rightarrow> stringify \<Rightarrow> coercions \<Rightarrow> heap \<Rightarrow> jv \<Rightarrow> jv \<Rightarrow> jv \<Rightarrow> result" where
  "assert_notEqual hst stringify cv H actual expected message =
     (if loose cv actual expected then fail hst stringify H actual expected message (String (u ''!=''))
      else Passed)"

definition assert_deepEqual ::
    "nat \<Rightarrow> engine \<Rightarrow> stringify \<Rightarrow> coercions \<Rightarrow> heap \<Rightarrow> jv \<Rightarrow> jv \<Rightarrow> jv \<Rightarrow> result" where
  "assert_deepEqual n hst stringify cv H actual expected message =
     (case deep_equal n cv H (Val actual) (Val expected) of
        None \<Rightarrow> Broke
      | Some True \<Rightarrow> Passed
      | Some False \<Rightarrow> fail hst stringify H actual expected message (String (u ''deepEqual'')))"

definition assert_notDeepEqual ::
    "nat \<Rightarrow> engine \<Rightarrow> stringify \<Rightarrow> coercions \<Rightarrow> heap \<Rightarrow> jv \<Rightarrow> jv \<Rightarrow> jv \<Rightarrow> result" where
  "assert_notDeepEqual n hst stringify cv H actual expected message =
     (case deep_equal n cv H (Val actual) (Val expected) of
        None \<Rightarrow> Broke
      | Some True \<Rightarrow> fail hst stringify H actual expected message (String (u ''notDeepEqual''))
      | Some False \<Rightarrow> Passed)"

definition assert_strictEqual :: "engine \<Rightarrow> stringify \<Rightarrow> heap \<Rightarrow> jv \<Rightarrow> jv \<Rightarrow> jv \<Rightarrow> result" where
  "assert_strictEqual hst stringify H actual expected message =
     (if \<not> strict actual expected then fail hst stringify H actual expected message (String (u ''==='')) else Passed)"

definition assert_notStrictEqual :: "engine \<Rightarrow> stringify \<Rightarrow> heap \<Rightarrow> jv \<Rightarrow> jv \<Rightarrow> jv \<Rightarrow> result" where
  "assert_notStrictEqual hst stringify H actual expected message =
     (if strict actual expected then fail hst stringify H actual expected message (String (u ''!=='')) else Passed)"

definition assert_ifError :: "jv \<Rightarrow> result" where
  "assert_ifError err = (if truthy err then Raised err else Passed)"

section \<open>throws\<close>

text \<open>
  A regular expression tested on the value thrown, \<open>instanceof\<close>, which may be a \<open>TypeError\<close>, and a
  call of the function expected, which may throw.
\<close>

record testers =
  regexp_test :: "nat \<Rightarrow> jv \<Rightarrow> bool"
  instance_of :: "jv \<Rightarrow> nat \<Rightarrow> bool option"
  call_function :: "nat \<Rightarrow> jv \<Rightarrow> jv + jv"

definition expectedException :: "testers \<Rightarrow> heap \<Rightarrow> jv \<Rightarrow> jv \<Rightarrow> result + bool" where
  "expectedException ts H actual expected =
     (if \<not> truthy actual \<or> \<not> truthy expected then Inr False
      else (case expected of
              Ref f \<Rightarrow>
                if class_name H expected = u ''RegExp'' then Inr (regexp_test ts f actual)
                else if \<not> isFunction H expected then Inl Broke
                else (case instance_of ts actual f of
                        None \<Rightarrow> Inl Broke
                      | Some True \<Rightarrow> Inr True
                      | Some False \<Rightarrow>
                          (case call_function ts f actual of
                             Inl e \<Rightarrow> Inl (Raised e)
                           | Inr v \<Rightarrow> Inr (v = Bool True)))
            | _ \<Rightarrow> Inl Broke))"

definition throws_message :: "engine \<Rightarrow> coercions \<Rightarrow> heap \<Rightarrow> jv \<Rightarrow> jv \<Rightarrow> ustr" where
  "throws_message hst cv H expected message =
     (let name = (if truthy expected then read (boxed_props cv) H expected (u ''name'') else expected)
      in (if truthy expected \<and> truthy name then u '' ('' @ to_text hst name @ u '').'' else u ''.'') @
         (if truthy message then [32] @ to_text hst message else u ''.''))"

text \<open>\<open>block\<close> is what the block throws, \<open>None\<close> when it returns.\<close>

definition throws_or_not ::
    "engine \<Rightarrow> stringify \<Rightarrow> coercions \<Rightarrow> testers \<Rightarrow> heap \<Rightarrow> bool \<Rightarrow> jv option \<Rightarrow> jv \<Rightarrow> jv \<Rightarrow> result" where
  "throws_or_not hst stringify cv ts H shouldThrow block expected0 message0 =
     (let named = (case expected0 of String s \<Rightarrow> True | _ \<Rightarrow> False);
          message1 = (if named then expected0 else message0);
          expected = (if named then Null else expected0);
          actual = (case block of None \<Rightarrow> Undefined | Some e \<Rightarrow> e);
          message = throws_message hst cv H expected message1
      in if shouldThrow \<and> \<not> truthy actual
         then fail hst stringify H actual expected (String (u ''Missing expected exception'' @ message)) Undefined
         else if shouldThrow
         then (if truthy expected
               then (case expectedException ts H actual expected of
                       Inl r \<Rightarrow> r
                     | Inr matches \<Rightarrow> if matches then Passed else Raised actual)
               else Passed)
         else (case expectedException ts H actual expected of
                 Inl r \<Rightarrow> r
               | Inr True \<Rightarrow>
                   fail hst stringify H actual expected (String (u ''Got unwanted exception'' @ message)) Undefined
               | Inr False \<Rightarrow> if truthy actual then Raised actual else Passed))"

definition assert_throws ::
    "engine \<Rightarrow> stringify \<Rightarrow> coercions \<Rightarrow> testers \<Rightarrow> heap \<Rightarrow> jv option \<Rightarrow> jv \<Rightarrow> jv \<Rightarrow> result" where
  "assert_throws hst stringify cv ts H = throws_or_not hst stringify cv ts H True"

definition assert_doesNotThrow ::
    "engine \<Rightarrow> stringify \<Rightarrow> coercions \<Rightarrow> testers \<Rightarrow> heap \<Rightarrow> jv option \<Rightarrow> jv \<Rightarrow> jv \<Rightarrow> result" where
  "assert_doesNotThrow hst stringify cv ts H = throws_or_not hst stringify cv ts H False"

section \<open>Symmetry\<close>

lemma strict_comm: "strict x y = strict y x"
  using strict_sym by blast

lemma num_strict_comm: "num_strict x y = num_strict y x"
  using num_strict_sym by blast

lemma loose_primitives_comm: "loose_primitives cv x y = loose_primitives cv y x"
  by (cases x; cases y) (auto simp: loose_primitives_def nullish_def num_strict_comm)

lemma loose_comm: "loose cv x y = loose cv y x"
  using loose_primitives_comm [of cv "to_primitive cv x" "to_primitive cv y"]
  by (cases x; cases y) (auto simp: loose_def nullish_def)

lemma num_strict_count:
  "num_strict x y \<Longrightarrow> (case x of Whole i \<Rightarrow> nat i | _ \<Rightarrow> 0) = (case y of Whole i \<Rightarrow> nat i | _ \<Rightarrow> 0)"
  by (cases x; cases y) auto

lemma loose_primitives_count:
  assumes "loose_primitives cv x y"
  shows "(case number_of cv x of Whole i \<Rightarrow> nat i | _ \<Rightarrow> 0) = (case number_of cv y of Whole i \<Rightarrow> nat i | _ \<Rightarrow> 0)"
proof -
  from assms consider "nullish x \<and> nullish y" | "x = y" | "num_strict (number_of cv x) (number_of cv y)"
    by (cases x; cases y) (auto simp: loose_primitives_def nullish_def)
  then show ?thesis
  proof cases
    case 3
    then show ?thesis by (rule num_strict_count)
  qed (auto simp: nullish_def)
qed

lemma loose_count:
  assumes "loose cv l l'"
  shows "length_count cv l = length_count cv l'"
proof (cases "nullish l \<or> nullish l'")
  case True
  with assms show ?thesis by (auto simp: loose_def length_count_def to_primitive_def nullish_def)
next
  case False
  then show ?thesis
    using assms loose_primitives_count [of cv "to_primitive cv l" "to_primitive cv l'"]
    by (cases "\<exists>r r'. l = Ref r \<and> l' = Ref r'") (auto simp: loose_def length_count_def split: jv.splits)
qed

lemma buffers_equal_comm: "buffers_equal cv H r r' = buffers_equal cv H r' r"
  unfolding buffers_equal_def Let_def loose_comm [of cv "property_value (H ! r') (u ''length'')"]
  using loose_count [of cv "property_value (H ! r) (u ''length'')" "property_value (H ! r') (u ''length'')"]
  by (auto simp: list_all_iff strict_comm)

lemma regexps_equal_comm: "regexps_equal H r r' = regexps_equal H r' r"
  by (auto simp: regexps_equal_def Let_def list_all_iff strict_comm)

lemma deep_head_comm: "deep_head cv H a b = deep_head cv H b a"
  by (cases a; cases b)
    (auto simp: deep_head_def buffers_equal_comm regexps_equal_comm loose_comm num_strict_comm)

lemma all_hold_cong: "(\<And>x. x \<in> set xs \<Longrightarrow> p x = q x) \<Longrightarrow> all_hold p xs = all_hold q xs"
  by (induction xs) (auto split: option.split bool.split)

lemma compare_props_comm:
  assumes "\<And>x y. cmp x y = cmp' y x"
  shows "compare_props cmp pa pb = compare_props cmp' pb pa"
  by (auto simp: compare_props_def Let_def assms)

lemma objEquiv_comm:
  assumes "\<And>x y. rec x y = rec y x"
  shows "objEquiv cv H rec a b = objEquiv cv H rec b a"
proof -
  have "compare_props (\<lambda>x y. rec (Val x) (Val y)) pa pb = compare_props (\<lambda>x y. rec (Val x) (Val y)) pb pa" for pa pb
    by (rule compare_props_comm) (rule assms)
  then show ?thesis
    by (cases a; cases b) (auto simp: objEquiv_def strict_comm assms)
qed

lemma deep_equal_comm: "deep_equal n cv H x y = deep_equal n cv H y x"
proof (induction n arbitrary: x y)
  case (Suc n)
  have "compare_props (\<lambda>v w. deep_equal n cv H (Val v) (Val w)) pa pb =
      compare_props (\<lambda>v w. deep_equal n cv H (Val v) (Val w)) pb pa" for pa pb
    by (rule compare_props_comm) (rule Suc)
  moreover have "objEquiv cv H (deep_equal n cv H) a b = objEquiv cv H (deep_equal n cv H) b a" for a b
    by (rule objEquiv_comm) (rule Suc)
  ultimately show ?case
    by (cases x; cases y) (auto simp: deep_head_comm split: option.split)
qed simp

section \<open>Returning\<close>

text \<open>A heap without cycles: references lead to objects of a lower rank.\<close>

definition ranked :: "(nat \<Rightarrow> nat) \<Rightarrow> heap \<Rightarrow> bool" where
  "ranked rk H \<longleftrightarrow>
     list_all (\<lambda>r. list_all (\<lambda>v. case v of Ref w \<Rightarrow> rk w < rk r \<and> w < length H | _ \<Rightarrow> True)
       (map snd (own_props (H ! r)))) [0..<length H]"

definition stack_need :: "(nat \<Rightarrow> nat) \<Rightarrow> jv \<Rightarrow> nat" where
  "stack_need rk v = (case v of Ref r \<Rightarrow> 2 * rk r + 3 | _ \<Rightarrow> 1)"

lemma all_hold_returns: "(\<And>x. x \<in> set xs \<Longrightarrow> p x \<noteq> None) \<Longrightarrow> all_hold p xs \<noteq> None"
  by (induction xs) (auto split: option.split bool.split)

lemma value_at_in: "k \<in> fst ` set ps \<Longrightarrow> value_at ps k \<in> snd ` set ps"
  by (force simp: value_at_def split: option.split dest: map_of_SomeD simp: map_of_eq_None_iff)

lemma compare_props_returns:
  assumes "\<And>v w. v \<in> snd ` set pa \<Longrightarrow> cmp v w \<noteq> None"
  shows "compare_props cmp pa pb \<noteq> None"
  using all_hold_returns [of "rev (sort (map fst pa))" "\<lambda>k. cmp (value_at pa k) (value_at pb k)"]
    assms value_at_in [of _ pa]
  by (auto simp: compare_props_def Let_def)

lemma own_value_need:
  assumes "ranked rk H" and "r < length H" and "v \<in> snd ` set (own_props (H ! r))"
  shows "value_ok H v \<and> stack_need rk v \<le> 2 * rk r + 1"
proof -
  from assms have "case v of Ref w \<Rightarrow> rk w < rk r \<and> w < length H | _ \<Rightarrow> True"
    by (auto simp: ranked_def list_all_iff)
  then show ?thesis by (cases v) (simp_all add: stack_need_def)
qed

lemma element_props_own: "snd ` set (element_props (own_elements (kind_of ob))) \<subseteq> snd ` set (own_props ob)"
  by (auto simp: element_props_def own_props_def Let_def)

lemma deep_equal_returns:
  assumes "ranked rk H"
  shows "value_ok H a \<Longrightarrow> stack_need rk a \<le> n \<Longrightarrow> deep_equal n cv H (Val a) (Val b) \<noteq> None"
proof (induction n arbitrary: a b rule: less_induct)
  case (less n)
  from less.prems(2) obtain m where n: "n = Suc m" by (cases n) (auto simp: stack_need_def split: jv.splits)
  show ?case
  proof (cases "\<exists>r r'. a = Ref r \<and> b = Ref r'")
    case True
    then obtain r r' where ab: "a = Ref r" "b = Ref r'" by blast
    with less.prems n have r: "r < length H" and m: "2 * rk r + 2 \<le> m" by (simp_all add: stack_need_def)
    then obtain k where k: "m = Suc k" by (cases m) simp_all
    have step: "deep_equal j cv H (Val v) (Val w) \<noteq> None"
      if "v \<in> snd ` set (own_props (H ! r))" "j = m \<or> j = k" for v w j
      using own_value_need [OF assms r that(1)] that(2) m k n by (intro less.IH) auto
    have "compare_props (\<lambda>x y. deep_equal m cv H (Val x) (Val y)) (own_props (H ! r)) ps \<noteq> None" for ps
      by (rule compare_props_returns) (simp add: step)
    moreover have "compare_props (\<lambda>x y. deep_equal k cv H (Val x) (Val y))
        (element_props (own_elements (kind_of (H ! r)))) ps \<noteq> None" for ps
      by (rule compare_props_returns, rule step, erule subsetD [OF element_props_own], simp)
    then have "deep_equal m cv H (Slice (own_elements (kind_of (H ! r)))) (Slice vs) \<noteq> None" for vs
      by (simp add: k)
    ultimately have "objEquiv cv H (deep_equal m cv H) a b \<noteq> None"
      unfolding ab objEquiv_def by (auto simp del: deep_equal.simps)
    then show ?thesis by (simp add: n split: option.split)
  next
    case False
    then have "objEquiv cv H rec a b \<noteq> None" for rec
      by (cases a; cases b) (auto simp add: objEquiv_def nullish_def)
    then show ?thesis by (simp add: n split: option.split)
  qed
qed

section \<open>Against isEqual\<close>

text \<open>Data as JSON has it: plain objects and arrays, without \<open>NaN\<close>.\<close>

definition plain_data :: "obj \<Rightarrow> bool" where
  "plain_data ob \<longleftrightarrow>
     (case kind_of ob of PlainObj \<Rightarrow> True | ArrayObj vs \<Rightarrow> own ob = [] | _ \<Rightarrow> False) \<and> hidden ob = [] \<and>
     list_all (\<lambda>v. v \<noteq> Number NaN) (map snd (own_props ob)) \<and> \<not> in_obj (u ''prototype'') ob"

definition plain_heap :: "heap \<Rightarrow> bool" where
  "plain_heap H \<longleftrightarrow> heap_ok H \<and> list_all plain_data H"

lemma plain_heapD: "plain_heap H \<Longrightarrow> r < length H \<Longrightarrow> plain_data (H ! r) \<and> obj_ok H (H ! r)"
  by (simp add: plain_heap_def list_all_length heap_okD)

lemma plain_kind: "plain_data ob \<Longrightarrow> kind_of ob = PlainObj \<or> (\<exists>vs. kind_of ob = ArrayObj vs \<and> own ob = [])"
  by (auto simp: plain_data_def split: kind.splits)

lemma plain_not_function: "plain_heap H \<Longrightarrow> value_ok H v \<Longrightarrow> \<not> isFunction H v"
  using plain_heapD plain_kind by (fastforce simp: isFunction_def split: jv.splits)

lemma plain_unwrap: "plain_heap H \<Longrightarrow> value_ok H v \<Longrightarrow> unwrap H v = v"
  using plain_heapD plain_kind by (fastforce simp: unwrap_def split: jv.splits)

lemma plain_contents: "plain_heap H \<Longrightarrow> r < length H \<Longrightarrow> contents H (Ref r) = Other"
  using plain_heapD plain_kind by (fastforce simp: contents_def)

lemma plain_class: "plain_heap H \<Longrightarrow> r < length H \<Longrightarrow> class_name H (Ref r) \<in> {u ''Object'', u ''Array''}"
  using plain_heapD plain_kind [of "H ! r"] by auto

lemma plain_head:
  assumes "plain_heap H" and "r < length H" and "r' < length H" and "r \<noteq> r'"
  shows "deep_head cv H (Ref r) (Ref r') = None"
proof -
  have f: "\<not> isFunction H (get (H ! r) key)" for key
    using plain_not_function [OF assms(1)] get_ok plain_heapD [OF assms(1,2)] by blast
  have c: "class_name H (Ref r) \<noteq> u ''Date''" "class_name H (Ref r) \<noteq> u ''RegExp''"
    using plain_class [OF assms(1,2)] by auto
  have "isObject H (Ref r)"
    using plain_kind [of "H ! r"] plain_heapD [OF assms(1,2)] by (auto simp: isObject_def typeof_object_def)
  then show ?thesis using assms(4) f c by (auto simp: deep_head_def isBuffer_def isDate_def isRegExp_def)
qed

lemma plain_objEquiv:
  assumes "plain_heap H" and "r < length H" and "r' < length H"
  shows "objEquiv cv H rec (Ref r) (Ref r') =
    compare_props (\<lambda>x y. rec (Val x) (Val y)) (own_props (H ! r)) (own_props (H ! r'))"
proof -
  have "get (H ! i) (u ''prototype'') = Undefined" if "i < length H" for i
    using plain_heapD [OF assms(1) that] by (simp add: plain_data_def in_obj_def get_def)
  moreover have "\<not> is_arguments H i" if "i < length H" for i
    using plain_heapD [OF assms(1) that] plain_kind by (fastforce simp: is_arguments_def)
  ultimately show ?thesis using assms(2,3) by (simp add: objEquiv_def nullish_def read_def)
qed

lemma all_hold_not_False: "(\<And>x. x \<in> set xs \<Longrightarrow> p x \<noteq> Some False) \<Longrightarrow> all_hold p xs \<noteq> Some False"
  by (induction xs) (auto split: option.split bool.split)

lemma value_at_own: "k \<in> set (obj_keys ob) \<Longrightarrow> value_at (own_props ob) k = get ob k"
  by (auto simp: value_at_def get_def all_props_def obj_keys_def map_add_def split: option.split
      dest: weak_map_of_SomeI)

lemma own_keys_match:
  assumes "plain_heap H" and "r < length H" and "r' < length H"
    and "length (obj_keys (H ! r)) = length (obj_keys (H ! r'))"
    and "\<forall>k \<in> set (obj_keys (H ! r)). has_own (H ! r') k"
  shows "sort (obj_keys (H ! r)) = sort (obj_keys (H ! r'))"
proof -
  have d: "distinct (obj_keys (H ! i))" "hidden (H ! i) = []" if "i < length H" for i
    using plain_heapD [OF assms(1) that] by (auto simp: obj_ok_def obj_keys_def plain_data_def)
  have "set (obj_keys (H ! r)) \<subseteq> set (obj_keys (H ! r'))"
    using assms(5) d(2) [OF assms(3)] by (auto simp: has_own_def obj_keys_def map_of_eq_None_iff)
  then have "set (obj_keys (H ! r)) = set (obj_keys (H ! r'))"
    using d(1) [OF assms(2)] d(1) [OF assms(3)] assms(4)
    by (intro card_subset_eq) (auto simp: distinct_card)
  then show ?thesis using d(1) [OF assms(2)] d(1) [OF assms(3)]
    by (intro sorted_distinct_set_unique) auto
qed

lemma plain_compare:
  assumes "plain_heap H" and "r < length H" and "r' < length H"
    and "length (obj_keys (H ! r)) = length (obj_keys (H ! r'))"
    and "\<forall>k \<in> set (obj_keys (H ! r)). has_own (H ! r') k \<and> cmp (get (H ! r) k) (get (H ! r') k) \<noteq> Some False"
  shows "compare_props cmp (own_props (H ! r)) (own_props (H ! r')) \<noteq> Some False"
proof -
  have s: "sort (obj_keys (H ! r)) = sort (obj_keys (H ! r'))"
    using own_keys_match [OF assms(1-4)] assms(5) by blast
  have "all_hold (\<lambda>k. cmp (value_at (own_props (H ! r)) k) (value_at (own_props (H ! r')) k))
      (rev (sort (obj_keys (H ! r)))) \<noteq> Some False"
  proof (rule all_hold_not_False)
    fix k assume "k \<in> set (rev (sort (obj_keys (H ! r))))"
    then have "k \<in> set (obj_keys (H ! r))" "k \<in> set (obj_keys (H ! r'))"
      using arg_cong [OF s, of set] by simp_all
    with assms(5) show "cmp (value_at (own_props (H ! r)) k) (value_at (own_props (H ! r')) k) \<noteq> Some False"
      by (simp add: value_at_own)
  qed
  with s assms(4) show ?thesis by (simp add: compare_props_def Let_def obj_keys_def)
qed

lemma array_keys:
  assumes "kind_of ob = ArrayObj xs" and "own ob = []" and "distinct (obj_keys ob)"
  shows "obj_keys ob = map dec_digits [0..<length xs]"
    and "i < length xs \<Longrightarrow> get ob (dec_digits i) = xs ! i"
proof -
  have p: "own_props ob = zip (map dec_digits [0..<length xs]) xs"
    using assms(1,2) by (simp add: own_props_def own_elements_def)
  then show "obj_keys ob = map dec_digits [0..<length xs]" by (simp add: obj_keys_def)
  assume "i < length xs"
  then have "(dec_digits i, xs ! i) \<in> set (own_props ob)" unfolding p by (force simp: set_zip)
  with get_own [OF assms(3)] show "get ob (dec_digits i) = xs ! i" .
qed

lemma plain_array_members:
  assumes "plain_heap H" and "r < length H" and "r' < length H"
    and "kind_of (H ! r) = ArrayObj xs" and "kind_of (H ! r') = ArrayObj ys" and "list_all2 P xs ys"
  shows "length (obj_keys (H ! r)) = length (obj_keys (H ! r'))"
    and "\<forall>k \<in> set (obj_keys (H ! r)). has_own (H ! r') k \<and> P (get (H ! r) k) (get (H ! r') k)"
proof -
  have a: "own (H ! i) = [] \<and> distinct (obj_keys (H ! i))" if "i < length H" "kind_of (H ! i) = ArrayObj vs" for i vs
    using plain_heapD [OF assms(1) that(1)] that(2) by (auto simp: plain_data_def obj_ok_def obj_keys_def)
  note k = array_keys [OF assms(4) conjunct1 [OF a] conjunct2 [OF a], OF assms(2,4,2,4)]
    and k' = array_keys [OF assms(5) conjunct1 [OF a] conjunct2 [OF a], OF assms(3,5,3,5)]
  show "length (obj_keys (H ! r)) = length (obj_keys (H ! r'))"
    using k(1) k'(1) list_all2_lengthD [OF assms(6)] by simp
  show "\<forall>k \<in> set (obj_keys (H ! r)). has_own (H ! r') k \<and> P (get (H ! r) k) (get (H ! r') k)"
  proof
    fix key assume "key \<in> set (obj_keys (H ! r))"
    with k(1) obtain i where i: "key = dec_digits i" "i < length xs" by auto
    with list_all2_lengthD [OF assms(6)] have "i < length ys" by simp
    moreover from this k'(1) i have "has_own (H ! r') key" by (intro has_own_keys) auto
    ultimately show "has_own (H ! r') key \<and> P (get (H ! r) key) (get (H ! r') key)"
      using k(2) k'(2) i list_all2_nthD [OF assms(6) i(2)] by simp
  qed
qed

lemma plain_get_not_NaN:
  assumes "plain_heap H" and "r < length H" and "k \<in> set (obj_keys (H ! r))"
  shows "value_ok H (get (H ! r) k) \<and> get (H ! r) k \<noteq> Number NaN"
proof -
  have "get (H ! r) k \<in> snd ` set (own_props (H ! r))"
    using value_at_in [of k "own_props (H ! r)"] value_at_own [OF assms(3)] assms(3) by (auto simp: obj_keys_def)
  then show ?thesis
    using plain_heapD [OF assms(1,2)] get_ok by (auto simp: plain_data_def list_all_iff)
qed

lemma contents_primitive:
  "contents H Undefined = Other" "contents H Null = Other" "contents H (String s) = Text s"
  "contents H (Number n) = Num n" "contents H (Bool b) = Truth b"
  by (simp_all add: contents_def)

lemma by_value_Num: "by_value (Num x) (Num y) = Some True \<Longrightarrow> x \<noteq> NaN \<Longrightarrow> num_strict x y"
  by (cases x; cases y) (auto split: if_splits)

lemma by_value_strict:
  assumes "by_value (contents H a) (contents H b) = Some True" and "plain_heap H" and "value_ok H a" and "value_ok H b"
    and "a \<noteq> Number NaN"
  shows "strict a b"
proof -
  have "by_value x Other = None" "by_value Other x = None" for x by (cases x; simp)+
  with assms(1) have other: "contents H a \<noteq> Other" "contents H b \<noteq> Other" by auto
  have "\<nexists>r. v = Ref r" if "value_ok H v" "contents H v \<noteq> Other" for v
  proof
    assume "\<exists>r. v = Ref r"
    then obtain r where "v = Ref r" by blast
    with that plain_contents [OF assms(2), of r] show False by simp
  qed
  from this [OF assms(3) other(1)] this [OF assms(4) other(2)] have "\<nexists>r. a = Ref r" "\<nexists>r. b = Ref r" .
  with other assms(1,5) show ?thesis
    by (cases a; cases b) (simp_all add: contents_primitive by_value_Num del: by_value.simps(2))
qed

lemma alike_deep_equal:
  assumes "plain_heap H"
  shows "alike H a b \<Longrightarrow> value_ok H a \<Longrightarrow> value_ok H b \<Longrightarrow> a \<noteq> Number NaN \<Longrightarrow>
    deep_equal n cv H (Val a) (Val b) \<noteq> Some False"
proof (induction n arbitrary: a b)
  case (Suc n)
  have strict: ?case if "strict a b" using that by (simp add: deep_head_def)
  have members: ?case
    if r: "a = Ref r" "b = Ref r'" and len: "length (obj_keys (H ! r)) = length (obj_keys (H ! r'))"
      and each: "\<forall>k \<in> set (obj_keys (H ! r)). has_own (H ! r') k \<and> alike H (get (H ! r) k) (get (H ! r') k)" for r r'
  proof (cases "r = r'")
    case False
    from r Suc.prems have b: "r < length H" "r' < length H" by simp_all
    have "value_ok H (get (H ! r') k)" for k using get_ok plain_heapD [OF assms b(2)] by blast
    then have "\<forall>k \<in> set (obj_keys (H ! r)). has_own (H ! r') k \<and>
        deep_equal n cv H (Val (get (H ! r) k)) (Val (get (H ! r') k)) \<noteq> Some False"
      using each plain_get_not_NaN [OF assms b(1)] Suc.IH by blast
    from plain_compare [OF assms b len this] show ?thesis
      unfolding r by (simp add: plain_head [OF assms b False] plain_objEquiv [OF assms b])
  qed (use r strict in simp)
  have un: "unwrap H a = a" "unwrap H b = b" using plain_unwrap [OF assms] Suc.prems by simp_all
  show ?case
    using Suc.prems(1)
  proof cases
    case Same
    then show ?thesis by (intro strict) (auto simp: same_primitive_def strict_refl)
  next
    case Content
    then show ?thesis using by_value_strict [OF _ assms] Suc.prems un strict by metis
  next
    case (Arrays r r' xs ys)
    with un have r: "a = Ref r" "b = Ref r'" by simp_all
    with Suc.prems have "r < length H" "r' < length H" by simp_all
    from members [OF r plain_array_members [OF assms this Arrays(3-5)]] show ?thesis .
  next
    case (Objects r r')
    with un members [of r r'] show ?thesis by simp
  qed
qed simp

section \<open>Properties\<close>

text \<open>
  \<open>_deepEqual\<close> is symmetric, whatever the stack, the objects and the coercions.
\<close>
theorem deepEqual_symmetric:
  "deep_equal n cv H (Val actual) (Val expected) = deep_equal n cv H (Val expected) (Val actual)"
  by (rule deep_equal_comm)

text \<open>
  \<open>_deepEqual\<close> returns when the first value reaches no cycle: a stack of two calls for each
  level of its objects, and three more, is enough.
\<close>
theorem deepEqual_returns:
  assumes "ranked rk H" and "value_ok H actual" and "stack_need rk actual \<le> n"
  shows "\<exists>res. deep_equal n cv H (Val actual) (Val expected) = Some res"
  using deep_equal_returns [OF assms] by blast

text \<open>Objects and strings that coerce to nothing, and nothing that an expected value matches.\<close>

definition no_coercions :: coercions where
  "no_coercions = \<lparr>string_number = (\<lambda>s. NaN), primitive_of = (\<lambda>r. Null), boxed_props = (\<lambda>v. [])\<rparr>"

definition no_testers :: testers where
  "no_testers = \<lparr>regexp_test = (\<lambda>r v. False), instance_of = (\<lambda>v f. None), call_function = (\<lambda>f v. Inl v)\<rparr>"

theorem deepEqual_returns_witness:
  "\<exists>res. deep_equal 5 no_coercions
     [\<lparr>kind_of = ArrayObj [Ref 1, Bool True], own = [], hidden = [], inherited = []\<rparr>,
      \<lparr>kind_of = PlainObj, own = [], hidden = [], inherited = []\<rparr>] (Val (Ref 0)) (Val (Ref 1)) = Some res"
proof (rule deepEqual_returns [where rk = "\<lambda>r. 1 - r"])
  show "ranked (\<lambda>r. 1 - r)
     [\<lparr>kind_of = ArrayObj [Ref 1, Bool True], own = [], hidden = [], inherited = []\<rparr>,
      \<lparr>kind_of = PlainObj, own = [], hidden = [], inherited = []\<rparr>]" by code_simp
qed (simp_all add: stack_need_def)


text \<open>
  Property C24.  On plain data the two comparisons of the bundle agree in one direction: of values that
  \<open>isEqual\<close> finds equal, \<open>_deepEqual\<close> never says that they differ.
\<close>
theorem isEqual_deepEqual:
  assumes "plain_heap H" and "value_ok H a" and "value_ok H b" and "a \<noteq> Number NaN"
    and "isEqual H a b = Some True"
  shows "deep_equal n cv H (Val a) (Val b) \<noteq> Some False"
  using alike_deep_equal [OF assms(1) _ assms(2-4)] eq_alike assms(5) unfolding isEqual_def by blast

theorem isEqual_deepEqual_witness: "deep_equal 7 no_coercions rings (Val (Ref 0)) (Val (Ref 1)) \<noteq> Some False"
proof (rule isEqual_deepEqual)
  show "plain_heap rings" by code_simp
  show "value_ok rings (Ref 0)" by code_simp
  show "value_ok rings (Ref 1)" by code_simp
  show "isEqual rings (Ref 0) (Ref 1) = Some True" by code_simp
qed simp

text \<open>
  The message an assertion generates is bounded: 128 characters of each value, and the
  operator between them.
\<close>
theorem assertion_message_bounds:
  assumes "fail hst stringify H actual expected message operator = Asserted err" and "generatedMessage err"
    and "\<forall>v w. stringify v w \<in> range (map_option String) \<union> {Some Undefined}"
  shows "\<exists>m. err_message err = String m \<and> length m \<le> 258 + length (to_text hst operator)"
proof -
  have t: "length (to_text hst (truncate_text j 128)) \<le> 128"
    if "stringify (replacer hst H) w = Some j" for w j
    using assms(3) that by (auto simp: truncate_text_def u_def dest!: spec [of _ "replacer hst H"] spec [of _ w])
  from assms(1,2) obtain a e where
    "stringify (replacer hst H) actual = Some a" "stringify (replacer hst H) expected = Some e"
    "err_message err = String (to_text hst (truncate_text a 128) @ [32] @ to_text hst operator @ [32] @
       to_text hst (truncate_text e 128))"
    by (auto simp: fail_def getMessage_def split: if_splits option.splits)
  moreover from this t have "length (to_text hst (truncate_text a 128)) \<le> 128"
    "length (to_text hst (truncate_text e 128)) \<le> 128" by blast+
  ultimately show ?thesis by simp
qed

theorem assertion_message_bounds_witness:
  "\<exists>m. err_message \<lparr>err_actual = Null, err_expected = Null, err_operator = Undefined,
      err_message = String (u ''x undefined x''), generatedMessage = True\<rparr> = String m \<and>
     length m \<le> 258 + length (to_text plain_engine Undefined)"
proof (rule assertion_message_bounds [where stringify = "\<lambda>f v. Some (String (u ''x''))" and H = "[]"])
  show "fail plain_engine (\<lambda>f v. Some (String (u ''x''))) [] Null Null Undefined Undefined =
    Asserted \<lparr>err_actual = Null, err_expected = Null, err_operator = Undefined,
      err_message = String (u ''x undefined x''), generatedMessage = True\<rparr>"
    by code_simp
qed (auto intro: image_eqI [of _ _ "Some (u ''x'')"])

text \<open>
  \<open>throws\<close> and \<open>doesNotThrow\<close> take a block that throws a falsy value for one that
  returns: the first fails for want of an exception, the second passes.
\<close>
theorem falsy_exceptions_lost:
  assumes "\<not> truthy e"
  shows "(\<exists>err. assert_throws hst stringify cv ts H (Some e) expected message = Asserted err) \<and>
    assert_doesNotThrow hst stringify cv ts H (Some e) expected message = Passed"
  using assms
  by (simp add: assert_throws_def assert_doesNotThrow_def throws_or_not_def expectedException_def fail_def Let_def)

theorem falsy_exceptions_lost_witness:
  "(\<exists>err. assert_throws plain_engine (\<lambda>f v. None) no_coercions no_testers [] (Some (Number (Whole 0))) Null Null =
      Asserted err) \<and>
   assert_doesNotThrow plain_engine (\<lambda>f v. None) no_coercions no_testers [] (Some (Number (Whole 0))) Null Null = Passed"
  by (rule falsy_exceptions_lost) simp

end
