(* ===== verification/Js_Glob.thy ===== *)
theory Js_Glob
  imports Js_Minimatch Js_Path
begin

text \<open>
  The synchronous walk of \<open>glob\<close> (modules 15 and 17 of
  \<open>site/assets/javascripts/lunr/wordcut.js\<close>): options, the caches, reading directories, the
  recursion over the portions of a pattern and the list that is returned.

  The file system is an argument: what \<open>readdir\<close>, \<open>lstat\<close> and \<open>stat\<close> of Node's \<open>fs\<close> answer
  for an absolute name (the bundle itself holds an empty module in its place).  It does not change
  during a walk.  So are the regular expressions and the case mapping of the host and the order
  of \<open>localeCompare\<close>.  The platform is POSIX, as in the bundle's process shim; the option
  \<open>realpath\<close> is in \<open>Js_Glob_Entry\<close>.
\<close>

section \<open>The file system and the state\<close>

datatype errno = ENOTSUP | ENOTDIR | ENOENT | ELOOP | ENAMETOOLONG | UNKNOWN | EOTHER

record stats =
  isDirectory :: bool
  isSymbolicLink :: bool

record fs =
  readdirSync :: "ustr \<Rightarrow> errno + ustr list"
  lstatSync :: "ustr \<Rightarrow> stats option"
  statSync :: "ustr \<Rightarrow> stats option"

text \<open>The values of the cache: \<open>false\<close>, \<open>true\<close>, \<open>'FILE'\<close>, \<open>'DIR'\<close> and an array of names.\<close>

datatype cached = Absent | Present | File | Dir | Entries "ustr list"

datatype failure = Thrown errno | TypeError | PatternTooLong | NoPattern | NeedsGlobstar | OutOfFuel

record glob_state =
  matches :: "ustr list option list"
  cache :: "ustr \<Rightarrow> cached option"
  statCache :: "ustr \<Rightarrow> stats option"
  symlinks :: "ustr \<Rightarrow> bool option"

record glob_env =
  g_strict :: bool
  g_follow :: bool
  g_dot :: bool
  g_mark :: bool
  g_nodir :: bool
  g_nounique :: bool
  g_nonull :: bool
  g_nosort :: bool
  g_nocase :: bool
  g_stat :: bool
  g_nomount :: bool
  g_maxLength :: "nat option"
  g_cwd :: ustr
  g_changedCwd :: bool
  g_root :: ustr
  g_ignore :: "(minimatch \<times> minimatch option) list"
  g_minimatch :: minimatch

section \<open>Names and ignored names\<close>

definition ends_slash :: "ustr \<Rightarrow> bool" where
  "ends_slash p \<longleftrightarrow> p \<noteq> [] \<and> last p = SLASH"

definition makeAbs :: "glob_env \<Rightarrow> ustr \<Rightarrow> ustr" where
  "makeAbs E f =
     (if take 1 f = [SLASH] then js_join [g_root E, f]
      else if isAbsolute f \<or> f = [] then f
      else if g_changedCwd E then resolve [g_cwd E, f]
      else resolve [f])"

definition isIgnored :: "host \<Rightarrow> glob_env \<Rightarrow> ustr \<Rightarrow> bool" where
  "isIgnored H E path =
     list_ex (\<lambda>(matcher, gmatcher). mm_match H matcher path False \<or>
       (case gmatcher of None \<Rightarrow> False | Some g \<Rightarrow> mm_match H g path False)) (g_ignore E)"

definition childrenIgnored :: "host \<Rightarrow> glob_env \<Rightarrow> ustr \<Rightarrow> bool" where
  "childrenIgnored H E path =
     list_ex (\<lambda>(matcher, gmatcher).
       (case gmatcher of None \<Rightarrow> False | Some g \<Rightarrow> mm_match H g path False)) (g_ignore E)"

definition mark :: "glob_env \<Rightarrow> ustr \<Rightarrow> glob_state \<Rightarrow> ustr \<times> glob_state" where
  "mark E p s =
     (let abs = makeAbs E p in
      case cache s abs of
        None \<Rightarrow> (p, s)
      | Some c \<Rightarrow>
          if c = Absent then (p, s)
          else
            (let isDir = (case c of Dir \<Rightarrow> True | Entries _ \<Rightarrow> True | _ \<Rightarrow> False);
                 m = (if isDir \<and> \<not> ends_slash p then p @ [SLASH]
                      else if \<not> isDir \<and> ends_slash p then butlast p else p);
                 mabs = makeAbs E m
             in (m, if m \<noteq> p
                    then s\<lparr>statCache := (statCache s)(mabs := statCache s abs),
                           cache := (cache s)(mabs := cache s abs)\<rparr>
                    else s)))"

section \<open>Reading directories\<close>

definition child :: "ustr \<Rightarrow> ustr \<Rightarrow> ustr" where
  "child dir e = (if dir = [SLASH] then dir @ e else dir @ [SLASH] @ e)"

definition readdirEntries :: "glob_env \<Rightarrow> ustr \<Rightarrow> ustr list \<Rightarrow> glob_state \<Rightarrow> glob_state" where
  "readdirEntries E dir entries s =
     (let s1 = (if \<not> g_mark E \<and> \<not> g_stat E
                then s\<lparr>cache := fold (\<lambda>e c. c(child dir e \<mapsto> Present)) entries (cache s)\<rparr> else s)
      in s1\<lparr>cache := (cache s1)(dir \<mapsto> Entries entries)\<rparr>)"

definition readdirError :: "glob_env \<Rightarrow> ustr \<Rightarrow> errno \<Rightarrow> glob_state \<Rightarrow> failure + glob_state" where
  "readdirError E f er s =
     (if er = ENOTSUP \<or> er = ENOTDIR
      then Inr (s\<lparr>cache := (cache s)(makeAbs E f \<mapsto> File)\<rparr>)
      else if er = ENOENT \<or> er = ELOOP \<or> er = ENAMETOOLONG \<or> er = UNKNOWN
      then Inr (s\<lparr>cache := (cache s)(makeAbs E f \<mapsto> Absent)\<rparr>)
      else if g_strict E then Inl (Thrown er)
      else Inr (s\<lparr>cache := (cache s)(makeAbs E f \<mapsto> Absent)\<rparr>))"

text \<open>\<open>_readdir\<close> after the test for the globstar; \<open>None\<close> is \<open>null\<close> or \<open>undefined\<close>.\<close>

definition readdir_cached ::
  "glob_env \<Rightarrow> fs \<Rightarrow> ustr \<Rightarrow> glob_state \<Rightarrow> failure + (ustr list option \<times> glob_state)" where
  "readdir_cached E F dir s =
     (let ask = (case readdirSync F dir of
                   Inl er \<Rightarrow> map_sum id (Pair None) (readdirError E dir er s)
                 | Inr entries \<Rightarrow> Inr (Some entries, readdirEntries E dir entries s))
      in case cache s dir of
           Some Absent \<Rightarrow> Inr (None, s)
         | Some File \<Rightarrow> Inr (None, s)
         | Some (Entries c) \<Rightarrow> Inr (Some c, s)
         | _ \<Rightarrow> ask)"

definition readdirInGlobStar ::
  "glob_env \<Rightarrow> fs \<Rightarrow> ustr \<Rightarrow> glob_state \<Rightarrow> failure + (ustr list option \<times> glob_state)" where
  "readdirInGlobStar E F dir s =
     (if g_follow E then readdir_cached E F dir s
      else
        (case lstatSync F dir of
           None \<Rightarrow> Inr (None, s)
         | Some lstat \<Rightarrow>
             (let isSym = isSymbolicLink lstat;
                  s1 = s\<lparr>symlinks := (symlinks s)(dir \<mapsto> isSym)\<rparr>
              in if \<not> isSym \<and> \<not> isDirectory lstat
                 then Inr (None, s1\<lparr>cache := (cache s1)(dir \<mapsto> File)\<rparr>)
                 else readdir_cached E F dir s1)))"

definition readdir ::
  "glob_env \<Rightarrow> fs \<Rightarrow> ustr \<Rightarrow> bool \<Rightarrow> glob_state \<Rightarrow> failure + (ustr list option \<times> glob_state)" where
  "readdir E F dir inGlobStar s =
     (if inGlobStar \<and> symlinks s dir = None then readdirInGlobStar E F dir s
      else readdir_cached E F dir s)"

section \<open>Testing a name\<close>

text \<open>\<open>Absent\<close> stands for the result \<open>false\<close>.\<close>

definition lookup_stat :: "glob_env \<Rightarrow> fs \<Rightarrow> ustr \<Rightarrow> bool \<Rightarrow> glob_state \<Rightarrow> cached \<times> glob_state" where
  "lookup_stat E F dir needDir s =
     (let found = (case statCache s dir of
                     Some stat \<Rightarrow> Some stat
                   | None \<Rightarrow>
                       (case lstatSync F dir of
                          None \<Rightarrow> None
                        | Some lstat \<Rightarrow>
                            if isSymbolicLink lstat
                            then Some (case statSync F dir of Some stat \<Rightarrow> stat | None \<Rightarrow> lstat)
                            else Some lstat))
      in case found of
           None \<Rightarrow> (Absent, s)
         | Some stat \<Rightarrow>
             (let c = (if isDirectory stat then Dir else File);
                  old = cache s dir;
                  s1 = s\<lparr>statCache := (statCache s)(dir \<mapsto> stat),
                         cache := (cache s)(dir := (if old = None \<or> old = Some Absent then Some c else old))\<rparr>
              in (if needDir \<and> c \<noteq> Dir then Absent else c, s1)))"

definition stat_name :: "glob_env \<Rightarrow> fs \<Rightarrow> ustr \<Rightarrow> glob_state \<Rightarrow> cached \<times> glob_state" where
  "stat_name E F f s =
     (let dir = makeAbs E f; needDir = ends_slash f in
      if (case g_maxLength E of None \<Rightarrow> False | Some n \<Rightarrow> n < length f) then (Absent, s)
      else
        (case if g_stat E then None else cache s dir of
           None \<Rightarrow> lookup_stat E F dir needDir s
         | Some c0 \<Rightarrow>
             (let c = (case c0 of Entries _ \<Rightarrow> Dir | _ \<Rightarrow> c0) in
              if \<not> needDir \<or> c = Dir then (c, s)
              else if c = File then (Absent, s)
              else lookup_stat E F dir needDir s)))"

section \<open>The walk\<close>

definition init_matches :: "nat \<Rightarrow> glob_state \<Rightarrow> glob_state" where
  "init_matches index s =
     (if matches s ! index = None then s\<lparr>matches := (matches s)[index := Some []]\<rparr> else s)"

definition add_match :: "nat \<Rightarrow> ustr \<Rightarrow> glob_state \<Rightarrow> glob_state" where
  "add_match index e s =
     (case matches s ! index of
        None \<Rightarrow> s
      | Some es \<Rightarrow> if e \<in> set es then s else s\<lparr>matches := (matches s)[index := Some (es @ [e])]\<rparr>)"

definition mount :: "glob_env \<Rightarrow> ustr \<Rightarrow> ustr" where
  "mount E e = (if take 1 e = [SLASH] \<and> \<not> g_nomount E then js_join [g_root E, e] else e)"

definition processSimple :: "glob_env \<Rightarrow> fs \<Rightarrow> ustr \<Rightarrow> nat \<Rightarrow> glob_state \<Rightarrow> glob_state" where
  "processSimple E F pre index s =
     (let (exists, s1) = stat_name E F pre s;
          s2 = init_matches index s1
      in if exists = Absent then s2 else add_match index (mount E pre) s2)"

text \<open>A loop whose body may throw.\<close>

fun each_of :: "('a \<Rightarrow> 's \<Rightarrow> failure + 's) \<Rightarrow> 'a list \<Rightarrow> 's \<Rightarrow> failure + 's" where
  "each_of body [] s = Inr s"
| "each_of body (x # xs) s = (case body x s of Inl e \<Rightarrow> Inl e | Inr s' \<Rightarrow> each_of body xs s')"

text \<open>
  The recursive call is the argument \<open>proc\<close>: it takes a pattern, the flag \<open>inGlobStar\<close> and the
  state.
\<close>

type_synonym processor = "parsed list \<Rightarrow> bool \<Rightarrow> glob_state \<Rightarrow> failure + glob_state"

definition in_dir :: "ustr option \<Rightarrow> ustr \<Rightarrow> ustr" where
  "in_dir pre e =
     (case pre of None \<Rightarrow> e | Some p \<Rightarrow> if \<not> ends_slash p then p @ [SLASH] @ e else p @ e)"

definition prefix_list :: "ustr option \<Rightarrow> parsed list" where
  "prefix_list pre = (case pre of None \<Rightarrow> [] | Some p \<Rightarrow> [Str p])"

definition entry_matches :: "host \<Rightarrow> bool \<Rightarrow> bool \<Rightarrow> parsed \<Rightarrow> ustr \<Rightarrow> bool" where
  "entry_matches H dotOk flip pn e \<longleftrightarrow>
     (take 1 e \<noteq> [DOT] \<or> dotOk) \<and>
     (case pn of Re src flag _ \<Rightarrow> re_match H src flag e \<noteq> flip | _ \<Rightarrow> False)"

definition processReaddir ::
  "host \<Rightarrow> glob_env \<Rightarrow> fs \<Rightarrow> processor \<Rightarrow> ustr option \<Rightarrow> ustr \<Rightarrow> parsed list \<Rightarrow> nat \<Rightarrow> bool \<Rightarrow>
   glob_state \<Rightarrow> failure + glob_state" where
  "processReaddir H E F proc pre dir remain index inGlobStar s =
     (case readdir E F dir inGlobStar s of
        Inl er \<Rightarrow> Inl er
      | Inr (None, s1) \<Rightarrow> Inr s1
      | Inr (Some entries, s1) \<Rightarrow>
          (case hd remain of
             Re src flag (Some rawGlob) \<Rightarrow>
               (let dotOk = (g_dot E \<or> take 1 rawGlob = [DOT]);
                    flip = (mm_negate (g_minimatch E) \<and> pre = None);
                    matchedEntries = filter (entry_matches H dotOk flip (hd remain)) entries
                in if matchedEntries = [] then Inr s1
                   else if length remain = 1 \<and> \<not> g_mark E \<and> \<not> g_stat E
                   then Inr (fold (\<lambda>e. add_match index (mount E (in_dir pre e))) matchedEntries
                               (init_matches index s1))
                   else each_of (\<lambda>e. proc (prefix_list pre @ [Str e] @ tl remain) inGlobStar)
                          matchedEntries s1)
           | _ \<Rightarrow> Inl TypeError))"

definition processGlobStar ::
  "glob_env \<Rightarrow> fs \<Rightarrow> processor \<Rightarrow> ustr option \<Rightarrow> ustr \<Rightarrow> parsed list \<Rightarrow> bool \<Rightarrow>
   glob_state \<Rightarrow> failure + glob_state" where
  "processGlobStar E F proc pre dir remain inGlobStar s =
     (case readdir E F dir inGlobStar s of
        Inl er \<Rightarrow> Inl er
      | Inr (None, s1) \<Rightarrow> Inr s1
      | Inr (Some entries, s1) \<Rightarrow>
          (case proc (prefix_list pre @ tl remain) False s1 of
             Inl er \<Rightarrow> Inl er
           | Inr s2 \<Rightarrow>
               if symlinks s2 dir = Some True \<and> inGlobStar then Inr s2
               else each_of (\<lambda>e s.
                      if take 1 e = [DOT] \<and> \<not> g_dot E then Inr s
                      else
                        (case proc (prefix_list pre @ [Str e] @ tl remain) True s of
                           Inl er \<Rightarrow> Inl er
                         | Inr s' \<Rightarrow> proc (prefix_list pre @ [Str e] @ remain) True s'))
                    entries s2))"

fun is_string :: "parsed \<Rightarrow> bool" where
  "is_string (Str s) = True"
| "is_string _ = False"

fun string_of :: "parsed \<Rightarrow> ustr" where
  "string_of (Str s) = s"
| "string_of _ = []"

text \<open>\<open>isAbsolute(pattern.join('/'))\<close> for a pattern that starts with a string.\<close>

fun joins_absolute :: "parsed list \<Rightarrow> bool" where
  "joins_absolute (Str s # rest) \<longleftrightarrow> (if s = [] then rest \<noteq> [] else isAbsolute s)"
| "joins_absolute _ \<longleftrightarrow> False"

text \<open>The strings at the front of the pattern, joined; \<open>None\<close> is \<open>null\<close>.\<close>

definition prefix_of :: "parsed list \<Rightarrow> ustr option" where
  "prefix_of pattern =
     (let n = length (takeWhile is_string pattern) in
      if n = 0 then None
      else
        (let pre = join_with [SLASH] (map string_of (take n pattern)) in
         if (isAbsolute pre \<or> joins_absolute pattern) \<and> \<not> isAbsolute pre
         then Some (SLASH # pre) else Some pre))"

definition read_of :: "ustr option \<Rightarrow> ustr" where
  "read_of pre = (case pre of None \<Rightarrow> dot | Some p \<Rightarrow> p)"

text \<open>
  \<open>_process\<close>.  The walk follows the links and directories of an arbitrary file system, so the
  depth of the recursion is bounded by the first argument.
\<close>

fun glob_process ::
  "host \<Rightarrow> glob_env \<Rightarrow> fs \<Rightarrow> nat \<Rightarrow> nat \<Rightarrow> parsed list \<Rightarrow> bool \<Rightarrow> glob_state \<Rightarrow> failure + glob_state"
where
  "glob_process H E F index 0 pattern inGlobStar s = Inl OutOfFuel"
| "glob_process H E F index (Suc fuel) pattern inGlobStar s =
     (let n = length (takeWhile is_string pattern) in
      if n = length pattern
      then Inr (processSimple E F (join_with [SLASH] (map string_of pattern)) index s)
      else
        (let pre = prefix_of pattern;
             remain = drop n pattern;
             dir = makeAbs E (read_of pre)
         in if childrenIgnored H E (read_of pre) then Inr s
            else if hd remain = Globstar
            then processGlobStar E F (glob_process H E F index fuel) pre dir remain inGlobStar s
            else processReaddir H E F (glob_process H E F index fuel) pre dir remain index inGlobStar s))"

section \<open>The result\<close>

text \<open>
  The order of an object's keys: those that are array indices first, ascending, then the others
  as they were added.
\<close>

definition array_index :: "ustr \<Rightarrow> nat option" where
  "array_index k =
     (if k \<noteq> [] \<and> list_all (\<lambda>c. 48 \<le> c \<and> c \<le> 57) k \<and> (hd k \<noteq> 48 \<or> length k = 1) \<and>
         foldl (\<lambda>n c. 10 * n + (c - 48)) 0 k < 4294967295
      then Some (foldl (\<lambda>n c. 10 * n + (c - 48)) 0 k) else None)"

definition js_keys :: "ustr list \<Rightarrow> ustr list" where
  "js_keys ks =
     sort_key (\<lambda>k. the (array_index k)) (filter (\<lambda>k. array_index k \<noteq> None) ks) @
     filter (\<lambda>k. array_index k = None) ks"

definition add_key :: "ustr list \<Rightarrow> ustr list \<Rightarrow> ustr list" where
  "add_key ms ks = fold (\<lambda>m ks. if m \<in> set ks then ks else ks @ [m]) ms ks"

text \<open>\<open>sort\<close> with a comparator: the stable order that a consistent comparator determines.\<close>

fun insert_by :: "(ustr \<Rightarrow> ustr \<Rightarrow> bool) \<Rightarrow> ustr \<Rightarrow> ustr list \<Rightarrow> ustr list" where
  "insert_by le x [] = [x]"
| "insert_by le x (y # ys) = (if le x y then x # y # ys else y # insert_by le x ys)"

definition sort_by :: "(ustr \<Rightarrow> ustr \<Rightarrow> bool) \<Rightarrow> ustr list \<Rightarrow> ustr list" where
  "sort_by le xs = foldr (insert_by le) xs []"

definition alphasort :: "(ustr \<Rightarrow> ustr \<Rightarrow> int) \<Rightarrow> ustr \<Rightarrow> ustr \<Rightarrow> int" where
  "alphasort localeCompare a b = localeCompare a b"

definition alphasorti :: "host \<Rightarrow> (ustr \<Rightarrow> ustr \<Rightarrow> int) \<Rightarrow> ustr \<Rightarrow> ustr \<Rightarrow> int" where
  "alphasorti H localeCompare a b = localeCompare (toLowerCase H a) (toLowerCase H b)"

definition gather :: "glob_env \<Rightarrow> ustr list option list \<Rightarrow> ustr list" where
  "gather E sets =
     (let names = map (\<lambda>i. case sets ! i of
                     Some (m # ms) \<Rightarrow> js_keys (m # ms)
                   | _ \<Rightarrow> if g_nonull E then [mm_globSet (g_minimatch E) ! i] else [])
                   [0..<length sets]
      in if g_nounique E then concat names else js_keys (fold add_key names []))"

fun mark_all :: "glob_env \<Rightarrow> ustr list \<Rightarrow> glob_state \<Rightarrow> ustr list" where
  "mark_all E [] s = []"
| "mark_all E (p # ps) s = (case mark E p s of (m, s') \<Rightarrow> m # mark_all E ps s')"

definition sorted_found :: "host \<Rightarrow> (ustr \<Rightarrow> ustr \<Rightarrow> int) \<Rightarrow> glob_env \<Rightarrow> glob_state \<Rightarrow> ustr list" where
  "sorted_found H localeCompare E s =
     (let all = gather E (matches s);
          compare = (if g_nocase E then alphasorti H localeCompare else alphasort localeCompare)
      in if g_nosort E then all else sort_by (\<lambda>a b. compare a b \<le> 0) all)"

definition finish :: "host \<Rightarrow> (ustr \<Rightarrow> ustr \<Rightarrow> int) \<Rightarrow> glob_env \<Rightarrow> glob_state \<Rightarrow> ustr list" where
  "finish H localeCompare E s =
     (let sorted = sorted_found H localeCompare E s;
          marked = (if g_mark E
                    then (let ms = mark_all E sorted s
                          in if g_nodir E then filter (\<lambda>e. \<not> ends_slash e) ms else ms)
                    else sorted)
      in if g_ignore E \<noteq> [] then filter (\<lambda>m. \<not> isIgnored H E m) marked else marked)"

section \<open>Options\<close>

text \<open>
  The option object is shared with \<open>minimatch\<close>.  \<open>nonegate\<close> and \<open>nocomment\<close> say here that
  the option is not literally \<open>false\<close>, which is how \<open>setopts\<close> rewrites them; \<open>o_strict\<close> and
  \<open>o_cwd\<close> are read the same way.
\<close>

record glob_options = options +
  o_strict :: bool
  o_follow :: bool
  o_mark :: bool
  o_nodir :: bool
  o_nounique :: bool
  o_nosort :: bool
  o_stat :: bool
  o_nomount :: bool
  o_maxLength :: nat
  o_cwd :: "ustr option"
  o_root :: ustr
  o_ignore :: "ustr list"
  o_cache :: "ustr \<Rightarrow> cached option"
  o_statCache :: "ustr \<Rightarrow> stats option"
  o_symlinks :: "ustr \<Rightarrow> bool option"

definition globstar_end :: ustr where
  "globstar_end = u ''/**''"

function drop_globstars :: "ustr \<Rightarrow> ustr" where
  "drop_globstars p =
     (if suffix globstar_end p then drop_globstars (take (length p - 3) p) else p)"
  by pat_completeness auto
termination
  by (relation "measure length") (auto simp: suffix_def globstar_end_def)

declare drop_globstars.simps [simp del]

definition ignoreMap :: "host \<Rightarrow> randoms \<Rightarrow> nat \<Rightarrow> ustr \<Rightarrow> (minimatch \<times> minimatch option) option ran" where
  "ignoreMap H R fuel pattern =
     bind_ran (if suffix globstar_end pattern
               then map_ran (map_option Some) (Minimatch H R fuel (drop_globstars pattern) default_options)
               else Ret (Some None))
       (\<lambda>gmatcher. map_ran (\<lambda>matcher. case (matcher, gmatcher) of
            (Some m, Some g) \<Rightarrow> Some (m, g) | _ \<Rightarrow> None)
          (Minimatch H R fuel pattern default_options))"

fun setupIgnores :: "host \<Rightarrow> randoms \<Rightarrow> nat \<Rightarrow> ustr list \<Rightarrow> (minimatch \<times> minimatch option) list option ran" where
  "setupIgnores H R fuel [] = Ret (Some [])"
| "setupIgnores H R fuel (p # ps) =
     bind_ran (ignoreMap H R fuel p) (\<lambda>m. case m of
         None \<Rightarrow> Ret None
       | Some m \<Rightarrow> map_ran (map_option ((#) m)) (setupIgnores H R fuel ps))"

definition setopts ::
  "host \<Rightarrow> randoms \<Rightarrow> nat \<Rightarrow> glob_options \<Rightarrow> ustr \<Rightarrow> (failure + glob_env \<times> glob_state) ran" where
  "setopts H R fuel opts pattern =
     (let base = (matchBase opts \<and> SLASH \<notin> set pattern) in
      if base \<and> noglobstar opts then Ret (Inl NeedsGlobstar)
      else
        (let pattern' = (if base then u ''**/'' @ pattern else pattern);
             cwd = (case o_cwd opts of None \<Rightarrow> process_cwd | Some d \<Rightarrow> d);
             root = (if o_root opts \<noteq> [] then o_root opts else resolve [cwd, [SLASH]])
         in bind_ran (setupIgnores H R fuel (o_ignore opts)) (\<lambda>ignores. case ignores of
              None \<Rightarrow> Ret (Inl PatternTooLong)
            | Some ignores \<Rightarrow>
                map_ran (\<lambda>mm. case mm of
                    None \<Rightarrow> Inl PatternTooLong
                  | Some mm \<Rightarrow> Inr
                      (\<lparr>g_strict = o_strict opts, g_follow = o_follow opts, g_dot = dot_opt opts,
                        g_mark = (o_mark opts \<or> o_nodir opts), g_nodir = o_nodir opts,
                        g_nounique = o_nounique opts, g_nonull = nonull opts, g_nosort = o_nosort opts,
                        g_nocase = nocase opts, g_stat = o_stat opts, g_nomount = o_nomount opts,
                        g_maxLength = (if o_maxLength opts = 0 then None else Some (o_maxLength opts)),
                        g_cwd = cwd,
                        g_changedCwd = (case o_cwd opts of None \<Rightarrow> False | Some d \<Rightarrow> resolve [d] \<noteq> process_cwd),
                        g_root = resolve [root], g_ignore = ignores, g_minimatch = mm\<rparr>,
                       \<lparr>matches = replicate (length (mm_set mm)) None, cache = o_cache opts,
                        statCache = o_statCache opts, symlinks = o_symlinks opts\<rparr>))
                  (Minimatch H R fuel pattern' (options.truncate opts)))))"

definition process_set ::
  "host \<Rightarrow> glob_env \<Rightarrow> fs \<Rightarrow> nat \<Rightarrow> glob_state \<Rightarrow> failure + glob_state" where
  "process_set H E F depth s =
     each_of (\<lambda>i. glob_process H E F i depth (mm_set (g_minimatch E) ! i) False)
       [0..<length (mm_set (g_minimatch E))] s"

text \<open>\<open>new GlobSync(pattern, options).found\<close>.\<close>

definition globSync ::
  "host \<Rightarrow> randoms \<Rightarrow> (ustr \<Rightarrow> ustr \<Rightarrow> int) \<Rightarrow> fs \<Rightarrow> nat \<Rightarrow> nat \<Rightarrow> ustr \<Rightarrow> glob_options \<Rightarrow>
   (failure + ustr list) ran" where
  "globSync H R localeCompare F fuel depth pattern opts =
     (if pattern = [] then Ret (Inl NoPattern)
      else map_ran (\<lambda>r. case r of
          Inl er \<Rightarrow> Inl er
        | Inr (E, s) \<Rightarrow>
            (case process_set H E F depth s of
               Inl er \<Rightarrow> Inl er
             | Inr s' \<Rightarrow> Inr (finish H localeCompare E s')))
          (setopts H R fuel opts pattern))"

end
