(* ===== verification/Js_Inflight.thy ===== *)
theory Js_Inflight
  imports Prelude "HOL-Library.AList"
begin

text \<open>
  The modules \<open>inflight\<close>, \<open>once\<close> and \<open>wrappy\<close> of the bundle
  (\<open>site/assets/javascripts/lunr/wordcut.js\<close>, modules 18, 21 and 29), with which the asynchronous
  glob makes one file system call for all that ask for the same name.

  \<open>reqs\<close> maps a key to the array of its callbacks.  The array is an object that \<open>RES\<close> goes
  on reading while callbacks add to it, so arrays live in a store and \<open>reqs\<close> holds addresses.
  The scheduler may run, at any moment, a request, the function returned for a key, the next
  callback of the innermost running \<open>RES\<close>, or (with nothing running) the next tick; callbacks
  may throw.
\<close>

section \<open>once\<close>

record 'v once_state =
  called :: bool
  once_value :: "'v option"

definition once_init :: "'v once_state" where
  "once_init = \<lparr>called = False, once_value = None\<rparr>"

text \<open>Entering the wrapper: whether \<open>fn\<close> is to be called.\<close>

definition once_enter :: "'v once_state \<Rightarrow> 'v once_state \<times> bool" where
  "once_enter f = (if called f then (f, False) else (f\<lparr>called := True\<rparr>, True))"

definition once_leave :: "'v \<Rightarrow> 'v once_state \<Rightarrow> 'v once_state" where
  "once_leave v f = f\<lparr>once_value := Some v\<rparr>"

text \<open>\<open>onceStrict\<close> throws (\<open>None\<close>) where \<open>once\<close> returns the value it has.\<close>

definition onceStrict_enter :: "'v once_state \<Rightarrow> 'v once_state option" where
  "onceStrict_enter f = (if called f then None else Some (f\<lparr>called := True\<rparr>))"

section \<open>wrappy\<close>

text \<open>
  Functions with an identity and their own properties; \<open>Missing\<close> is \<open>undefined\<close> or \<open>null\<close>,
  \<open>Plain\<close> any other value, which has no properties of its own to copy.
\<close>

datatype 'v callee = Fn nat "(ustr \<times> 'v) list" | Missing | Plain

definition copy_props :: "(ustr \<times> 'v) list \<Rightarrow> (ustr \<times> 'v) list \<Rightarrow> (ustr \<times> 'v) list" where
  "copy_props src dst = fold (\<lambda>(k, v). AList.update k v) src dst"

datatype wrappy_error = NeedWrapperFunction | NotAnObject

text \<open>The wrapper, with the identity \<open>w\<close>, of a function.\<close>

definition wrappy :: "nat \<Rightarrow> 'v callee \<Rightarrow> wrappy_error + 'v callee" where
  "wrappy w fn = (case fn of Fn f ps \<Rightarrow> Inr (Fn w (copy_props ps [])) | _ \<Rightarrow> Inl NeedWrapperFunction)"

text \<open>A call of the wrapper, from what \<open>fn\<close> returned and the last argument.\<close>

definition wrapper_returns :: "'v callee \<Rightarrow> 'v callee \<Rightarrow> wrappy_error + 'v callee" where
  "wrapper_returns ret cb =
     (case ret of
        Fn r rs \<Rightarrow>
          (case cb of
             Fn c cs \<Rightarrow> Inr (if r \<noteq> c then Fn r (copy_props cs rs) else ret)
           | Missing \<Rightarrow> Inl NotAnObject
           | Plain \<Rightarrow> Inr ret)
      | _ \<Rightarrow> Inr ret)"

section \<open>inflight\<close>

text \<open>A running \<open>RES\<close>: its key, \<open>cbs\<close>, \<open>len\<close>, \<open>i\<close> and \<open>args\<close>.\<close>

record ('k, 'a) pass =
  p_key :: 'k
  p_cbs :: nat
  p_len :: nat
  p_i :: nat
  p_args :: 'a

text \<open>The history: a callback asked for, called with its arguments, or passed over by a throw.\<close>

datatype ('k, 'c, 'a) happening = Asked 'k 'c | Served 'k 'c 'a | Skipped 'k 'c

record ('k, 'c, 'a) flights =
  arrays :: "'c list list"
  reqs :: "'k \<Rightarrow> nat option"
  handles :: "('k \<times> bool) list"
  ticks :: "('k \<times> 'a) list"
  passes :: "('k, 'a) pass list"
  events :: "('k, 'c, 'a) happening list"

definition no_flights :: "('k, 'c, 'a) flights" where
  "no_flights = \<lparr>arrays = [], reqs = (\<lambda>_. None), handles = [], ticks = [], passes = [], events = []\<rparr>"

text \<open>\<open>inflight(key, cb)\<close>; \<open>handles\<close> are the functions \<open>makeres\<close> returned and their \<open>called\<close>.\<close>

definition inflight :: "'k \<Rightarrow> 'c \<Rightarrow> ('k, 'c, 'a) flights \<Rightarrow> ('k, 'c, 'a) flights" where
  "inflight key cb s =
     (case reqs s key of
        Some a \<Rightarrow> s\<lparr>arrays := (arrays s)[a := arrays s ! a @ [cb]], events := events s @ [Asked key cb]\<rparr>
      | None \<Rightarrow> s\<lparr>arrays := arrays s @ [[cb]], reqs := (reqs s)(key \<mapsto> length (arrays s)),
                   handles := handles s @ [(key, False)], events := events s @ [Asked key cb]\<rparr>)"

text \<open>The start of \<open>RES\<close>; \<open>None\<close> is the TypeError of \<open>cbs.length\<close>.\<close>

definition enter_RES :: "'k \<Rightarrow> 'a \<Rightarrow> ('k, 'c, 'a) flights \<Rightarrow> ('k, 'c, 'a) flights option" where
  "enter_RES key as s =
     map_option (\<lambda>a. s\<lparr>passes :=
         \<lparr>p_key = key, p_cbs = a, p_len = length (arrays s ! a), p_i = 0, p_args = as\<rparr> # passes s\<rparr>)
       (reqs s key)"

text \<open>The function returned for a key, called with \<open>as\<close>.\<close>

definition call_handle :: "nat \<Rightarrow> 'a \<Rightarrow> ('k, 'c, 'a) flights \<Rightarrow> ('k, 'c, 'a) flights option" where
  "call_handle h as s =
     (let key = fst (handles s ! h) in
      if snd (handles s ! h) then Some s
      else enter_RES key as (s\<lparr>handles := (handles s)[h := (key, True)]\<rparr>))"

definition next_callback :: "('k, 'a) pass \<Rightarrow> ('k, 'c, 'a) flights \<Rightarrow> ('k, 'c, 'a) flights" where
  "next_callback p s =
     s\<lparr>passes := p\<lparr>p_i := Suc (p_i p)\<rparr> # tl (passes s),
       events := events s @ [Served (p_key p) (arrays s ! p_cbs p ! p_i p) (p_args p)]\<rparr>"

text \<open>The \<open>finally\<close> block, which a throw reaches before the loop is done.\<close>

definition finally_RES :: "('k, 'a) pass \<Rightarrow> ('k, 'c, 'a) flights \<Rightarrow> ('k, 'c, 'a) flights" where
  "finally_RES p s =
     (let s1 = s\<lparr>passes := tl (passes s),
                 events := events s @ map (Skipped (p_key p)) (slice (p_i p) (p_len p) (arrays s ! p_cbs p))\<rparr>
      in if length (arrays s ! p_cbs p) > p_len p
         then s1\<lparr>arrays := (arrays s)[p_cbs p := drop (p_len p) (arrays s ! p_cbs p)],
                 ticks := ticks s @ [(p_key p, p_args p)]\<rparr>
         else s1\<lparr>reqs := (reqs s)(p_key p := None)\<rparr>)"

inductive flight_step :: "('k, 'c, 'a) flights \<Rightarrow> ('k, 'c, 'a) flights \<Rightarrow> bool" where
  Request: "flight_step s (inflight key cb s)"
| Answer: "h < length (handles s) \<Longrightarrow> call_handle h as s = Some s' \<Longrightarrow> flight_step s s'"
| Callback: "passes s = p # ps \<Longrightarrow> p_i p < p_len p \<Longrightarrow> flight_step s (next_callback p s)"
| Done: "passes s = p # ps \<Longrightarrow> p_i p = p_len p \<Longrightarrow> flight_step s (finally_RES p s)"
| Throw: "passes s = p # ps \<Longrightarrow> 0 < p_i p \<Longrightarrow> flight_step s (finally_RES p s)"
| Tick: "passes s = [] \<Longrightarrow> ticks s = (key, as) # ts \<Longrightarrow> enter_RES key as (s\<lparr>ticks := ts\<rparr>) = Some s' \<Longrightarrow>
    flight_step s s'"

inductive_cases flight_stepE: "flight_step s s'"

section \<open>Accounts\<close>

text \<open>The callbacks asked for under a key, and those called or passed over, in order.\<close>

fun asked :: "'k \<Rightarrow> ('k, 'c, 'a) happening list \<Rightarrow> 'c list" where
  "asked key [] = []"
| "asked key (Asked k c # es) = (if k = key then c # asked key es else asked key es)"
| "asked key (_ # es) = asked key es"

fun dealt :: "'k \<Rightarrow> ('k, 'c, 'a) happening list \<Rightarrow> 'c list" where
  "dealt key [] = []"
| "dealt key (Served k c a # es) = (if k = key then c # dealt key es else dealt key es)"
| "dealt key (Skipped k c # es) = (if k = key then c # dealt key es else dealt key es)"
| "dealt key (_ # es) = dealt key es"

lemma asked_append [simp]: "asked key (es @ fs) = asked key es @ asked key fs"
  by (induction key es rule: asked.induct) auto

lemma dealt_append [simp]: "dealt key (es @ fs) = dealt key es @ dealt key fs"
  by (induction key es rule: dealt.induct) auto

lemma asked_skipped [simp]: "asked key (map (Skipped k) cs) = []"
  by (induction cs) auto

lemma dealt_skipped [simp]: "dealt key (map (Skipped k) cs) = (if k = key then cs else [])"
  by (induction cs) auto

text \<open>How far the running \<open>RES\<close> of a key is, the callbacks it still has to call or leave to a
  next tick, and how many things can still start or continue a \<open>RES\<close> for the key.\<close>

definition progress :: "'k \<Rightarrow> ('k, 'c, 'a) flights \<Rightarrow> nat" where
  "progress key s = (case find (\<lambda>p. p_key p = key) (passes s) of None \<Rightarrow> 0 | Some p \<Rightarrow> p_i p)"

definition waiting :: "'k \<Rightarrow> ('k, 'c, 'a) flights \<Rightarrow> 'c list" where
  "waiting key s = (case reqs s key of None \<Rightarrow> [] | Some a \<Rightarrow> drop (progress key s) (arrays s ! a))"

definition live :: "'k \<Rightarrow> ('k, 'c, 'a) flights \<Rightarrow> nat" where
  "live key s = count_list (handles s) (key, False) + count_list (map p_key (passes s)) key +
     count_list (map fst (ticks s)) key"

definition flights_ok :: "('k, 'c, 'a) flights \<Rightarrow> bool" where
  "flights_ok s \<longleftrightarrow>
     (\<forall>key. live key s = (if reqs s key = None then 0 else 1)) \<and>
     (\<forall>key a. reqs s key = Some a \<longrightarrow> a < length (arrays s)) \<and>
     (\<forall>key key' a. reqs s key = Some a \<and> reqs s key' = Some a \<longrightarrow> key = key') \<and>
     (\<forall>p \<in> set (passes s). reqs s (p_key p) = Some (p_cbs p) \<and> p_i p \<le> p_len p \<and>
        p_len p \<le> length (arrays s ! p_cbs p)) \<and>
     (\<forall>key. asked key (events s) = dealt key (events s) @ waiting key s)"

lemma flights_okD:
  assumes "flights_ok s"
  shows "live key s = (if reqs s key = None then 0 else 1)"
    and "reqs s key = Some a \<Longrightarrow> a < length (arrays s)"
    and "reqs s key = Some a \<Longrightarrow> reqs s key' = Some a \<Longrightarrow> key = key'"
    and "p \<in> set (passes s) \<Longrightarrow> reqs s (p_key p) = Some (p_cbs p)"
    and "p \<in> set (passes s) \<Longrightarrow> p_i p \<le> p_len p \<and> p_len p \<le> length (arrays s ! p_cbs p)"
    and "asked key (events s) = dealt key (events s) @ waiting key s"
  using assms unfolding flights_ok_def by blast+

lemma flights_ok_start: "flights_ok no_flights"
  by (simp add: flights_ok_def no_flights_def live_def waiting_def)

lemma find_key_none: "find (\<lambda>p. p_key p = key) ps = None \<longleftrightarrow> key \<notin> p_key ` set ps"
  by (auto simp: find_None_iff)

lemma progress_pass:
  "find (\<lambda>p. p_key p = key) (passes s) = Some p \<Longrightarrow> p \<in> set (passes s) \<and> p_key p = key"
  by (auto simp: find_Some_iff)

lemma progress_le:
  assumes "flights_ok s" and "reqs s key = Some a"
  shows "progress key s \<le> length (arrays s ! a)"
proof (cases "find (\<lambda>p. p_key p = key) (passes s)")
  case (Some p)
  with progress_pass have p: "p \<in> set (passes s)" "p_key p = key" by metis+
  with flights_okD(4,5) [OF assms(1), of p] assms(2) Some show ?thesis by (simp add: progress_def)
qed (simp add: progress_def)

lemma inflight_ok:
  assumes ok: "flights_ok s"
  shows "flights_ok (inflight key cb s)"
proof (cases "reqs s key")
  case None
  let ?s = "inflight key cb s" and ?n = "length (arrays s)"
  have s: "?s = s\<lparr>arrays := arrays s @ [[cb]], reqs := (reqs s)(key \<mapsto> ?n),
      handles := handles s @ [(key, False)], events := events s @ [Asked key cb]\<rparr>"
    by (simp add: inflight_def None)
  have old: "a < ?n" if "reqs s k = Some a" for k a using flights_okD(2) [OF ok that] .
  have no_pass: "p_key p \<noteq> key" if "p \<in> set (passes s)" for p
    using flights_okD(4) [OF ok that] None by auto
  have 1: "live k ?s = (if reqs ?s k = None then 0 else 1)" for k
    using flights_okD(1) [OF ok, of k] None by (auto simp: s live_def split: if_splits)
  have 2: "a < length (arrays ?s)" if "reqs ?s k = Some a" for k a
    using that old by (auto simp: s less_Suc_eq split: if_splits)
  have 3: "k = k'" if "reqs ?s k = Some a" "reqs ?s k' = Some a" for k k' a
    using that old flights_okD(3) [OF ok, of k a k'] by (auto simp: s split: if_splits)
  have 4: "reqs ?s (p_key p) = Some (p_cbs p) \<and> p_i p \<le> p_len p \<and> p_len p \<le> length (arrays ?s ! p_cbs p)"
    if "p \<in> set (passes ?s)" for p
    using that flights_okD(4,5) [OF ok, of p] no_pass [of p] old by (auto simp: s nth_append)
  have "progress key s = 0" using no_pass by (auto simp: progress_def find_Some_iff split: option.split dest!: nth_mem)
  then have 5: "asked k (events ?s) = dealt k (events ?s) @ waiting k ?s" for k
    using flights_okD(6) [OF ok, of k] old [of k] None
    by (auto simp: s waiting_def progress_def nth_append split: option.splits)
  show ?thesis unfolding flights_ok_def using 1 2 3 4 5 by blast
next
  case (Some a)
  let ?s = "inflight key cb s"
  have s: "?s = s\<lparr>arrays := (arrays s)[a := arrays s ! a @ [cb]], events := events s @ [Asked key cb]\<rparr>"
    by (simp add: inflight_def Some)
  have a: "a < length (arrays s)" using flights_okD(2) [OF ok Some] .
  have 1: "live k ?s = (if reqs ?s k = None then 0 else 1)" for k
    using flights_okD(1) [OF ok, of k] by (simp add: s live_def)
  have 2: "b < length (arrays ?s)" if "reqs ?s k = Some b" for k b
    using that flights_okD(2) [OF ok, of k b] by (simp add: s)
  have 3: "k = k'" if "reqs ?s k = Some b" "reqs ?s k' = Some b" for k k' b
    using that flights_okD(3) [OF ok, of k b k'] by (simp add: s)
  have 4: "reqs ?s (p_key p) = Some (p_cbs p) \<and> p_i p \<le> p_len p \<and> p_len p \<le> length (arrays ?s ! p_cbs p)"
    if "p \<in> set (passes ?s)" for p
    using that flights_okD(4,5) [OF ok, of p] a by (cases "p_cbs p = a") (auto simp: s)
  have 5: "asked k (events ?s) = dealt k (events ?s) @ waiting k ?s" for k
  proof (cases "k = key")
    case True
    then show ?thesis
      using flights_okD(6) [OF ok, of k] progress_le [OF ok Some] Some a
      by (simp add: s waiting_def progress_def)
  next
    case False
    then have "reqs s k \<noteq> Some a" using flights_okD(3) [OF ok Some, of k] by auto
    then show ?thesis
      using flights_okD(6) [OF ok, of k] False
      by (auto simp: s waiting_def progress_def split: option.splits)
  qed
  show ?thesis unfolding flights_ok_def using 1 2 3 4 5 by blast
qed

text \<open>A handle or a tick that starts \<open>RES\<close> makes way for the running \<open>RES\<close>.\<close>

lemma enter_RES_ok:
  assumes ok: "flights_ok s"
    and hand_over: "\<And>k. count_list hs (k, False) + count_list (map fst ts) k + (if k = key then 1 else 0) =
      count_list (handles s) (k, False) + count_list (map fst (ticks s)) k"
  shows "\<exists>s'. enter_RES key as (s\<lparr>handles := hs, ticks := ts\<rparr>) = Some s' \<and> flights_ok s'"
proof -
  have "0 < live key s" using hand_over [of key] unfolding live_def by simp linarith
  with flights_okD(1) [OF ok, of key] obtain a where a: "reqs s key = Some a" "live key s = 1"
    by (auto split: if_splits)
  then have none: "count_list (map p_key (passes s)) key = 0"
    using hand_over [of key] by (simp add: live_def)
  then have "key \<notin> set (map p_key (passes s))" by (metis count_list_0_iff)
  then have no_pass: "p_key p \<noteq> key" if "p \<in> set (passes s)" for p
    using that by (metis image_eqI list.set_map)
  let ?p = "\<lparr>p_key = key, p_cbs = a, p_len = length (arrays s ! a), p_i = 0, p_args = as\<rparr>"
  let ?s = "s\<lparr>handles := hs, ticks := ts, passes := ?p # passes s\<rparr>"
  have "enter_RES key as (s\<lparr>handles := hs, ticks := ts\<rparr>) = Some ?s" by (simp add: enter_RES_def a)
  moreover have "flights_ok ?s"
  proof -
    have "live k ?s = live k s" for k using hand_over [of k] by (auto simp: live_def)
    then have 1: "live k ?s = (if reqs ?s k = None then 0 else 1)" for k
      using flights_okD(1) [OF ok, of k] by simp
    have 4: "reqs ?s (p_key p) = Some (p_cbs p) \<and> p_i p \<le> p_len p \<and> p_len p \<le> length (arrays ?s ! p_cbs p)"
      if "p \<in> set (passes ?s)" for p
      using that flights_okD(4,5) [OF ok, of p] a(1) by auto
    have "progress k ?s = progress k s" for k
      using no_pass by (auto simp: progress_def split: option.split dest: progress_pass)
    then have 5: "asked k (events ?s) = dealt k (events ?s) @ waiting k ?s" for k
      using flights_okD(6) [OF ok, of k] by (cases "reqs s k") (simp_all add: waiting_def)
    show ?thesis unfolding flights_ok_def
      using 1 4 5 flights_okD(2) [OF ok] flights_okD(3) [OF ok] by simp
  qed
  ultimately show ?thesis by blast
qed

lemma count_list_update:
  "h < length xs \<Longrightarrow> xs ! h = x \<Longrightarrow> x \<noteq> y \<Longrightarrow>
    count_list (xs[h := y]) z + (if z = x then 1 else 0) = count_list xs z + (if z = y then 1 else 0)"
proof (induction xs arbitrary: h)
  case (Cons x' xs)
  then show ?case
  proof (cases h)
    case (Suc n)
    with Cons.prems Cons.IH [of n] show ?thesis by auto
  qed auto
qed simp

lemma call_handle_ok:
  assumes "flights_ok s" and "h < length (handles s)"
  shows "\<exists>s'. call_handle h as s = Some s' \<and> flights_ok s'"
proof (cases "handles s ! h")
  case (Pair key used)
  show ?thesis
  proof (cases used)
    case True
    with Pair assms(1) show ?thesis by (simp add: call_handle_def)
  next
    case False
    have "count_list ((handles s)[h := (key, True)]) (k, False) + count_list (map fst (ticks s)) k + (if k = key then 1 else 0) =
        count_list (handles s) (k, False) + count_list (map fst (ticks s)) k" for k
      using count_list_update [OF assms(2), of "(key, False)" "(key, True)" "(k, False)"] Pair False by auto
    from enter_RES_ok [OF assms(1) this] Pair False show ?thesis by (simp add: call_handle_def)
  qed
qed

lemma tick_ok:
  assumes "flights_ok s" and "ticks s = (key, as) # ts"
  shows "\<exists>s'. enter_RES key as (s\<lparr>ticks := ts\<rparr>) = Some s' \<and> flights_ok s'"
  using enter_RES_ok [OF assms(1), of "handles s" ts key as] assms(2) by simp

lemma next_callback_ok:
  assumes ok: "flights_ok s" and p: "passes s = p # ps" "p_i p < p_len p"
  shows "flights_ok (next_callback p s)"
proof -
  let ?s = "next_callback p s" and ?cbs = "arrays s ! p_cbs p"
  have s: "?s = s\<lparr>passes := p\<lparr>p_i := Suc (p_i p)\<rparr> # ps,
      events := events s @ [Served (p_key p) (?cbs ! p_i p) (p_args p)]\<rparr>"
    by (simp add: next_callback_def p(1))
  note P = flights_okD(4,5) [OF ok, of p]
  have 1: "live k ?s = (if reqs ?s k = None then 0 else 1)" for k
    using flights_okD(1) [OF ok, of k] p(1) by (simp add: s live_def)
  have 4: "reqs ?s (p_key q) = Some (p_cbs q) \<and> p_i q \<le> p_len q \<and> p_len q \<le> length (arrays ?s ! p_cbs q)"
    if "q \<in> set (passes ?s)" for q
    using that flights_okD(4,5) [OF ok, of q] P p by (auto simp: s)
  have 5: "asked k (events ?s) = dealt k (events ?s) @ waiting k ?s" for k
  proof (cases "p_key p = k")
    case True
    then have "waiting k s = ?cbs ! p_i p # waiting k ?s"
      using P p by (simp add: s waiting_def progress_def Cons_nth_drop_Suc)
    with flights_okD(6) [OF ok, of k] True show ?thesis by (simp add: s)
  next
    case False
    with flights_okD(6) [OF ok, of k] p(1) show ?thesis
      by (cases "reqs s k") (simp_all add: s waiting_def progress_def)
  qed
  show ?thesis unfolding flights_ok_def
    using 1 4 5 flights_okD(2) [OF ok] flights_okD(3) [OF ok] by (simp add: s)
qed

lemma finally_RES_ok:
  assumes ok: "flights_ok s" and p: "passes s = p # ps"
  shows "flights_ok (finally_RES p s)"
proof -
  let ?s = "finally_RES p s" and ?cbs = "arrays s ! p_cbs p"
  have P: "reqs s (p_key p) = Some (p_cbs p)" "p_i p \<le> p_len p" "p_len p \<le> length ?cbs"
    using flights_okD(4,5) [OF ok, of p] p by auto
  have one: "live (p_key p) s = 1" using flights_okD(1) [OF ok, of "p_key p"] P(1) by simp
  then have "count_list (map p_key ps) (p_key p) = 0" by (simp add: live_def p)
  then have "p_key p \<notin> set (map p_key ps)" by (metis count_list_0_iff)
  then have others: "p_key q \<noteq> p_key p" if "q \<in> set ps" for q
    using that by (metis image_eqI list.set_map)
  have arr: "p_cbs p < length (arrays s)" using flights_okD(2) [OF ok P(1)] .
  have apart: "a \<noteq> p_cbs p" if "reqs s k = Some a" "k \<noteq> p_key p" for k a
    using flights_okD(3) [OF ok P(1), of k] that by auto
  have ev: "events ?s = events s @ map (Skipped (p_key p)) (slice (p_i p) (p_len p) ?cbs)"
    and ps: "passes ?s = ps" by (simp_all add: finally_RES_def p Let_def)
  have part: "drop (p_i p) ?cbs = slice (p_i p) (p_len p) ?cbs @ drop (p_len p) ?cbs"
    using P(2) by (simp add: slice_def) (metis append_take_drop_id drop_drop le_add_diff_inverse2)
  have "find (\<lambda>q. p_key q = p_key p) ps = None" using others by (auto simp: find_None_iff)
  then have prog: "progress (p_key p) ?s = 0" "\<And>k. k \<noteq> p_key p \<Longrightarrow> progress k ?s = progress k s"
    by (simp_all add: progress_def ps p)
  have 4: "reqs ?s (p_key q) = Some (p_cbs q) \<and> p_i q \<le> p_len q \<and> p_len q \<le> length (arrays ?s ! p_cbs q)"
    if "q \<in> set (passes ?s)" for q
  proof -
    have q: "q \<in> set ps" using that ps by simp
    then have Q: "reqs s (p_key q) = Some (p_cbs q)" "p_i q \<le> p_len q \<and> p_len q \<le> length (arrays s ! p_cbs q)"
      using flights_okD(4,5) [OF ok, of q] p by auto
    with others [OF q] apart [OF Q(1)] show ?thesis
      by (cases "p_len p < length ?cbs") (simp_all add: finally_RES_def Let_def)
  qed
  have ok': ?thesis
    if more: "p_len p < length ?cbs"
  proof -
    have s: "arrays ?s = (arrays s)[p_cbs p := drop (p_len p) ?cbs]" "reqs ?s = reqs s"
        "ticks ?s = ticks s @ [(p_key p, p_args p)]" "handles ?s = handles s"
      using more by (simp_all add: finally_RES_def Let_def)
    have 1: "live k ?s = (if reqs ?s k = None then 0 else 1)" for k
      using flights_okD(1) [OF ok, of k] by (simp add: s live_def ps p split: if_splits)
    have 5: "asked k (events ?s) = dealt k (events ?s) @ waiting k ?s" for k
    proof (cases "k = p_key p")
      case True
      with flights_okD(6) [OF ok, of k] P(1) part prog(1) arr p show ?thesis
        by (simp add: ev s waiting_def) (simp add: progress_def)
    next
      case False
      with flights_okD(6) [OF ok, of k] prog(2) [OF False] apart [of k] show ?thesis
        by (cases "reqs s k") (simp_all add: ev s waiting_def)
    qed
    show ?thesis unfolding flights_ok_def
      using 1 4 5 flights_okD(2) [OF ok] flights_okD(3) [OF ok] by (simp add: s)
  qed
  moreover have ?thesis if less: "\<not> p_len p < length ?cbs"
  proof -
    have s: "arrays ?s = arrays s" "reqs ?s = (reqs s)(p_key p := None)" "ticks ?s = ticks s" "handles ?s = handles s"
      using less by (simp_all add: finally_RES_def Let_def)
    have 1: "live k ?s = (if reqs ?s k = None then 0 else 1)" for k
      using flights_okD(1) [OF ok, of k] one by (auto simp: s live_def ps p split: if_splits)
    have 5: "asked k (events ?s) = dealt k (events ?s) @ waiting k ?s" for k
    proof (cases "k = p_key p")
      case True
      with flights_okD(6) [OF ok, of k] P(1) part less p show ?thesis
        by (simp add: ev s waiting_def) (simp add: progress_def)
    next
      case False
      with flights_okD(6) [OF ok, of k] prog(2) [OF False] show ?thesis
        by (cases "reqs s k") (simp_all add: ev s waiting_def)
    qed
    have 2: "a < length (arrays ?s)" if "reqs ?s k = Some a" for k a
      using that flights_okD(2) [OF ok, of k a] by (simp add: s split: if_splits)
    have 3: "k = k'" if "reqs ?s k = Some a" "reqs ?s k' = Some a" for k k' a
      using that flights_okD(3) [OF ok, of k a k'] by (simp add: s split: if_splits)
    show ?thesis unfolding flights_ok_def using 1 2 3 4 5 by blast
  qed
  ultimately show ?thesis by blast
qed

lemma flight_step_ok: "flights_ok s \<Longrightarrow> flight_step s s' \<Longrightarrow> flights_ok s'"
proof (erule flight_stepE)
  fix h as
  assume "flights_ok s" "h < length (handles s)" "call_handle h as s = Some s'"
  then show ?thesis using call_handle_ok [of s h as] by auto
next
  fix key as ts
  assume "flights_ok s" "ticks s = (key, as) # ts" "enter_RES key as (s\<lparr>ticks := ts\<rparr>) = Some s'"
  then show ?thesis using tick_ok [of s key as ts] by auto
qed (auto intro: inflight_ok next_callback_ok finally_RES_ok)

interpretation inflight: invariant_of "\<lambda>s. s = no_flights" flight_step flights_ok
  by unfold_locales (auto intro: flights_ok_start flight_step_ok)

section \<open>Properties\<close>

text \<open>
  Property C21.  Whatever order requests, answers, callbacks, throws and ticks come in: for every
  key the callbacks asked for are, in order and each once, those that were called or passed over
  after a throw and those still in the array; and a key with callbacks has exactly one handle, running
  \<open>RES\<close> or tick that will deal with them, while a key without has none.
\<close>
theorem inflight_accounts:
  assumes "flight_step\<^sup>*\<^sup>* no_flights s"
  shows "asked key (events s) = dealt key (events s) @ waiting key s \<and>
    live key s = (if reqs s key = None then 0 else 1)"
  using flights_okD(1,6) [OF inflight.holds [OF assms refl], of key] by blast

text \<open>Two callbacks asked for under one key, answered; the first has been called and a third asked for.\<close>

definition two_asked :: "(unit, nat, nat) flights" where
  "two_asked = inflight () 11 (inflight () 10 no_flights)"

definition in_callback :: "(unit, nat, nat) flights" where
  "in_callback =
     (let s = the (call_handle 0 7 two_asked) in inflight () 12 (next_callback (hd (passes s)) s))"

lemma two_asked_reached: "flight_step\<^sup>*\<^sup>* no_flights two_asked"
  unfolding two_asked_def by (meson Request rtranclp.rtrancl_into_rtrancl rtranclp.rtrancl_refl)

lemma in_callback_reached: "flight_step\<^sup>*\<^sup>* no_flights in_callback"
proof -
  let ?s = "the (call_handle 0 7 two_asked)"
  have "call_handle 0 7 two_asked = Some ?s \<and> passes ?s = [hd (passes ?s)] \<and> p_i (hd (passes ?s)) < p_len (hd (passes ?s))
      \<and> 0 < length (handles two_asked)"
    by (simp add: two_asked_def inflight_def no_flights_def call_handle_def enter_RES_def)
  then have "flight_step two_asked ?s" "flight_step ?s (next_callback (hd (passes ?s)) ?s)"
    by (metis Answer, metis Callback)
  with two_asked_reached show ?thesis
    unfolding in_callback_def Let_def by (meson Request rtranclp.rtrancl_into_rtrancl)
qed

theorem inflight_accounts_witness:
  "asked () (events in_callback) = dealt () (events in_callback) @ waiting () in_callback \<and>
   live () in_callback = (if reqs in_callback () = None then 0 else 1)"
  by (rule inflight_accounts [OF in_callback_reached])

text \<open>
  No answer and no tick ever finds its key without callbacks, so that \<open>RES\<close> does not
  throw, and a handle called again does nothing.
\<close>
theorem inflight_answers:
  assumes "flight_step\<^sup>*\<^sup>* no_flights s"
  shows "list_all (\<lambda>h. case call_handle h as s of None \<Rightarrow> False
           | Some s' \<Rightarrow> call_handle h bs s' = Some s') [0..<length (handles s)] \<and>
    (case ticks s of [] \<Rightarrow> True | (key, a) # ts \<Rightarrow> enter_RES key a (s\<lparr>ticks := ts\<rparr>) \<noteq> None)"
proof -
  have ok: "flights_ok s" using inflight.holds [OF assms refl] .
  have "\<exists>s'. call_handle h as s = Some s' \<and> call_handle h bs s' = Some s'" if h: "h < length (handles s)" for h
  proof -
    obtain s' where s': "call_handle h as s = Some s'" using call_handle_ok [OF ok h] by blast
    have "snd (handles s' ! h)"
      using s' h by (cases "snd (handles s ! h)") (auto simp: call_handle_def enter_RES_def Let_def)
    with s' show ?thesis by (simp add: call_handle_def Let_def)
  qed
  then have 1: "list_all (\<lambda>h. case call_handle h as s of None \<Rightarrow> False
      | Some s' \<Rightarrow> call_handle h bs s' = Some s') [0..<length (handles s)]"
    by (fastforce simp: list_all_iff)
  have "enter_RES key a (s\<lparr>ticks := ts\<rparr>) \<noteq> None" if "ticks s = (key, a) # ts" for key a ts
    using tick_ok [OF ok that] by auto
  with 1 show ?thesis by (auto split: list.split)
qed

theorem inflight_answers_witness:
  "list_all (\<lambda>h. case call_handle h 7 two_asked of None \<Rightarrow> False
     | Some s' \<Rightarrow> call_handle h 8 s' = Some s') [0..<length (handles two_asked)] \<and>
   (case ticks two_asked of [] \<Rightarrow> True | (key, a) # ts \<Rightarrow> enter_RES key a (two_asked\<lparr>ticks := ts\<rparr>) \<noteq> None)"
  by (rule inflight_answers [OF two_asked_reached])

end
