(* ===== verification/Js_Glob_Async.thy ===== *)
theory Js_Glob_Async
  imports Js_Glob Js_Inflight
begin

text \<open>
  The asynchronous walk of \<open>glob\<close> (\<open>site/assets/javascripts/lunr/wordcut.js\<close>, lines 1878 to
  2566) as a machine.

  A state holds the fields of the \<open>Glob\<close> object, the requests of \<open>inflight\<close>, the operations the
  file system has not answered, and the calls still to be made by the code that is running, the
  next first: a function that makes calls puts them in front in their order.  Callbacks are named
  by the function they close over and its variables; the callback that all functions pass on is
  \<open>done\<close>.  When nothing runs, the next tick or an answer of the file system starts something; the
  program may pause, resume or abort the walk between any two calls, as listeners do.

  As in the synchronous walk the file system does not change and the platform is POSIX.  Listeners
  do not throw, an \<open>error\<close> event has one, and expressions hold the text they were made of, which
  \<open>minimatch\<close> sees to.  Messages to the console are left out.
\<close>

section \<open>States\<close>

datatype asked_for = LstatKey ustr | ReaddirKey ustr bool | StatKey ustr

datatype answer = Names "ustr list option" | Status "stats option"

datatype glob_callback =
    OnReaddir "ustr option" ustr "parsed list" nat bool
  | OnGlobStar "ustr option" ustr "parsed list" nat bool
  | OnLstat ustr nat
  | OnStat ustr ustr nat
  | Handle nat

datatype operation =
    AskReaddir ustr nat
  | AskLstat ustr nat
  | AskStat ustr ustr nat stats
  | AskRealpath nat ustr

datatype job =
    Process "parsed list" nat bool
  | Reprocess "parsed list" nat bool
  | Readdir ustr bool glob_callback
  | Answer nat answer
  | Run
  | Invoke glob_callback answer
  | GlobRest "ustr option" ustr "parsed list" nat bool "ustr list"
  | Simple2 ustr nat cached
  | EmitMatch nat ustr
  | ResumeProcesses
  | Finished
  | RealpathSet nat
  | RealpathNext

datatype glob_event =
    MatchEvent ustr | StatEvent ustr stats | EndEvent "ustr list" | ErrorEvent errno | RealpathError
  | AbortEvent | PauseEvent | ResumeEvent

record async =
  walk :: glob_state
  failedStat :: "ustr \<Rightarrow> bool"
  flights :: "(asked_for, glob_callback, answer) flights"
  operations :: "operation list"
  jobs :: "job list"
  processing :: int
  emitQueue :: "(nat \<times> ustr) list"
  processQueue :: "(parsed list \<times> nat \<times> bool) list"
  paused :: bool
  aborted :: bool
  didRealpath :: bool
  realpathSets :: nat
  realpathLeft :: "nat \<Rightarrow> nat"
  emitted :: "glob_event list"

text \<open>
  \<open>failedStat\<close> tells where \<open>statCache\<close> holds \<open>false\<close>.  What a walk is given: \<open>Inl\<close> is an error of
  \<open>fs.realpath\<close>, with whether it comes from \<open>stat\<close>.
\<close>

record async_env =
  env :: glob_env
  hostOf :: host
  fsOf :: fs
  realpathOf :: "ustr \<Rightarrow> bool + ustr"
  compareOf :: "ustr \<Rightarrow> ustr \<Rightarrow> int"
  realpathOption :: bool

definition run_next :: "job list \<Rightarrow> async \<Rightarrow> async" where
  "run_next js s = s\<lparr>jobs := js @ jobs s\<rparr>"

definition emit_event :: "glob_event \<Rightarrow> async \<Rightarrow> async" where
  "emit_event e s = s\<lparr>emitted := emitted s @ [e]\<rparr>"

definition in_walk :: "(glob_state \<Rightarrow> glob_state) \<Rightarrow> async \<Rightarrow> async" where
  "in_walk f s = s\<lparr>walk := f (walk s)\<rparr>"

section \<open>Matches\<close>

definition async_mark :: "glob_env \<Rightarrow> ustr \<Rightarrow> async \<Rightarrow> ustr \<times> async" where
  "async_mark E e s =
     (let (m, w) = mark E e (walk s);
          failed = (if m \<noteq> e then (failedStat s)(makeAbs E m := failedStat s (makeAbs E e)) else failedStat s)
      in (m, s\<lparr>walk := w, failedStat := failed\<rparr>))"

definition emitMatch :: "async_env \<Rightarrow> nat \<Rightarrow> ustr \<Rightarrow> async \<Rightarrow> async" where
  "emitMatch A index e s =
     (let E = env A; name = makeAbs E e in
      if aborted s then s
      else if (case matches (walk s) ! index of None \<Rightarrow> False | Some es \<Rightarrow> e \<in> set es) then s
      else if isIgnored (hostOf A) E e then s
      else if paused s then s\<lparr>emitQueue := emitQueue s @ [(index, e)]\<rparr>
      else if g_nodir E \<and> (case cache (walk s) name of Some Dir \<Rightarrow> True | Some (Entries es) \<Rightarrow> True | _ \<Rightarrow> False)
      then s
      else
        (let (m, s1) = (if g_mark E then async_mark E e s else (e, s));
             s2 = in_walk (add_match index m) s1;
             s3 = (case statCache (walk s2) name of None \<Rightarrow> s2 | Some st \<Rightarrow> emit_event (StatEvent m st) s2)
         in emit_event (MatchEvent m) s3))"

section \<open>The end\<close>

definition async_end :: "async_env \<Rightarrow> async \<Rightarrow> async" where
  "async_end A s =
     (let E = env A;
          found = finish (hostOf A) (compareOf A) E (walk s);
          marked = (if g_mark E then fold (\<lambda>p s. snd (async_mark E p s))
                      (sorted_found (hostOf A) (compareOf A) E (walk s)) s else s)
      in emit_event (EndEvent found) marked)"

definition async_finish :: "async_env \<Rightarrow> async \<Rightarrow> async" where
  "async_finish A s =
     (if aborted s then s
      else if realpathOption A \<and> \<not> didRealpath s
      then (let n = length (matches (walk s)); s1 = s\<lparr>didRealpath := True, realpathSets := n\<rparr>
            in if n = 0 then async_end A s1 else run_next (map RealpathSet [0..<n]) s1)
      else async_end A s)"

definition realpathSet :: "async_env \<Rightarrow> nat \<Rightarrow> async \<Rightarrow> async" where
  "realpathSet A index s =
     (case matches (walk s) ! index of
        None \<Rightarrow> run_next [RealpathNext] s
      | Some es \<Rightarrow>
          if es = [] then run_next [RealpathNext] s
          else s\<lparr>walk := (walk s)\<lparr>matches := (matches (walk s))[index := Some []]\<rparr>,
                 realpathLeft := (realpathLeft s)(index := length es),
                 operations := operations s @ map (\<lambda>p. AskRealpath index (makeAbs (env A) p)) (js_keys es)\<rparr>)"

definition realpathNext :: "async_env \<Rightarrow> async \<Rightarrow> async" where
  "realpathNext A s =
     (let s1 = s\<lparr>realpathSets := realpathSets s - 1\<rparr>
      in if realpathSets s1 = 0 then async_finish A s1 else s1)"

definition realpathAnswer :: "async_env \<Rightarrow> nat \<Rightarrow> ustr \<Rightarrow> async \<Rightarrow> async" where
  "realpathAnswer A index p s =
     (let s1 = (case realpathOf A p of
                  Inr real \<Rightarrow> in_walk (add_match index real) s
                | Inl True \<Rightarrow> in_walk (add_match index p) s
                | Inl False \<Rightarrow> emit_event RealpathError s);
          s2 = s1\<lparr>realpathLeft := (realpathLeft s1)(index := realpathLeft s1 index - 1)\<rparr>
      in if realpathLeft s2 index = 0 then run_next [RealpathNext] s2 else s2)"

text \<open>\<open>done\<close>.\<close>

definition finished :: "async_env \<Rightarrow> async \<Rightarrow> async" where
  "finished A s =
     (let s1 = s\<lparr>processing := processing s - 1\<rparr>
      in if processing s1 \<le> 0 then async_finish A s1 else s1)"

section \<open>Pausing and aborting\<close>

definition abort :: "async \<Rightarrow> async" where
  "abort s = emit_event AbortEvent (s\<lparr>aborted := True\<rparr>)"

definition pause :: "async \<Rightarrow> async" where
  "pause s = (if paused s then s else emit_event PauseEvent (s\<lparr>paused := True\<rparr>))"

definition resume :: "async \<Rightarrow> async" where
  "resume s =
     (if paused s
      then (let s1 = (emit_event ResumeEvent s)\<lparr>paused := False\<rparr>
            in run_next (map (\<lambda>(index, e). EmitMatch index e) (emitQueue s1) @ [ResumeProcesses])
                 (s1\<lparr>emitQueue := []\<rparr>))
      else s)"

definition resumeProcesses :: "async \<Rightarrow> async" where
  "resumeProcesses s =
     run_next (map (\<lambda>(pattern, index, ig). Reprocess pattern index ig) (processQueue s)) (s\<lparr>processQueue := []\<rparr>)"

section \<open>Requests\<close>

text \<open>\<open>inflight(key, cb)\<close>; the number of the function it returns, when it returns one.\<close>

definition request :: "asked_for \<Rightarrow> glob_callback \<Rightarrow> async \<Rightarrow> nat option \<times> async" where
  "request key cb s =
     ((if reqs (flights s) key = None then Some (length (handles (flights s))) else None),
      s\<lparr>flights := inflight key cb (flights s)\<rparr>)"

definition ask :: "operation \<Rightarrow> async \<Rightarrow> async" where
  "ask op s = s\<lparr>operations := operations s @ [op]\<rparr>"

definition async_readdirInGlobStar :: "async_env \<Rightarrow> ustr \<Rightarrow> nat \<Rightarrow> async \<Rightarrow> async" where
  "async_readdirInGlobStar A dir h s =
     (if aborted s then s
      else if g_follow (env A) then run_next [Readdir dir False (Handle h)] s
      else (case request (LstatKey dir) (OnLstat dir h) s of
              (None, s1) \<Rightarrow> s1
            | (Some l, s1) \<Rightarrow> ask (AskLstat dir l) s1))"

definition async_readdir :: "async_env \<Rightarrow> ustr \<Rightarrow> bool \<Rightarrow> glob_callback \<Rightarrow> async \<Rightarrow> async" where
  "async_readdir A dir ig cb s =
     (if aborted s then s
      else (case request (ReaddirKey dir ig) cb s of
              (None, s1) \<Rightarrow> s1
            | (Some h, s1) \<Rightarrow>
                if ig \<and> symlinks (walk s1) dir = None then async_readdirInGlobStar A dir h s1
                else (case cache (walk s1) dir of
                        Some Absent \<Rightarrow> run_next [Answer h (Names None)] s1
                      | Some File \<Rightarrow> run_next [Answer h (Names None)] s1
                      | Some (Entries es) \<Rightarrow> run_next [Answer h (Names (Some es))] s1
                      | _ \<Rightarrow> ask (AskReaddir dir h) s1)))"

definition lstatAnswer :: "ustr \<Rightarrow> nat \<Rightarrow> stats option \<Rightarrow> async \<Rightarrow> async" where
  "lstatAnswer dir h lstat s =
     (case lstat of
        None \<Rightarrow> run_next [Answer h (Names None)] s
      | Some st \<Rightarrow>
          (let isSym = isSymbolicLink st;
               s1 = in_walk (\<lambda>w. w\<lparr>symlinks := (symlinks w)(dir \<mapsto> isSym)\<rparr>) s
           in if \<not> isSym \<and> \<not> isDirectory st
              then run_next [Answer h (Names None)] (in_walk (\<lambda>w. w\<lparr>cache := (cache w)(dir \<mapsto> File)\<rparr>) s1)
              else run_next [Readdir dir False (Handle h)] s1))"

text \<open>\<open>_readdirEntries\<close> and \<open>_readdirError\<close>, with the callback \<open>h\<close>.\<close>

definition async_readdirEntries :: "async_env \<Rightarrow> ustr \<Rightarrow> ustr list \<Rightarrow> nat \<Rightarrow> async \<Rightarrow> async" where
  "async_readdirEntries A dir es h s =
     (if aborted s then s
      else run_next [Answer h (Names (Some es))] (in_walk (readdirEntries (env A) dir es) s))"

definition async_readdirError :: "async_env \<Rightarrow> ustr \<Rightarrow> errno \<Rightarrow> nat \<Rightarrow> async \<Rightarrow> async" where
  "async_readdirError A f er h s =
     (let note = (\<lambda>c. in_walk (\<lambda>w. w\<lparr>cache := (cache w)(makeAbs (env A) f \<mapsto> c)\<rparr>)) in
      if aborted s then s
      else run_next [Answer h (Names None)]
        (if er = ENOTSUP \<or> er = ENOTDIR then note File s
         else if er = ENOENT \<or> er = ELOOP \<or> er = ENAMETOOLONG \<or> er = UNKNOWN then note Absent s
         else if g_strict (env A) then abort (emit_event (ErrorEvent er) (note Absent s))
         else note Absent s))"

section \<open>Testing a name\<close>

definition ask_stat :: "ustr \<Rightarrow> ustr \<Rightarrow> nat \<Rightarrow> async \<Rightarrow> async" where
  "ask_stat f name index s =
     (if failedStat s name then run_next [Simple2 f index Absent] s
      else (case statCache (walk s) name of
              Some st \<Rightarrow>
                (let c = (if isDirectory st then Dir else File)
                 in run_next [Simple2 f index (if ends_slash f \<and> c = File then Absent else c)] s)
            | None \<Rightarrow>
                (case request (StatKey name) (OnStat f name index) s of
                   (None, s1) \<Rightarrow> s1
                 | (Some h, s1) \<Rightarrow> ask (AskLstat name h) s1)))"

definition async_stat :: "async_env \<Rightarrow> ustr \<Rightarrow> nat \<Rightarrow> async \<Rightarrow> async" where
  "async_stat A f index s =
     (let E = env A; name = makeAbs E f; needDir = ends_slash f in
      if (case g_maxLength E of None \<Rightarrow> False | Some n \<Rightarrow> n < length f) then run_next [Simple2 f index Absent] s
      else (case if g_stat E then None else cache (walk s) name of
              None \<Rightarrow> ask_stat f name index s
            | Some c0 \<Rightarrow>
                (let c = (case c0 of Entries es \<Rightarrow> Dir | _ \<Rightarrow> c0)
                 in if \<not> needDir \<or> c = Dir then run_next [Simple2 f index c] s
                    else if c = File then run_next [Simple2 f index Absent] s
                    else ask_stat f name index s)))"

definition stat2 :: "ustr \<Rightarrow> ustr \<Rightarrow> nat \<Rightarrow> stats option \<Rightarrow> async \<Rightarrow> async" where
  "stat2 f name index res s =
     (case res of
        None \<Rightarrow> run_next [Simple2 f index Absent]
                  (s\<lparr>walk := (walk s)\<lparr>statCache := (statCache (walk s))(name := None)\<rparr>,
                     failedStat := (failedStat s)(name := True)\<rparr>)
      | Some st \<Rightarrow>
          (let w = (walk s)\<lparr>statCache := (statCache (walk s))(name \<mapsto> st)\<rparr>;
               s1 = s\<lparr>walk := w, failedStat := (failedStat s)(name := False)\<rparr>;
               c = (if isDirectory st then Dir else File);
               old = cache w name
           in if ends_slash name \<and> \<not> isDirectory st then run_next [Simple2 f index Absent] s1
              else run_next [Simple2 f index (if ends_slash f \<and> c \<noteq> Dir then Absent else c)]
                     (in_walk (\<lambda>w. w\<lparr>cache := (cache w)(name := (if old = None \<or> old = Some Absent then Some c else old))\<rparr>) s1)))"

definition statAnswer :: "ustr \<Rightarrow> ustr \<Rightarrow> nat \<Rightarrow> stats option \<Rightarrow> async \<Rightarrow> async" where
  "statAnswer f name index lstat s =
     (case lstat of
        Some st \<Rightarrow> if isSymbolicLink st then ask (AskStat f name index st) s else stat2 f name index lstat s
      | None \<Rightarrow> stat2 f name index None s)"

definition init_matches_at :: "nat \<Rightarrow> async \<Rightarrow> async" where
  "init_matches_at index = in_walk (init_matches index)"

definition processSimple2 :: "async_env \<Rightarrow> ustr \<Rightarrow> nat \<Rightarrow> cached \<Rightarrow> async \<Rightarrow> async" where
  "processSimple2 A f index exists s =
     (let s1 = init_matches_at index s
      in if exists = Absent then run_next [Finished] s1
         else run_next [EmitMatch index (if f \<noteq> [] then mount (env A) f else f), Finished] s1)"

section \<open>Patterns\<close>

definition async_in_dir :: "ustr option \<Rightarrow> ustr \<Rightarrow> ustr" where
  "async_in_dir pre e =
     (case pre of
        None \<Rightarrow> e
      | Some p \<Rightarrow> if p = [] then e else if p \<noteq> [SLASH] then p @ [SLASH] @ e else p @ e)"

definition async_prefix_list :: "ustr option \<Rightarrow> parsed list" where
  "async_prefix_list pre = (case pre of None \<Rightarrow> [] | Some p \<Rightarrow> if p = [] then [] else [Str p])"

definition glob_text :: "parsed \<Rightarrow> ustr" where
  "glob_text p = (case p of Re src flag (Some g) \<Rightarrow> g | _ \<Rightarrow> [])"

definition processReaddir2 ::
    "async_env \<Rightarrow> ustr option \<Rightarrow> parsed list \<Rightarrow> nat \<Rightarrow> bool \<Rightarrow> ustr list option \<Rightarrow> async \<Rightarrow> async" where
  "processReaddir2 A pre remain index ig entries s =
     (case entries of
        None \<Rightarrow> run_next [Finished] s
      | Some es \<Rightarrow>
          (let E = env A;
               pn = hd remain;
               dotOk = (g_dot E \<or> take 1 (glob_text pn) = [DOT]);
               flip = (mm_negate (g_minimatch E) \<and> (pre = None \<or> pre = Some []));
               matchedEntries = filter (entry_matches (hostOf A) dotOk flip pn) es
           in if matchedEntries = [] then run_next [Finished] s
              else if length remain = 1 \<and> \<not> g_mark E \<and> \<not> g_stat E
              then run_next (map (\<lambda>e. EmitMatch index (mount E (async_in_dir pre e))) matchedEntries @ [Finished])
                     (init_matches_at index s)
              else run_next (map (\<lambda>e. Process (Str (async_in_dir pre e) # tl remain) index ig) matchedEntries @ [Finished]) s))"

definition processGlobStar2 ::
    "async_env \<Rightarrow> ustr option \<Rightarrow> ustr \<Rightarrow> parsed list \<Rightarrow> nat \<Rightarrow> bool \<Rightarrow> ustr list option \<Rightarrow> async \<Rightarrow> async" where
  "processGlobStar2 A pre dir remain index ig entries s =
     (case entries of
        None \<Rightarrow> run_next [Finished] s
      | Some es \<Rightarrow>
          run_next [Process (async_prefix_list pre @ tl remain) index False, GlobRest pre dir remain index ig es] s)"

definition globRest ::
    "async_env \<Rightarrow> ustr option \<Rightarrow> ustr \<Rightarrow> parsed list \<Rightarrow> nat \<Rightarrow> bool \<Rightarrow> ustr list \<Rightarrow> async \<Rightarrow> async" where
  "globRest A pre dir remain index ig es s =
     (if symlinks (walk s) dir = Some True \<and> ig then run_next [Finished] s
      else run_next (concat (map (\<lambda>e. [Process (async_prefix_list pre @ Str e # tl remain) index True,
                                   Process (async_prefix_list pre @ Str e # remain) index True])
                          (filter (\<lambda>e. take 1 e \<noteq> [DOT] \<or> g_dot (env A)) es)) @ [Finished]) s)"

text \<open>\<open>_process\<close> after the test for a pause.\<close>

definition process_pattern :: "async_env \<Rightarrow> parsed list \<Rightarrow> nat \<Rightarrow> bool \<Rightarrow> async \<Rightarrow> async" where
  "process_pattern A pattern index ig s =
     (let E = env A; n = length (takeWhile is_string pattern) in
      if n = length pattern
      then async_stat A (join_with [SLASH] (map string_of pattern)) index s
      else
        (let pre = prefix_of pattern; remain = drop n pattern; dir = makeAbs E (read_of pre)
         in if childrenIgnored (hostOf A) E (read_of pre) then run_next [Finished] s
            else if hd remain = Globstar
            then run_next [Readdir dir ig (OnGlobStar pre dir remain index ig)] s
            else run_next [Readdir dir ig (OnReaddir pre dir remain index ig)] s))"

definition async_process :: "async_env \<Rightarrow> parsed list \<Rightarrow> nat \<Rightarrow> bool \<Rightarrow> async \<Rightarrow> async" where
  "async_process A pattern index ig s =
     (if aborted s then s
      else
        (let s1 = s\<lparr>processing := processing s + 1\<rparr>
         in if paused s1 then s1\<lparr>processQueue := processQueue s1 @ [(pattern, index, ig)]\<rparr>
            else process_pattern A pattern index ig s1))"

section \<open>Running\<close>

definition names_of :: "answer \<Rightarrow> ustr list option" where
  "names_of ans = (case ans of Names es \<Rightarrow> es | Status st \<Rightarrow> None)"

definition status_of :: "answer \<Rightarrow> stats option" where
  "status_of ans = (case ans of Names es \<Rightarrow> None | Status st \<Rightarrow> st)"

definition invoke :: "async_env \<Rightarrow> glob_callback \<Rightarrow> answer \<Rightarrow> async \<Rightarrow> async" where
  "invoke A cb ans s =
     (case cb of
        OnReaddir pre dir remain index ig \<Rightarrow> processReaddir2 A pre remain index ig (names_of ans) s
      | OnGlobStar pre dir remain index ig \<Rightarrow> processGlobStar2 A pre dir remain index ig (names_of ans) s
      | OnLstat dir h \<Rightarrow> lstatAnswer dir h (status_of ans) s
      | OnStat f name index \<Rightarrow> statAnswer f name index (status_of ans) s
      | Handle h \<Rightarrow> run_next [Answer h ans] s)"

text \<open>A function that \<open>inflight\<close> returned, and the loop of the innermost \<open>RES\<close>.\<close>

definition answer_handle :: "nat \<Rightarrow> answer \<Rightarrow> async \<Rightarrow> async" where
  "answer_handle h ans s =
     (case call_handle h ans (flights s) of
        None \<Rightarrow> s
      | Some fl \<Rightarrow>
          if length (passes fl) = length (passes (flights s)) then s\<lparr>flights := fl\<rparr>
          else run_next [Run] (s\<lparr>flights := fl\<rparr>))"

definition run_RES :: "async \<Rightarrow> async" where
  "run_RES s =
     (case passes (flights s) of
        [] \<Rightarrow> s
      | p # ps \<Rightarrow>
          if p_i p < p_len p
          then run_next [Invoke (arrays (flights s) ! p_cbs p ! p_i p) (p_args p), Run]
                 (s\<lparr>flights := next_callback p (flights s)\<rparr>)
          else s\<lparr>flights := finally_RES p (flights s)\<rparr>)"

definition perform :: "async_env \<Rightarrow> job \<Rightarrow> async \<Rightarrow> async" where
  "perform A j s =
     (case j of
        Process pattern index ig \<Rightarrow> async_process A pattern index ig s
      | Reprocess pattern index ig \<Rightarrow> async_process A pattern index ig (s\<lparr>processing := processing s - 1\<rparr>)
      | Readdir dir ig cb \<Rightarrow> async_readdir A dir ig cb s
      | Answer h ans \<Rightarrow> answer_handle h ans s
      | Run \<Rightarrow> run_RES s
      | Invoke cb ans \<Rightarrow> invoke A cb ans s
      | GlobRest pre dir remain index ig es \<Rightarrow> globRest A pre dir remain index ig es s
      | Simple2 f index c \<Rightarrow> processSimple2 A f index c s
      | EmitMatch index e \<Rightarrow> emitMatch A index e s
      | ResumeProcesses \<Rightarrow> resumeProcesses s
      | Finished \<Rightarrow> finished A s
      | RealpathSet index \<Rightarrow> realpathSet A index s
      | RealpathNext \<Rightarrow> realpathNext A s)"

text \<open>The answer of the file system to an operation.\<close>

definition complete :: "async_env \<Rightarrow> operation \<Rightarrow> async \<Rightarrow> async" where
  "complete A op s =
     (let F = fsOf A in
      case op of
        AskReaddir dir h \<Rightarrow>
          (case readdirSync F dir of
             Inl er \<Rightarrow> async_readdirError A dir er h s
           | Inr es \<Rightarrow> async_readdirEntries A dir es h s)
      | AskLstat dir h \<Rightarrow> run_next [Answer h (Status (lstatSync F dir))] s
      | AskStat f name index lstat \<Rightarrow>
          stat2 f name index (Some (case statSync F name of None \<Rightarrow> lstat | Some st \<Rightarrow> st)) s
      | AskRealpath index p \<Rightarrow> realpathAnswer A index p s)"

definition drop_nth :: "nat \<Rightarrow> 'a list \<Rightarrow> 'a list" where
  "drop_nth i xs = take i xs @ drop (Suc i) xs"

inductive async_step :: "async_env \<Rightarrow> async \<Rightarrow> async \<Rightarrow> bool" for A where
  Perform: "jobs s = j # js \<Longrightarrow> async_step A s (perform A j (s\<lparr>jobs := js\<rparr>))"
| NextTick: "jobs s = [] \<Longrightarrow> ticks (flights s) = (key, ans) # ts \<Longrightarrow>
    enter_RES key ans (flights s\<lparr>ticks := ts\<rparr>) = Some fl \<Longrightarrow>
    async_step A s (run_next [Run] (s\<lparr>flights := fl\<rparr>))"
| Completed: "jobs s = [] \<Longrightarrow> ticks (flights s) = [] \<Longrightarrow> i < length (operations s) \<Longrightarrow>
    async_step A s (complete A (operations s ! i) (s\<lparr>operations := drop_nth i (operations s)\<rparr>))"
| Pause: "async_step A s (pause s)"
| Resume: "async_step A s (resume s)"
| Abort: "async_step A s (abort s)"

inductive_cases async_stepE: "async_step A s s'"

section \<open>Starting\<close>

text \<open>\<open>new Glob\<close>, from the state that \<open>setopts\<close> makes; \<open>noprocess\<close> leaves it at that.\<close>

definition new_glob :: "async_env \<Rightarrow> bool \<Rightarrow> glob_state \<Rightarrow> async" where
  "new_glob A noprocess w =
     (let set = mm_set (g_minimatch (env A)); n = length set in
      \<lparr>walk = w\<lparr>matches := replicate n None\<rparr>, failedStat = (\<lambda>_. False), flights = no_flights, operations = [],
       jobs = (if noprocess then [] else if n = 0 then [Finished]
               else map (\<lambda>i. Process (set ! i) i False) [0..<n]),
       processing = 0, emitQueue = [], processQueue = [], paused = False, aborted = False,
       didRealpath = False, realpathSets = 0, realpathLeft = (\<lambda>_. 0), emitted = []\<rparr>)"

text \<open>\<open>None\<close> is the TypeError on an empty set, which the empty pattern has.\<close>

definition hasMagic :: "parsed list list \<Rightarrow> bool option" where
  "hasMagic pats =
     (if 1 < length pats then Some True
      else if pats = [] then None
      else Some (list_ex (\<lambda>p. \<not> is_string p) (hd pats)))"

section \<open>Accounts\<close>

text \<open>
  What still owes a call of \<open>done\<close>: the job or callback of a pattern that has been started.  The
  callbacks that wait in \<open>inflight\<close> are those asked for and not yet served.
\<close>

fun cost :: "glob_callback \<Rightarrow> int" where
  "cost (OnReaddir pre dir remain index ig) = 1"
| "cost (OnGlobStar pre dir remain index ig) = 1"
| "cost (OnStat f name index) = 1"
| "cost _ = 0"

fun job_cost :: "job \<Rightarrow> int" where
  "job_cost (Reprocess pattern index ig) = 1"
| "job_cost (Readdir dir ig cb) = cost cb"
| "job_cost (Invoke cb ans) = cost cb"
| "job_cost (GlobRest pre dir remain index ig es) = 1"
| "job_cost (Simple2 f index c) = 1"
| "job_cost Finished = 1"
| "job_cost _ = 0"

fun op_cost :: "operation \<Rightarrow> int" where
  "op_cost (AskStat f name index st) = 1"
| "op_cost _ = 0"

fun event_cost :: "(asked_for, glob_callback, answer) happening \<Rightarrow> int" where
  "event_cost (Asked key cb) = cost cb"
| "event_cost (Served key cb ans) = - cost cb"
| "event_cost (Skipped key cb) = - cost cb"

definition jobs_owed :: "job list \<Rightarrow> int" where
  "jobs_owed js = sum_list (map job_cost js)"

definition ops_owed :: "operation list \<Rightarrow> int" where
  "ops_owed ops = sum_list (map op_cost ops)"

definition flights_owed :: "(asked_for, glob_callback, answer) flights \<Rightarrow> int" where
  "flights_owed fl = sum_list (map event_cost (events fl))"

definition owed :: "async \<Rightarrow> int" where
  "owed s = jobs_owed (jobs s) + ops_owed (operations s) + int (length (processQueue s)) + flights_owed (flights s)"

definition balance :: "async \<Rightarrow> int" where
  "balance s = processing s - owed s"

lemma jobs_owed_simps [simp]:
  "jobs_owed [] = 0" "jobs_owed (j # js) = job_cost j + jobs_owed js" "jobs_owed (js @ ks) = jobs_owed js + jobs_owed ks"
  by (simp_all add: jobs_owed_def)

lemma jobs_owed_free: "(\<And>x. x \<in> set xs \<Longrightarrow> job_cost (f x) = 0) \<Longrightarrow> jobs_owed (map f xs) = 0"
  by (induction xs) auto

lemma ops_owed_simps [simp]:
  "ops_owed [] = 0" "ops_owed (x # xs) = op_cost x + ops_owed xs" "ops_owed (xs @ ys) = ops_owed xs + ops_owed ys"
  by (simp_all add: ops_owed_def)

lemma ops_owed_free: "(\<And>x. x \<in> set xs \<Longrightarrow> op_cost (f x) = 0) \<Longrightarrow> ops_owed (map f xs) = 0"
  by (induction xs) auto

lemma flights_owed_inflight [simp]: "flights_owed (inflight key cb fl) = flights_owed fl + cost cb"
  by (simp add: flights_owed_def inflight_def split: option.split)

lemma flights_owed_enter: "enter_RES key ans fl = Some fl' \<Longrightarrow> flights_owed fl' = flights_owed fl"
  by (auto simp: enter_RES_def flights_owed_def)

lemma flights_owed_handle: "call_handle h ans fl = Some fl' \<Longrightarrow> flights_owed fl' = flights_owed fl"
  by (auto simp: call_handle_def Let_def flights_owed_def enter_RES_def split: if_splits)

lemma flights_owed_callback:
  "flights_owed (next_callback p fl) = flights_owed fl - cost (arrays fl ! p_cbs p ! p_i p)"
  by (simp add: next_callback_def flights_owed_def)

lemma flights_owed_finally: "p_len p \<le> p_i p \<Longrightarrow> flights_owed (finally_RES p fl) = flights_owed fl"
  by (simp add: finally_RES_def flights_owed_def Let_def slice_def)

lemma balance_call [simp]: "balance (run_next js s) = balance s - jobs_owed js"
  by (simp add: balance_def owed_def run_next_def)

lemma balance_simps [simp]:
  "balance (emit_event e s) = balance s"
  "balance (in_walk f s) = balance s"
  "balance (s\<lparr>walk := w\<rparr>) = balance s"
  "balance (s\<lparr>failedStat := fs\<rparr>) = balance s"
  "balance (s\<lparr>emitQueue := q\<rparr>) = balance s"
  "balance (s\<lparr>paused := b\<rparr>) = balance s"
  "balance (s\<lparr>aborted := b\<rparr>) = balance s"
  "balance (s\<lparr>didRealpath := b\<rparr>) = balance s"
  "balance (s\<lparr>realpathSets := n\<rparr>) = balance s"
  "balance (s\<lparr>realpathLeft := m\<rparr>) = balance s"
  by (simp_all add: balance_def owed_def emit_event_def in_walk_def)

lemma balance_processing [simp]: "balance (s\<lparr>processing := n\<rparr>) = balance s + (n - processing s)"
  by (simp add: balance_def owed_def)

lemma balance_jobs: "jobs s = j # js \<Longrightarrow> balance (s\<lparr>jobs := js\<rparr>) = balance s + job_cost j"
  by (simp add: balance_def owed_def)

lemma balance_flights [simp]: "balance (s\<lparr>flights := fl\<rparr>) = balance s + flights_owed (flights s) - flights_owed fl"
  by (simp add: balance_def owed_def)

lemma balance_operations [simp]: "balance (s\<lparr>operations := ops\<rparr>) = balance s + ops_owed (operations s) - ops_owed ops"
  by (simp add: balance_def owed_def)

lemma balance_queue [simp]:
  "balance (s\<lparr>processQueue := q\<rparr>) = balance s + int (length (processQueue s)) - int (length q)"
  by (simp add: balance_def owed_def)

lemma state_simps [simp]:
  "processing (run_next js s) = processing s" "processing (emit_event e s) = processing s"
  "processing (in_walk f s) = processing s" "flights (run_next js s) = flights s" "flights (in_walk f s) = flights s"
  "aborted (run_next js s) = aborted s" "aborted (emit_event e s) = aborted s" "aborted (in_walk f s) = aborted s"
  "walk (run_next js s) = walk s" "walk (emit_event e s) = walk s" "walk (in_walk f s) = f (walk s)"
  by (simp_all add: run_next_def emit_event_def in_walk_def)

lemma balance_ask [simp]: "balance (ask op s) = balance s - op_cost op"
  by (simp add: ask_def)

lemma request_balance: "request key cb s = (r, s') \<Longrightarrow> balance s' = balance s - cost cb \<and> aborted s' = aborted s"
  by (auto simp: request_def)

lemma async_mark_balance [simp]: "balance (snd (async_mark E e s)) = balance s"
  by (simp add: async_mark_def split: prod.split)

lemma fold_mark_balance [simp]: "balance (fold (\<lambda>p s. snd (async_mark E p s)) ps s) = balance s"
  by (induction ps arbitrary: s) simp_all

lemma async_end_balance [simp]: "balance (async_end A s) = balance s"
  by (simp add: async_end_def Let_def)

lemma async_finish_balance [simp]: "balance (async_finish A s) = balance s"
  by (simp add: async_finish_def Let_def jobs_owed_free)

lemma emitMatch_balance [simp]: "balance (emitMatch A index e s) = balance s"
proof -
  obtain m s1 where m: "(if g_mark (env A) then async_mark (env A) e s else (e, s)) = (m, s1)" by fastforce
  then have "balance s1 = balance s" by (metis async_mark_balance snd_conv)
  then show ?thesis by (simp add: emitMatch_def m Let_def split: option.split)
qed

lemma finished_balance [simp]: "balance (finished A s) = balance s - 1"
  by (simp add: finished_def Let_def)

lemma init_matches_balance [simp]: "balance (init_matches_at index s) = balance s"
  by (simp add: init_matches_at_def)

lemma processSimple2_balance [simp]: "balance (processSimple2 A f index c s) = balance s - 1"
  by (simp add: processSimple2_def Let_def)

lemma stat2_balance [simp]: "balance (stat2 f name index res s) = balance s - 1"
  by (simp add: stat2_def Let_def split: option.split)

lemma statAnswer_balance [simp]: "balance (statAnswer f name index res s) = balance s - 1"
  by (simp add: statAnswer_def split: option.split)

lemma later_balance:
  "balance (case request key cb s of (None, s1) \<Rightarrow> s1 | (Some h, s1) \<Rightarrow> ask (AskLstat name h) s1) = balance s - cost cb"
  using request_balance [of key cb s] by (auto split: prod.split option.split)

lemma ask_stat_balance [simp]: "balance (ask_stat f name index s) = balance s - 1"
  using later_balance [where key = "StatKey name" and cb = "OnStat f name index" and s = s and name = name]
  by (simp add: ask_stat_def Let_def split: option.split)

lemma async_stat_balance [simp]: "balance (async_stat A f index s) = balance s - 1"
  by (simp add: async_stat_def Let_def split: option.split)

lemma readdirInGlobStar_balance: "\<not> aborted s \<Longrightarrow> balance (async_readdirInGlobStar A dir h s) = balance s"
  by (simp add: async_readdirInGlobStar_def later_balance)

lemma async_readdir_balance: "\<not> aborted s \<Longrightarrow> balance (async_readdir A dir ig cb s) = balance s - cost cb"
  using request_balance [of "ReaddirKey dir ig" cb s]
  by (auto simp: async_readdir_def readdirInGlobStar_balance split: prod.split option.split cached.split)

lemma lstatAnswer_balance [simp]: "balance (lstatAnswer dir h lstat s) = balance s"
  by (simp add: lstatAnswer_def Let_def split: option.split)

lemma processReaddir2_balance [simp]: "balance (processReaddir2 A pre remain index ig es s) = balance s - 1"
  by (simp add: processReaddir2_def Let_def jobs_owed_free split: option.split)

lemma processGlobStar2_balance [simp]: "balance (processGlobStar2 A pre dir remain index ig es s) = balance s - 1"
  by (simp add: processGlobStar2_def split: option.split)

lemma jobs_owed_concat: "(\<And>x. x \<in> set xs \<Longrightarrow> jobs_owed (f x) = 0) \<Longrightarrow> jobs_owed (concat (map f xs)) = 0"
  by (induction xs) auto

lemma globRest_balance [simp]: "balance (globRest A pre dir remain index ig es s) = balance s - 1"
  by (simp add: globRest_def jobs_owed_concat)

lemma process_pattern_balance [simp]: "balance (process_pattern A pattern index ig s) = balance s - 1"
  by (simp add: process_pattern_def Let_def)

lemma async_process_balance: "\<not> aborted s \<Longrightarrow> balance (async_process A pattern index ig s) = balance s"
  by (simp add: async_process_def Let_def)

lemma invoke_balance [simp]: "balance (invoke A cb ans s) = balance s - cost cb"
  by (cases cb) (simp_all add: invoke_def)

lemma answer_handle_balance [simp]: "balance (answer_handle h ans s) = balance s"
  using flights_owed_handle [of h ans "flights s"] by (simp add: answer_handle_def split: option.split)

lemma run_RES_balance [simp]: "balance (run_RES s) = balance s"
  by (simp add: run_RES_def flights_owed_callback flights_owed_finally split: list.split)

lemma resumeProcesses_balance [simp]: "balance (resumeProcesses s) = balance s"
proof -
  have "jobs_owed (map (\<lambda>(pattern, index, ig). Reprocess pattern index ig) q) = int (length q)" for q
    by (induction q) (auto split: prod.split)
  then show ?thesis by (simp add: resumeProcesses_def)
qed

lemma realpathSet_balance [simp]: "balance (realpathSet A index s) = balance s"
  by (simp add: realpathSet_def ops_owed_free balance_def owed_def run_next_def split: option.split)

lemma realpathNext_balance [simp]: "balance (realpathNext A s) = balance s"
  by (simp add: realpathNext_def Let_def)

lemma realpathAnswer_balance [simp]: "balance (realpathAnswer A index p s) = balance s"
  by (simp add: realpathAnswer_def Let_def split: sum.split bool.split)

lemma abort_balance [simp]: "balance (abort s) = balance s"
  by (simp add: abort_def)

lemma pause_balance [simp]: "balance (pause s) = balance s"
  by (simp add: pause_def)

lemma resume_balance [simp]: "balance (resume s) = balance s"
  by (simp add: resume_def Let_def jobs_owed_free split: prod.split)

text \<open>Until the walk is aborted every job leaves the balance where it is.\<close>

lemma perform_balance:
  assumes "jobs s = j # js" and "\<not> aborted s"
  shows "balance (perform A j (s\<lparr>jobs := js\<rparr>)) = balance s"
proof -
  note b = balance_jobs [OF assms(1)]
  show ?thesis
  proof (cases j)
    case (Reprocess pattern index ig)
    with b assms(2) show ?thesis by (simp add: perform_def async_process_balance)
  qed (use b assms(2) in \<open>simp_all add: perform_def async_process_balance async_readdir_balance\<close>)
qed

lemma complete_balance:
  assumes "i < length (operations s)"
  shows "balance (complete A (operations s ! i) (s\<lparr>operations := drop_nth i (operations s)\<rparr>)) = balance s"
proof -
  have "ops_owed (operations s) = ops_owed (take i (operations s)) + ops_owed ((operations s ! i) # drop (Suc i) (operations s))"
    using id_take_nth_drop [OF assms] by (metis ops_owed_simps(3))
  then have "balance (s\<lparr>operations := drop_nth i (operations s)\<rparr>) = balance s + op_cost (operations s ! i)"
    by (simp add: drop_nth_def)
  then show ?thesis
    by (cases "operations s ! i")
      (simp_all add: complete_def async_readdirEntries_def async_readdirError_def Let_def split: sum.split)
qed

text \<open>An abort is for good.\<close>

lemma request_aborted: "request key cb s = (r, s') \<Longrightarrow> aborted s' = aborted s"
  by (auto simp: request_def)

lemma aborted_ask [simp]: "aborted (ask op s) = aborted s"
  by (simp add: ask_def)

lemma aborted_end [simp]: "aborted (async_end A s) = aborted s" "aborted (async_finish A s) = aborted s"
proof -
  have "aborted (snd (async_mark E e s)) = aborted s" for E e s
    by (simp add: async_mark_def split: prod.split)
  then have "aborted (fold (\<lambda>p s. snd (async_mark E p s)) ps s) = aborted s" for E ps s
    by (induction ps arbitrary: s) simp_all
  then show e: "aborted (async_end A s) = aborted s" for s by (simp add: async_end_def Let_def)
  then show "aborted (async_finish A s) = aborted s" by (simp add: async_finish_def Let_def)
qed

lemma aborted_answers [simp]:
  "aborted (init_matches_at index s) = aborted s"
  "aborted (finished A s) = aborted s"
  "aborted (answer_handle h ans s) = aborted s"
  "aborted (run_RES s) = aborted s"
  "aborted (resumeProcesses s) = aborted s"
  "aborted (realpathSet A index s) = aborted s"
  "aborted (realpathNext A s) = aborted s"
  "aborted (realpathAnswer A index p s) = aborted s"
  "aborted (stat2 f name index res s) = aborted s"
  "aborted (lstatAnswer dir h lstat s) = aborted s"
  by (simp_all add: init_matches_at_def finished_def answer_handle_def run_RES_def resumeProcesses_def realpathSet_def
      realpathNext_def realpathAnswer_def stat2_def lstatAnswer_def Let_def
      split: option.split list.split sum.split bool.split)

lemma aborted_patterns [simp]:
  "aborted (statAnswer f name index res s) = aborted s"
  "aborted (processSimple2 A f index c s) = aborted s"
  "aborted (processReaddir2 A pre remain index ig es s) = aborted s"
  "aborted (processGlobStar2 A pre dir remain index ig es s) = aborted s"
  "aborted (globRest A pre dir remain index ig nes s) = aborted s"
  by (simp_all add: statAnswer_def processSimple2_def processReaddir2_def processGlobStar2_def globRest_def Let_def
      split: option.split)

lemma aborted_invoke [simp]: "aborted (invoke A cb ans s) = aborted s"
  by (cases cb) (simp_all add: invoke_def)

lemma perform_aborted: "aborted s \<Longrightarrow> aborted (perform A j (s\<lparr>jobs := js\<rparr>))"
  by (cases j) (simp_all add: perform_def async_process_def async_readdir_def emitMatch_def)

lemma async_step_aborted: "aborted s \<Longrightarrow> async_step A s s' \<Longrightarrow> aborted s'"
proof (erule async_stepE)
  fix i
  assume "aborted s" "s' = complete A (operations s ! i) (s\<lparr>operations := drop_nth i (operations s)\<rparr>)"
  then show "aborted s'"
    by (cases "operations s ! i")
      (simp_all add: complete_def async_readdirEntries_def async_readdirError_def Let_def split: sum.split)
qed (simp_all add: perform_aborted pause_def resume_def abort_def Let_def)

lemma async_step_balance:
  assumes "async_step A s s'" and "\<not> aborted s"
  shows "balance s' = balance s"
  using assms(1)
proof cases
  case (NextTick key ans ts fl)
  then have "flights_owed fl = flights_owed (flights s\<lparr>ticks := ts\<rparr>)" using flights_owed_enter by blast
  with NextTick show ?thesis by (simp add: flights_owed_def)
qed (use assms(2) in \<open>simp_all add: perform_balance complete_balance\<close>)

lemma async_steps_balance: "(async_step A)\<^sup>*\<^sup>* s s' \<Longrightarrow> \<not> aborted s' \<Longrightarrow> balance s' = balance s"
proof (induction rule: rtranclp_induct)
  case (step s1 s2)
  then show ?case using async_step_aborted async_step_balance by metis
qed simp

lemma balance_new_glob: "mm_set (g_minimatch (env A)) \<noteq> [] \<Longrightarrow> balance (new_glob A noprocess w) = 0"
  by (simp add: balance_def owed_def new_glob_def Let_def jobs_owed_free flights_owed_def no_flights_def)

section \<open>The requests of a walk\<close>

text \<open>The walk uses \<open>inflight\<close> as its machine allows.\<close>

lemma flights_simps [simp]:
  "flights (emit_event e s) = flights s" "flights (ask op s) = flights s"
  "flights (init_matches_at index s) = flights s"
  by (simp_all add: emit_event_def ask_def init_matches_at_def)

lemma flights_finish [simp]:
  "flights (async_end A s) = flights s" "flights (async_finish A s) = flights s" "flights (finished A s) = flights s"
  "flights (emitMatch A index e s) = flights s"
proof -
  have m: "flights (snd (async_mark E e s)) = flights s" for E e s
    by (simp add: async_mark_def split: prod.split)
  then have "flights (fold (\<lambda>p s. snd (async_mark E p s)) ps s) = flights s" for E ps s
    by (induction ps arbitrary: s) simp_all
  then show e: "flights (async_end A s) = flights s" for s by (simp add: async_end_def Let_def)
  then show f: "flights (async_finish A s) = flights s" for s by (simp add: async_finish_def Let_def)
  then show "flights (finished A s) = flights s" by (simp add: finished_def Let_def)
  obtain n s1 where n: "(if g_mark (env A) then async_mark (env A) e s else (e, s)) = (n, s1)" by fastforce
  then have "flights s1 = flights s" using m by (metis snd_conv)
  then show "flights (emitMatch A index e s) = flights s"
    by (simp add: emitMatch_def n Let_def split: option.split)
qed

lemma flights_other [simp]:
  "flights (processSimple2 A f index c s) = flights s"
  "flights (stat2 f name index res s) = flights s"
  "flights (statAnswer f name index res s) = flights s"
  "flights (lstatAnswer dir h lstat s) = flights s"
  "flights (processReaddir2 A pre remain index ig es s) = flights s"
  "flights (processGlobStar2 A pre dir remain index ig es s) = flights s"
  "flights (globRest A pre dir remain index ig nes s) = flights s"
  "flights (resumeProcesses s) = flights s"
  "flights (realpathSet A index s) = flights s"
  "flights (realpathNext A s) = flights s"
  "flights (realpathAnswer A index p s) = flights s"
  by (simp_all add: processSimple2_def stat2_def statAnswer_def lstatAnswer_def processReaddir2_def processGlobStar2_def
      globRest_def resumeProcesses_def realpathSet_def realpathNext_def realpathAnswer_def Let_def
      split: option.split sum.split bool.split)

lemma request_flights: "request key cb s = (r, s') \<Longrightarrow> flights s' = inflight key cb (flights s)"
  by (auto simp: request_def)

end
