(* ===== verification/Js_Glob_Walk.thy ===== *)
theory Js_Glob_Walk
  imports Js_Glob
begin

text \<open>
  What the walk of \<open>glob\<close> does to its caches and what it finds.

  The first part shows that the caches tell the truth about directories: a cached list of names is
  the one the file system gives, and a name cached as absent or as a file cannot be read as a
  directory.  The second part describes by \<open>covers\<close> the paths that a pattern stands for in a
  file system and shows that the walk finds no others.  The third shows where a cached answer is
  wrong: a name below a file is taken to exist once it has been read as a directory.
\<close>

section \<open>Absolute names\<close>

definition normal_abs :: "ustr \<Rightarrow> bool" where
  "normal_abs p \<longleftrightarrow> take 1 p = [SLASH] \<and> js_normalize p = p"

lemma js_join_root: "take 1 f = [SLASH] \<Longrightarrow> js_join [[SLASH], f] = js_normalize f"
proof -
  assume f: "take 1 f = [SLASH]"
  then have "path_parts (SLASH # SLASH # f) = path_parts f"
    using path_parts_sep [of "[]" "SLASH # f"] path_parts_sep [of "[]" f] by simp
  moreover have "f \<noteq> []" "isAbsolute (SLASH # SLASH # f) = isAbsolute f"
    using f by (auto simp: isAbsolute_def)
  ultimately have "js_normalize (SLASH # SLASH # f) = js_normalize f"
    by (simp add: js_normalize_def)
  with \<open>f \<noteq> []\<close> show ?thesis by (simp add: js_join_def)
qed

lemma js_normalize_abs: "take 1 f = [SLASH] \<Longrightarrow> take 1 (js_normalize f) = [SLASH]"
  by (simp add: js_normalize_def isAbsolute_def Let_def)

lemma normal_abs_rooted: "good_parts ps \<Longrightarrow> normal_abs (SLASH # join_with [SLASH] (normalizeArray ps False))"
proof -
  assume "good_parts ps"
  let ?P = "normalizeArray ps False"
  have "js_normalize (SLASH # join_with [SLASH] ?P) = SLASH # join_with [SLASH] ?P"
  proof (cases "?P = []")
    case True
    then show ?thesis
      by (simp add: js_normalize_def isAbsolute_def normalizeArray_def path_parts_def)
  next
    case False
    with js_normalize_parts [of ?P True False] \<open>good_parts ps\<close> show ?thesis
      by (simp add: normalizeArray_idem)
  qed
  then show ?thesis by (simp add: normal_abs_def)
qed

lemma normal_abs_resolve:
  "normal_abs (resolve [x])" "\<not> isAbsolute y \<Longrightarrow> normal_abs (resolve [x, y])"
  by (simp_all add: resolve_one resolve_two normal_abs_rooted)

lemma makeAbs_normal:
  assumes "g_root E = [SLASH]" and "f \<noteq> []"
  shows "normal_abs (makeAbs E f)"
proof (cases "take 1 f = [SLASH]")
  case True
  then show ?thesis using assms
    by (simp add: makeAbs_def js_join_root normal_abs_def js_normalize_abs [simplified] normalize_twice)
next
  case False
  then show ?thesis using assms by (simp add: makeAbs_def isAbsolute_def normal_abs_resolve)
qed

lemma makeAbs_id: "g_root E = [SLASH] \<Longrightarrow> normal_abs p \<Longrightarrow> makeAbs E p = p"
  by (simp add: makeAbs_def normal_abs_def js_join_root)

section \<open>Truthful caches\<close>

text \<open>
  What is relied on of a file system: the names in a directory are non-empty and hold no slash,
  and a name that does not lead to a directory cannot be read as one.
\<close>

definition leads_to_dir :: "fs \<Rightarrow> ustr \<Rightarrow> bool" where
  "leads_to_dir F p =
     (case lstatSync F p of
        None \<Rightarrow> False
      | Some l \<Rightarrow>
          if isSymbolicLink l
          then (case statSync F p of Some st \<Rightarrow> isDirectory st | None \<Rightarrow> isDirectory l)
          else isDirectory l)"

definition fs_ok :: "fs \<Rightarrow> bool" where
  "fs_ok F \<longleftrightarrow> (\<forall>p es. readdirSync F p = Inr es \<longrightarrow>
     leads_to_dir F p \<and> (\<forall>e \<in> set es. e \<noteq> [] \<and> SLASH \<notin> set e))"

definition names_in :: "fs \<Rightarrow> ustr \<Rightarrow> ustr list" where
  "names_in F p = (case readdirSync F p of Inr es \<Rightarrow> es | Inl _ \<Rightarrow> [])"

definition truthful_entry :: "fs \<Rightarrow> ustr \<Rightarrow> cached option \<Rightarrow> bool" where
  "truthful_entry F p c \<longleftrightarrow>
     (case c of
        Some (Entries es) \<Rightarrow> readdirSync F p = Inr es
      | Some Absent \<Rightarrow> isl (readdirSync F p)
      | Some File \<Rightarrow> isl (readdirSync F p)
      | _ \<Rightarrow> True)"

definition truthful :: "fs \<Rightarrow> glob_state \<Rightarrow> bool" where
  "truthful F s \<longleftrightarrow> (\<forall>p. truthful_entry F p (cache s p)) \<and>
     (\<forall>p st. statCache s p = Some st \<longrightarrow> \<not> isDirectory st \<longrightarrow> isl (readdirSync F p))"

lemma truthful_entry_simps [simp]:
  "truthful_entry F p None" "truthful_entry F p (Some Present)" "truthful_entry F p (Some Dir)"
  "truthful_entry F p (Some File) \<longleftrightarrow> isl (readdirSync F p)"
  "truthful_entry F p (Some Absent) \<longleftrightarrow> isl (readdirSync F p)"
  "truthful_entry F p (Some (Entries es)) \<longleftrightarrow> readdirSync F p = Inr es"
  by (simp_all add: truthful_entry_def)

lemma not_dir_unreadable: "fs_ok F \<Longrightarrow> \<not> leads_to_dir F p \<Longrightarrow> isl (readdirSync F p)"
  by (cases "readdirSync F p") (auto simp: fs_ok_def)

lemma truthful_cache_upd:
  "truthful F s \<Longrightarrow> truthful_entry F p c \<Longrightarrow> truthful F (s\<lparr>cache := (cache s)(p := c)\<rparr>)"
  by (simp add: truthful_def)

lemma truthful_symlinks [simp]: "truthful F (s\<lparr>symlinks := l\<rparr>) = truthful F s"
  and truthful_matches [simp]: "truthful F (s\<lparr>matches := m\<rparr>) = truthful F s"
  by (simp_all add: truthful_def)

lemma present_entries:
  "\<forall>p. truthful_entry F p (c p) \<Longrightarrow>
   \<forall>p. truthful_entry F p (fold (\<lambda>e c. c(child dir e \<mapsto> Present)) es c p)"
  by (induction es arbitrary: c) simp_all

lemma readdirEntries_truthful:
  "truthful F s \<Longrightarrow> readdirSync F dir = Inr es \<Longrightarrow> truthful F (readdirEntries E dir es s)"
  using present_entries [of F "cache s" dir es]
  by (auto simp: readdirEntries_def truthful_def Let_def)

lemma readdirError_truthful:
  assumes "truthful F s" and "readdirSync F dir = Inl er" and "makeAbs E dir = dir"
    and "readdirError E dir er s = Inr s'"
  shows "truthful F s' \<and> matches s' = matches s"
  using assms truthful_cache_upd [OF assms(1)] by (auto simp: readdirError_def split: if_splits)

lemma readdir_cached_truthful:
  assumes "truthful F s" and "makeAbs E dir = dir" and "readdir_cached E F dir s = Inr (r, s')"
  shows "truthful F s' \<and> matches s' = matches s \<and>
    r = (case readdirSync F dir of Inr es \<Rightarrow> Some es | Inl _ \<Rightarrow> None)"
proof -
  have T: "truthful_entry F dir (cache s dir)" using assms(1) by (simp add: truthful_def)
  have ask: "truthful F s' \<and> matches s' = matches s \<and>
      r = (case readdirSync F dir of Inr es \<Rightarrow> Some es | Inl _ \<Rightarrow> None)"
    if "(case readdirSync F dir of
           Inl er \<Rightarrow> map_sum id (Pair None) (readdirError E dir er s)
         | Inr entries \<Rightarrow> Inr (Some entries, readdirEntries E dir entries s)) = Inr (r, s')"
  proof (cases "readdirSync F dir")
    case (Inl er)
    with that obtain s1 where "readdirError E dir er s = Inr s1" "r = None" "s' = s1"
      by (cases "readdirError E dir er s") auto
    with readdirError_truthful [OF assms(1) Inl assms(2)] Inl show ?thesis by simp
  next
    case (Inr es)
    with that readdirEntries_truthful [OF assms(1) Inr, of E] show ?thesis
      by (auto simp: readdirEntries_def Let_def)
  qed
  consider "cache s dir \<in> {None, Some Present, Some Dir}" | "cache s dir \<in> {Some Absent, Some File}"
    | es where "cache s dir = Some (Entries es)"
    by (cases "cache s dir"; cases "the (cache s dir)") auto
  then show ?thesis
  proof cases
    case 1
    then show ?thesis by (intro ask, use assms(3) in \<open>auto simp: readdir_cached_def\<close>)
  next
    case 2
    then have "r = None" "s' = s" using assms(3) by (auto simp: readdir_cached_def)
    moreover have "isl (readdirSync F dir)" using 2 T by auto
    ultimately show ?thesis using assms(1) by (cases "readdirSync F dir") simp_all
  next
    case 3
    then have "r = Some es" "s' = s" using assms(3) by (auto simp: readdir_cached_def)
    with 3 T assms(1) show ?thesis by simp
  qed
qed

lemma readdir_truthful:
  assumes "fs_ok F" and "truthful F s" and "makeAbs E dir = dir" and "readdir E F dir ig s = Inr (r, s')"
  shows "truthful F s' \<and> matches s' = matches s \<and>
    r = (case readdirSync F dir of Inr es \<Rightarrow> Some es | Inl _ \<Rightarrow> None)"
proof (cases "ig \<and> symlinks s dir = None \<and> \<not> g_follow E")
  case False
  then have "readdir E F dir ig s = readdir_cached E F dir s"
    by (auto simp: readdir_def readdirInGlobStar_def)
  with readdir_cached_truthful [OF assms(2,3)] assms(4) show ?thesis by simp
next
  case True
  then have e: "readdirInGlobStar E F dir s = Inr (r, s')" using assms(4) by (simp add: readdir_def)
  have no: "isl (readdirSync F dir)" if "\<not> leads_to_dir F dir"
    using not_dir_unreadable [OF assms(1) that] .
  show ?thesis
  proof (cases "lstatSync F dir")
    case None
    then have "isl (readdirSync F dir)" using no by (simp add: leads_to_dir_def)
    with None e True assms(2) show ?thesis
      by (auto simp: readdirInGlobStar_def split: sum.splits)
  next
    case (Some l)
    let ?s1 = "s\<lparr>symlinks := (symlinks s)(dir \<mapsto> isSymbolicLink l)\<rparr>"
    show ?thesis
    proof (cases "\<not> isSymbolicLink l \<and> \<not> isDirectory l")
      case True
      then have "isl (readdirSync F dir)" using no Some by (simp add: leads_to_dir_def)
      with True Some e \<open>ig \<and> _\<close> truthful_cache_upd [of F ?s1 dir "Some File"] assms(2) show ?thesis
        by (auto simp: readdirInGlobStar_def Let_def split: sum.splits)
    next
      case False
      with Some e True have "readdir_cached E F dir ?s1 = Inr (r, s')"
        by (auto simp: readdirInGlobStar_def Let_def)
      from readdir_cached_truthful [OF _ assms(3) this] assms(2) show ?thesis by simp
    qed
  qed
qed

lemma lookup_stat_truthful:
  assumes "fs_ok F" and "truthful F s" and "lookup_stat E F p nd s = (c, s')"
  shows "truthful F s' \<and> matches s' = matches s"
proof -
  define found where "found = (case statCache s p of
                     Some stat \<Rightarrow> Some stat
                   | None \<Rightarrow>
                       (case lstatSync F p of
                          None \<Rightarrow> None
                        | Some lstat \<Rightarrow>
                            if isSymbolicLink lstat
                            then Some (case statSync F p of Some stat \<Rightarrow> stat | None \<Rightarrow> lstat)
                            else Some lstat))"
  have f: "isl (readdirSync F p)" if "found = Some st" "\<not> isDirectory st" for st
  proof (cases "statCache s p")
    case None
    have "\<not> leads_to_dir F p"
      using that None by (auto simp: found_def leads_to_dir_def split: option.splits if_splits)
    then show ?thesis by (rule not_dir_unreadable [OF assms(1)])
  next
    case (Some st')
    with that assms(2) show ?thesis by (auto simp: found_def truthful_def)
  qed
  show ?thesis
  proof (cases found)
    case None
    with assms show ?thesis by (simp add: lookup_stat_def flip: found_def)
  next
    case (Some st)
    define c' where "c' = (if isDirectory st then Dir else File)"
    define new where "new = (if cache s p = None \<or> cache s p = Some Absent then Some c' else cache s p)"
    have "truthful_entry F p new"
      using assms(2) f [OF Some] by (auto simp: new_def c'_def truthful_def)
    moreover have "s' = s\<lparr>statCache := (statCache s)(p \<mapsto> st), cache := (cache s)(p := new)\<rparr>"
    proof -
      have "s' = snd (lookup_stat E F p nd s)" using assms(3) by simp
      also have "\<dots> = s\<lparr>statCache := (statCache s)(p \<mapsto> st), cache := (cache s)(p := new)\<rparr>"
        using Some by (simp add: lookup_stat_def Let_def new_def c'_def flip: found_def)
      finally show ?thesis .
    qed
    ultimately show ?thesis using assms(2) f [OF Some] by (simp add: truthful_def)
  qed
qed

lemma stat_name_truthful:
  assumes "fs_ok F" and "truthful F s" and "stat_name E F f s = (c, s')"
  shows "truthful F s' \<and> matches s' = matches s"
proof -
  have "s' = s \<or> (\<exists>c'. lookup_stat E F (makeAbs E f) (ends_slash f) s = (c', s'))"
    using assms(3) by (auto simp: stat_name_def Let_def split: if_splits option.splits)
  with lookup_stat_truthful [OF assms(1,2)] assms(2) show ?thesis by blast
qed

section \<open>What a pattern stands for\<close>

text \<open>
  \<open>covers H E F pre ps segs\<close>: below the directory that the prefix \<open>pre\<close> names, the pattern
  \<open>ps\<close> stands for the path with the segments \<open>segs\<close>.  A string stands for itself, whether
  or not it exists; an expression for a name in the directory that it matches; a globstar for any
  number of visible names, each in the directory reached.
\<close>

inductive covers :: "host \<Rightarrow> glob_env \<Rightarrow> fs \<Rightarrow> ustr option \<Rightarrow> parsed list \<Rightarrow> ustr list \<Rightarrow> bool"
  for H E F
where
  End: "covers H E F pre [] []"
| Literal: "covers H E F (Some (in_dir pre s)) ps segs \<Longrightarrow> covers H E F pre (Str s # ps) (s # segs)"
| Name: "\<lbrakk>e \<in> set (names_in F (makeAbs E (read_of pre))); take 1 e \<noteq> [DOT] \<or> g_dot E \<or> take 1 g = [DOT];
     re_match H src flag e; covers H E F (Some (in_dir pre e)) ps segs\<rbrakk> \<Longrightarrow>
   covers H E F pre (Re src flag (Some g) # ps) (e # segs)"
| Skip: "covers H E F pre ps segs \<Longrightarrow> covers H E F pre (Globstar # ps) segs"
| Down: "\<lbrakk>e \<in> set (names_in F (makeAbs E (read_of pre))); take 1 e \<noteq> [DOT] \<or> g_dot E;
     covers H E F (Some (in_dir pre e)) (Globstar # ps) segs\<rbrakk> \<Longrightarrow>
   covers H E F pre (Globstar # ps) (e # segs)"

inductive_simps covers_Nil [simp]: "covers H E F pre [] segs"
inductive_simps covers_Str [simp]: "covers H E F pre (Str s # ps) segs"

text \<open>
  Relative patterns: no string starts with a slash, and only the last portion may be empty.
\<close>

definition plain_string :: "ustr \<Rightarrow> bool" where
  "plain_string s \<longleftrightarrow> s \<noteq> [] \<and> \<not> ends_slash s"

definition relative_pattern :: "parsed list \<Rightarrow> bool" where
  "relative_pattern ps \<longleftrightarrow> (\<forall>s. Str s \<in> set ps \<longrightarrow> take 1 s \<noteq> [SLASH]) \<and>
     (\<forall>s. Str s \<in> set (butlast ps) \<longrightarrow> plain_string s)"

text \<open>The names the strings at the front add to a prefix.\<close>

definition descend :: "ustr option \<Rightarrow> ustr list \<Rightarrow> ustr option" where
  "descend pre ss = foldl (\<lambda>p s. Some (in_dir p s)) pre ss"

lemma covers_strings:
  "covers H E F pre (map Str ss @ ps) segs \<longleftrightarrow> (\<exists>r. segs = ss @ r \<and> covers H E F (descend pre ss) ps r)"
  by (induction ss arbitrary: pre segs) (auto simp: descend_def)

lemma descend_plain:
  assumes "list_all plain_string ss" and "ss \<noteq> []"
  shows "descend None ss = Some (join_with [SLASH] ss) \<and> plain_string (join_with [SLASH] ss)"
  using assms
proof (induction ss rule: rev_induct)
  case (snoc s ss)
  show ?case
  proof (cases "ss = []")
    case True
    with snoc.prems show ?thesis by (simp add: descend_def in_dir_def)
  next
    case False
    then have ih: "descend None ss = Some (join_with [SLASH] ss)" "plain_string (join_with [SLASH] ss)"
      using snoc by auto
    moreover have "join_with [SLASH] (ss @ [s]) = join_with [SLASH] ss @ [SLASH] @ s"
      using False by (induction ss rule: list_nonempty_induct) (simp_all add: join_with_Cons)
    ultimately show ?thesis using snoc.prems
      by (auto simp: descend_def in_dir_def plain_string_def ends_slash_def)
  qed
qed simp

lemma join_with_nested:
  "ss \<noteq> [] \<Longrightarrow> join_with [SLASH] (join_with [SLASH] ss # r) = join_with [SLASH] (ss @ r)"
proof (induction ss rule: list_nonempty_induct)
  case (cons s ss)
  then show ?case by (cases r) (simp_all add: join_with_Cons)
qed simp

text \<open>A pattern split into the strings at its front and what remains.\<close>

lemma pattern_split:
  obtains ss where "map Str ss = takeWhile is_string pattern" "map string_of (takeWhile is_string pattern) = ss"
    "pattern = map Str ss @ drop (length ss) pattern"
    "drop (length ss) pattern = dropWhile is_string pattern"
proof -
  let ?ss = "map string_of (takeWhile is_string pattern)"
  have "map (\<lambda>p. Str (string_of p)) (takeWhile is_string pattern) = takeWhile is_string pattern"
    by (rule map_idI) (auto dest!: set_takeWhileD elim!: is_string.elims)
  then have m: "map Str ?ss = takeWhile is_string pattern" by (simp only: map_map comp_def)
  show thesis
  proof (rule that [of ?ss])
    show "map Str ?ss = takeWhile is_string pattern" by (rule m)
    show "pattern = map Str ?ss @ drop (length ?ss) pattern"
      by (simp only: m) (simp add: dropWhile_eq_drop [symmetric])
    show "drop (length ?ss) pattern = dropWhile is_string pattern" by (simp add: dropWhile_eq_drop)
  qed (simp_all add: dropWhile_eq_drop)
qed

section \<open>The walk finds nothing else\<close>

text \<open>\<open>grows s s' A\<close>: only names in \<open>A\<close> are added to the matches at \<open>index\<close>, and no others.\<close>

definition found_at :: "glob_state \<Rightarrow> nat \<Rightarrow> ustr set" where
  "found_at s j = (case matches s ! j of None \<Rightarrow> {} | Some es \<Rightarrow> set es)"

definition grows :: "fs \<Rightarrow> nat \<Rightarrow> ustr set \<Rightarrow> glob_state \<Rightarrow> glob_state \<Rightarrow> bool" where
  "grows F index A s s' \<longleftrightarrow> truthful F s' \<and> length (matches s') = length (matches s) \<and>
     (\<forall>j. found_at s' j \<subseteq> found_at s j \<union> (if j = index then A else {}))"

lemma grows_refl: "truthful F s \<Longrightarrow> grows F index A s s"
  by (simp add: grows_def)

lemma grows_trans: "grows F index A s s' \<Longrightarrow> grows F index A s' s'' \<Longrightarrow> grows F index A s s''"
  unfolding grows_def by (auto split: if_splits) blast+

lemma grows_mono: "grows F index A s s' \<Longrightarrow> A \<subseteq> B \<Longrightarrow> grows F index B s s'"
  unfolding grows_def by (auto split: if_splits)

lemma grows_cache: "truthful F s' \<Longrightarrow> matches s' = matches s \<Longrightarrow> grows F index A s s'"
  by (simp add: grows_def found_at_def)

lemma grows_init: "truthful F s \<Longrightarrow> grows F index A s (init_matches index s)"
  by (cases "index < length (matches s)")
    (auto simp: grows_def init_matches_def found_at_def nth_list_update list_update_beyond
      split: option.splits if_splits)

lemma grows_add: "truthful F s \<Longrightarrow> e \<in> A \<Longrightarrow> grows F index A s (add_match index e s)"
  by (cases "index < length (matches s)")
    (auto simp: grows_def add_match_def found_at_def nth_list_update list_update_beyond
      split: option.splits if_splits)

lemma grows_truthful: "grows F index A s s' \<Longrightarrow> truthful F s'"
  by (simp add: grows_def)

lemma each_of_grows:
  assumes "\<And>x s s'. x \<in> set xs \<Longrightarrow> truthful F s \<Longrightarrow> body x s = Inr s' \<Longrightarrow> grows F index A s s'"
    and "truthful F s" and "each_of body xs s = Inr s'"
  shows "grows F index A s s'"
  using assms
proof (induction xs arbitrary: s)
  case (Cons x xs)
  then obtain s1 where s1: "body x s = Inr s1" "each_of body xs s1 = Inr s'"
    by (auto split: sum.splits)
  have g: "grows F index A s s1" by (rule Cons.prems(1) [OF _ Cons.prems(2) s1(1)]) simp
  have "grows F index A s1 s'"
    by (rule Cons.IH [OF Cons.prems(1) grows_truthful [OF g] s1(2)]) simp_all
  with g show ?case by (rule grows_trans)
qed (simp add: grows_refl)

lemma fold_add_grows:
  assumes "truthful F s" and "\<And>e. e \<in> set es \<Longrightarrow> f e \<in> A"
  shows "grows F index A s (fold (\<lambda>e. add_match index (f e)) es s)"
  using assms
proof (induction es arbitrary: s)
  case (Cons e es)
  have g: "grows F index A s (add_match index (f e) s)" using Cons.prems by (simp add: grows_add)
  with Cons.IH [OF grows_truthful [OF g]] Cons.prems(2) show ?case by (auto intro: grows_trans)
qed (simp add: grows_refl)

definition stands_for :: "host \<Rightarrow> glob_env \<Rightarrow> fs \<Rightarrow> parsed list \<Rightarrow> ustr set" where
  "stands_for H E F ps = {join_with [SLASH] segs | segs. covers H E F None ps segs}"

lemma relative_pattern_simps [simp]:
  "relative_pattern []"
  "relative_pattern (p # ps) \<longleftrightarrow>
     (\<forall>s. p = Str s \<longrightarrow> take 1 s \<noteq> [SLASH] \<and> (ps \<noteq> [] \<longrightarrow> plain_string s)) \<and> relative_pattern ps"
  by (auto simp: relative_pattern_def)

lemma relative_pattern_append:
  "relative_pattern (ps @ qs) \<Longrightarrow> relative_pattern qs"
  by (induction ps) auto

lemma relative_strings:
  "relative_pattern (map Str ss @ qs) \<Longrightarrow> qs \<noteq> [] \<Longrightarrow>
     list_all plain_string ss \<and> (\<forall>s \<in> set ss. take 1 s \<noteq> [SLASH])"
  by (induction ss) auto

lemma plain_name: "e \<noteq> [] \<Longrightarrow> SLASH \<notin> set e \<Longrightarrow> plain_string e \<and> take 1 e \<noteq> [SLASH]"
  by (cases e) (auto simp: plain_string_def ends_slash_def dest: last_in_set split: if_splits)

lemma relative_join:
  assumes "relative_pattern (map Str ss)"
  shows "take 1 (join_with [SLASH] ss) \<noteq> [SLASH]"
proof (cases ss)
  case (Cons s ss')
  then show ?thesis using assms
    by (cases s; cases "ss' = []") (auto simp: join_with_Cons plain_string_def)
qed simp

lemma relative_join_plain:
  "list_all plain_string ss \<Longrightarrow> \<forall>s \<in> set ss. take 1 s \<noteq> [SLASH] \<Longrightarrow> take 1 (join_with [SLASH] ss) \<noteq> [SLASH]"
  by (cases ss; cases "hd ss"; cases "tl ss = []") (auto simp: join_with_Cons plain_string_def)

lemma prefix_of_strings:
  assumes "list_all plain_string ss" and "\<forall>s \<in> set ss. take 1 s \<noteq> [SLASH]"
    and "takeWhile is_string pattern = map Str ss" and "pattern = map Str ss @ remain"
  shows "prefix_of pattern = descend None ss"
proof (cases "ss = []")
  case True
  with assms(3) show ?thesis by (simp add: prefix_of_def descend_def)
next
  case False
  then obtain s ss' where ss: "ss = s # ss'" by (cases ss) auto
  have "\<not> isAbsolute (join_with [SLASH] ss)"
    using relative_join_plain [OF assms(1,2)] by (simp add: isAbsolute_def)
  moreover have "\<not> joins_absolute pattern"
    using assms(1,2,4) ss by (auto simp: plain_string_def isAbsolute_def)
  moreover have "map string_of (take (length ss) pattern) = ss"
    using assms(4) by (simp add: comp_def)
  ultimately show ?thesis
    using descend_plain [OF assms(1) False] False assms(3) by (simp add: prefix_of_def Let_def)
qed

text \<open>Patterns that start with the joined prefix.\<close>

lemma covers_prefix_list:
  assumes "list_all plain_string ss" and "covers H E F None (prefix_list (descend None ss) @ qs) segs"
  obtains r where "covers H E F (descend None ss) qs r"
    and "join_with [SLASH] segs = join_with [SLASH] (ss @ r)"
proof (cases "ss = []")
  case True
  with assms(2) that [of segs] show ?thesis by (simp add: prefix_list_def descend_def)
next
  case False
  with descend_plain [OF assms(1)] have e: "descend None ss = Some (join_with [SLASH] ss)" by simp
  with assms(2) obtain r where "segs = join_with [SLASH] ss # r" "covers H E F (descend None ss) qs r"
    by (auto simp: prefix_list_def in_dir_def)
  with that [of r] join_with_nested [OF False] show ?thesis by simp
qed

lemma stands_for_prefix:
  assumes "list_all plain_string ss"
    and "\<And>r. covers H E F (descend None ss) qs r \<Longrightarrow> covers H E F (descend None ss) remain r"
  shows "stands_for H E F (prefix_list (descend None ss) @ qs) \<subseteq> stands_for H E F (map Str ss @ remain)"
proof
  fix m
  assume "m \<in> stands_for H E F (prefix_list (descend None ss) @ qs)"
  then obtain segs where s: "m = join_with [SLASH] segs"
      "covers H E F None (prefix_list (descend None ss) @ qs) segs"
    by (auto simp: stands_for_def)
  from covers_prefix_list [OF assms(1) s(2)] obtain r where
    "covers H E F (descend None ss) qs r" "m = join_with [SLASH] (ss @ r)" using s(1) by metis
  with assms(2) [of r] show "m \<in> stands_for H E F (map Str ss @ remain)"
    by (auto simp: stands_for_def covers_strings)
qed

lemma relative_prefix_list:
  assumes "list_all plain_string ss" and "\<forall>s \<in> set ss. take 1 s \<noteq> [SLASH]" and "relative_pattern qs"
  shows "relative_pattern (prefix_list (descend None ss) @ qs)"
proof (cases "ss = []")
  case True
  with assms(3) show ?thesis by (simp add: prefix_list_def descend_def)
next
  case False
  with descend_plain [OF assms(1) False] relative_join_plain [OF assms(1,2)] assms(3)
  show ?thesis by (simp add: prefix_list_def)
qed

lemma mount_relative [simp]: "take 1 m \<noteq> [SLASH] \<Longrightarrow> mount E m = m"
  by (simp add: mount_def)

lemma processSimple_grows:
  assumes "fs_ok F" and "truthful F s" and "relative_pattern (map Str ss)"
  shows "grows F index (stands_for H E F (map Str ss)) s (processSimple E F (join_with [SLASH] ss) index s)"
proof -
  let ?m = "join_with [SLASH] ss"
  obtain c s1 where st: "stat_name E F ?m s = (c, s1)" by (cases "stat_name E F ?m s")
  have s1: "grows F index (stands_for H E F (map Str ss)) s s1"
    using stat_name_truthful [OF assms(1,2) st] by (simp add: grows_cache)
  have m: "?m \<in> stands_for H E F (map Str ss)"
    using covers_strings [of H E F None ss "[]"] by (auto simp: stands_for_def)
  have s2: "grows F index (stands_for H E F (map Str ss)) s1 (init_matches index s1)"
    by (rule grows_init [OF grows_truthful [OF s1]])
  have "grows F index (stands_for H E F (map Str ss)) (init_matches index s1)
          (add_match index ?m (init_matches index s1))"
    by (rule grows_add [OF grows_truthful [OF s2] m])
  with s1 s2 relative_join [OF assms(3)] show ?thesis
    by (auto simp: processSimple_def st Let_def intro: grows_trans)
qed

text \<open>
  The two ways to go on, for a recursive call that is known to find only what its pattern stands
  for.
\<close>

definition processor_ok :: "host \<Rightarrow> glob_env \<Rightarrow> fs \<Rightarrow> nat \<Rightarrow> processor \<Rightarrow> bool" where
  "processor_ok H E F index proc \<longleftrightarrow> (\<forall>pattern ig s s'. truthful F s \<longrightarrow> relative_pattern pattern \<longrightarrow>
     proc pattern ig s = Inr s' \<longrightarrow> grows F index (stands_for H E F pattern) s s')"

lemma processor_grows:
  assumes "processor_ok H E F index proc" and "truthful F s" and "proc pattern ig s = Inr s'"
    and "relative_pattern pattern" and "stands_for H E F pattern \<subseteq> A"
  shows "grows F index A s s'"
  using assms grows_mono [OF _ assms(5)] by (simp add: processor_ok_def)

lemma fs_names: "fs_ok F \<Longrightarrow> e \<in> set (names_in F p) \<Longrightarrow> e \<noteq> [] \<and> SLASH \<notin> set e"
  by (cases "readdirSync F p") (auto simp: fs_ok_def names_in_def)

lemma processReaddir_grows:
  assumes ok: "fs_ok F" "truthful F s" "\<not> mm_negate (g_minimatch E)" "processor_ok H E F index proc"
    and ss: "list_all plain_string ss" "\<forall>s \<in> set ss. take 1 s \<noteq> [SLASH]" "relative_pattern remain"
    and dir: "dir = makeAbs E (read_of (descend None ss))" "makeAbs E dir = dir" and ne: "remain \<noteq> []"
    and run: "processReaddir H E F proc (descend None ss) dir remain index ig s = Inr s'"
  shows "grows F index (stands_for H E F (map Str ss @ remain)) s s'"
proof -
  let ?A = "stands_for H E F (map Str ss @ remain)" and ?pre = "descend None ss"
  from run obtain r s1 where rd: "readdir E F dir ig s = Inr (r, s1)"
    by (auto simp: processReaddir_def split: sum.splits)
  note t = readdir_truthful [OF ok(1,2) dir(2) rd]
  have s1: "grows F index ?A s s1" using t by (simp add: grows_cache)
  show ?thesis
  proof (cases r)
    case None
    with run rd s1 show ?thesis by (simp add: processReaddir_def)
  next
    case (Some entries)
    with t have names: "names_in F dir = entries" by (auto simp: names_in_def split: sum.splits)
    from run rd Some obtain src flag g where hd: "hd remain = Re src flag (Some g)"
      by (auto simp: processReaddir_def split: parsed.splits option.splits)
    with ne obtain ps where remain: "remain = Re src flag (Some g) # ps" by (cases remain) auto
    define matched where "matched = filter (entry_matches H (g_dot E \<or> take 1 g = [DOT]) False
        (Re src flag (Some g))) entries"
    have name: "covers H E F ?pre remain (e # r)"
      if "e \<in> set matched" "covers H E F (Some (in_dir ?pre e)) ps r" for e r
      unfolding remain using that names dir(1)
      by (intro covers.Name) (auto simp: matched_def entry_matches_def)
    have plain: "plain_string e \<and> take 1 e \<noteq> [SLASH]" if "e \<in> set matched" for e
      using plain_name fs_names [OF ok(1), of e dir] that names by (simp add: matched_def)
    show ?thesis
    proof (cases "ps = [] \<and> \<not> g_mark E \<and> \<not> g_stat E")
      case True
      have found: "in_dir ?pre e \<in> ?A \<and> take 1 (in_dir ?pre e) \<noteq> [SLASH]" if "e \<in> set matched" for e
      proof -
        have "list_all plain_string (ss @ [e])" "\<forall>s \<in> set (ss @ [e]). take 1 s \<noteq> [SLASH]"
          using ss plain [OF that] by auto
        with descend_plain [of "ss @ [e]"] relative_join_plain [of "ss @ [e]"]
        have "in_dir ?pre e = join_with [SLASH] (ss @ [e])" "take 1 (in_dir ?pre e) \<noteq> [SLASH]"
          by (auto simp: descend_def)
        moreover have "covers H E F None (map Str ss @ remain) (ss @ [e])"
          using name [OF that, of "[]"] True by (auto simp: covers_strings)
        ultimately show ?thesis by (auto simp: stands_for_def)
      qed
      then have "grows F index ?A s2 (fold (\<lambda>e. add_match index (mount E (in_dir ?pre e))) matched s2)"
        if "truthful F s2" for s2
        by (intro fold_add_grows [OF that]) simp
      moreover have "s' = s1 \<or>
          s' = fold (\<lambda>e. add_match index (mount E (in_dir ?pre e))) matched (init_matches index s1)"
        using run rd Some remain True ok(3) by (auto simp: processReaddir_def matched_def Let_def split: if_splits)
      moreover have "grows F index ?A s1 (init_matches index s1)" using grows_init grows_truthful [OF s1] .
      ultimately show ?thesis using s1 grows_truthful by (metis grows_trans)
    next
      case False
      have step: "grows F index ?A s2 s3"
        if "e \<in> set matched" "truthful F s2" "proc (prefix_list ?pre @ [Str e] @ ps) ig s2 = Inr s3" for e s2 s3
      proof (rule processor_grows [OF ok(4) that(2,3)])
        show "relative_pattern (prefix_list ?pre @ [Str e] @ ps)"
          by (rule relative_prefix_list [OF ss(1,2)]) (use plain [OF that(1)] ss(3) remain in auto)
        show "stands_for H E F (prefix_list ?pre @ [Str e] @ ps) \<subseteq> ?A"
          by (rule stands_for_prefix [OF ss(1)]) (use name [OF that(1)] in auto)
      qed
      have "s' = s1 \<or> each_of (\<lambda>e. proc (prefix_list ?pre @ [Str e] @ ps) ig) matched s1 = Inr s'"
        using run rd Some remain False ok(3) by (auto simp: processReaddir_def matched_def Let_def split: if_splits)
      then have "grows F index ?A s1 s'"
      proof
        assume all: "each_of (\<lambda>e. proc (prefix_list ?pre @ [Str e] @ ps) ig) matched s1 = Inr s'"
        show ?thesis by (rule each_of_grows [OF _ grows_truthful [OF s1] all]) (rule step)
      qed (simp add: grows_refl [OF grows_truthful [OF s1]])
      with s1 show ?thesis by (rule grows_trans)
    qed
  qed
qed

lemma processGlobStar_grows:
  assumes ok: "fs_ok F" "truthful F s" "processor_ok H E F index proc"
    and ss: "list_all plain_string ss" "\<forall>s \<in> set ss. take 1 s \<noteq> [SLASH]" "relative_pattern ps"
    and dir: "dir = makeAbs E (read_of (descend None ss))" "makeAbs E dir = dir"
    and run: "processGlobStar E F proc (descend None ss) dir (Globstar # ps) ig s = Inr s'"
  shows "grows F index (stands_for H E F (map Str ss @ Globstar # ps)) s s'"
proof -
  let ?A = "stands_for H E F (map Str ss @ Globstar # ps)" and ?pre = "descend None ss"
  from run obtain r s1 where rd: "readdir E F dir ig s = Inr (r, s1)"
    by (auto simp: processGlobStar_def split: sum.splits)
  note t = readdir_truthful [OF ok(1,2) dir(2) rd]
  have s1: "grows F index ?A s s1" using t by (simp add: grows_cache)
  show ?thesis
  proof (cases r)
    case None
    with run rd s1 show ?thesis by (simp add: processGlobStar_def)
  next
    case (Some entries)
    with t have names: "names_in F dir = entries" by (auto simp: names_in_def split: sum.splits)
    from run rd Some obtain s2 where s2: "proc (prefix_list ?pre @ ps) False s1 = Inr s2"
      by (auto simp: processGlobStar_def split: sum.splits)
    have "grows F index ?A s1 s2"
      by (rule processor_grows [OF ok(3) grows_truthful [OF s1] s2])
        (auto intro: relative_prefix_list [OF ss] covers.Skip subsetD [OF stands_for_prefix [OF ss(1)]])
    then have s12: "grows F index ?A s s2" using s1 grows_trans by blast
    define body where "body e s =
        (if take 1 e = [DOT] \<and> \<not> g_dot E then Inr s
         else
           (case proc (prefix_list ?pre @ [Str e] @ tl (Globstar # ps)) True s of
              Inl er \<Rightarrow> Inl er
            | Inr s' \<Rightarrow> proc (prefix_list ?pre @ [Str e] @ Globstar # ps) True s'))" for e s
    have step: "grows F index ?A s2 s3"
      if e: "e \<in> set entries" and s2: "truthful F s2" and b: "body e s2 = Inr s3" for e s2 s3
    proof (cases "take 1 e = [DOT] \<and> \<not> g_dot E")
      case True
      with b s2 show ?thesis by (simp add: body_def grows_refl)
    next
      case False
      with b obtain s' where p: "proc (prefix_list ?pre @ [Str e] @ ps) True s2 = Inr s'"
          "proc (prefix_list ?pre @ [Str e] @ Globstar # ps) True s' = Inr s3"
        by (auto simp: body_def split: sum.splits)
      have plain: "plain_string e \<and> take 1 e \<noteq> [SLASH]"
        using plain_name fs_names [OF ok(1), of e dir] e names by simp
      have down: "covers H E F ?pre (Globstar # ps) (e # r)"
        if "covers H E F (Some (in_dir ?pre e)) (Globstar # ps) r" for r
        using that e names dir(1) False by (intro covers.Down) auto
      have sub: "stands_for H E F (prefix_list ?pre @ [Str e] @ ps) \<subseteq> ?A"
        by (rule stands_for_prefix [OF ss(1)]) (use down covers.Skip in auto)
      have sub': "stands_for H E F (prefix_list ?pre @ [Str e] @ Globstar # ps) \<subseteq> ?A"
        by (rule stands_for_prefix [OF ss(1)]) (use down in auto)
      have rel: "relative_pattern (prefix_list ?pre @ [Str e] @ ps)"
          "relative_pattern (prefix_list ?pre @ [Str e] @ Globstar # ps)"
        by (rule relative_prefix_list [OF ss(1,2)], use plain ss(3) in auto)+
      have g: "grows F index ?A s2 s'" by (rule processor_grows [OF ok(3) s2 p(1) rel(1) sub])
      have "grows F index ?A s' s3"
        by (rule processor_grows [OF ok(3) grows_truthful [OF g] p(2) rel(2) sub'])
      with g show ?thesis by (rule grows_trans)
    qed
    have "s' = s2 \<or> each_of body entries s2 = Inr s'"
      using run rd Some s2 by (auto simp: processGlobStar_def body_def [abs_def] split: if_splits)
    then have "grows F index ?A s2 s'"
    proof
      assume all: "each_of body entries s2 = Inr s'"
      show ?thesis by (rule each_of_grows [OF _ grows_truthful [OF s12] all]) (rule step)
    qed (simp add: grows_refl [OF grows_truthful [OF s12]])
    with s12 show ?thesis by (rule grows_trans)
  qed
qed

lemma process_grows:
  assumes ok: "fs_ok F" "g_root E = [SLASH]" "\<not> mm_negate (g_minimatch E)"
  shows "processor_ok H E F index (glob_process H E F index fuel)"
proof (induction fuel)
  case (Suc fuel)
  show ?case
    unfolding processor_ok_def
  proof (intro allI impI)
    fix pattern ig s s'
    assume t: "truthful F s" and rel: "relative_pattern pattern"
      and run: "glob_process H E F index (Suc fuel) pattern ig s = Inr s'"
    obtain ss where ss: "map Str ss = takeWhile is_string pattern"
        "map string_of (takeWhile is_string pattern) = ss"
        "pattern = map Str ss @ drop (length ss) pattern"
        "drop (length ss) pattern = dropWhile is_string pattern"
      by (rule pattern_split)
    have len: "length (takeWhile is_string pattern) = length ss" using ss(1) by (metis length_map)
    show "grows F index (stands_for H E F pattern) s s'"
    proof (cases "drop (length ss) pattern")
      case Nil
      then have p: "pattern = map Str ss" using ss(3) by simp
      then have "map string_of pattern = ss" "length (takeWhile is_string pattern) = length pattern"
        using ss(1,2) by simp_all
      then have "s' = processSimple E F (join_with [SLASH] ss) index s" using run by simp
      with processSimple_grows [OF ok(1) t, of ss] rel p show ?thesis by simp
    next
      case (Cons q ps)
      have p: "pattern = map Str ss @ q # ps" using ss(3) Cons by simp
      have plain: "list_all plain_string ss" "\<forall>s \<in> set ss. take 1 s \<noteq> [SLASH]"
        using relative_strings [of ss "q # ps"] rel p by simp_all
      have rem: "relative_pattern (q # ps)" using relative_pattern_append rel p by blast
      have pre: "prefix_of pattern = descend None ss"
        using prefix_of_strings [OF plain ss(1) [symmetric] ss(3)] .
      let ?dir = "makeAbs E (read_of (descend None ss))"
      have "read_of (descend None ss) \<noteq> []"
        using descend_plain [OF plain(1)] by (cases "ss = []") (auto simp: read_of_def descend_def plain_string_def)
      then have dir: "makeAbs E ?dir = ?dir" by (rule makeAbs_id [OF ok(2) makeAbs_normal [OF ok(2)]])
      have ne: "length ss \<noteq> length pattern" using p by simp
      show ?thesis
      proof (cases "childrenIgnored H E (read_of (descend None ss))")
        case True
        with run len ne pre have "s' = s" by (simp add: Let_def)
        then show ?thesis by (simp add: grows_refl [OF t])
      next
        case no: False
        show ?thesis
        proof (cases "q = Globstar")
          case True
          with run len ne pre no Cons
          have "processGlobStar E F (glob_process H E F index fuel) (descend None ss) ?dir (Globstar # ps) ig s = Inr s'"
            by (simp add: Let_def)
          from processGlobStar_grows [OF ok(1) t Suc plain _ refl dir this] rem True p show ?thesis by simp
        next
          case False
          with run len ne pre no Cons
          have "processReaddir H E F (glob_process H E F index fuel) (descend None ss) ?dir (q # ps) index ig s = Inr s'"
            by (simp add: Let_def)
          from processReaddir_grows [OF ok(1) t ok(3) Suc plain rem refl dir _ this] p show ?thesis by simp
        qed
      qed
    qed
  qed
qed (simp add: processor_ok_def)

lemma process_set_grows:
  assumes ok: "fs_ok F" "g_root E = [SLASH]" "\<not> mm_negate (g_minimatch E)"
    and rel: "\<forall>ps \<in> set (mm_set (g_minimatch E)). relative_pattern ps"
    and s: "truthful F s" "length (matches s) = length (mm_set (g_minimatch E))"
    and run: "process_set H E F depth s = Inr s'"
  shows "truthful F s' \<and> length (matches s') = length (matches s) \<and>
    (\<forall>j. found_at s' j \<subseteq> found_at s j \<union>
      (if j < length (matches s) then stands_for H E F (mm_set (g_minimatch E) ! j) else {}))"
proof -
  let ?set = "mm_set (g_minimatch E)"
  define ok_from where "ok_from s1 \<longleftrightarrow> truthful F s1 \<and> length (matches s1) = length (matches s) \<and>
    (\<forall>j. found_at s1 j \<subseteq> found_at s j \<union> (if j < length (matches s) then stands_for H E F (?set ! j) else {}))"
    for s1
  have step: "ok_from s2" if i: "i < length ?set" and o: "ok_from s1"
      and p: "glob_process H E F i depth (?set ! i) False s1 = Inr s2" for i s1 s2
  proof -
    have "relative_pattern (?set ! i)" using rel i by simp
    with process_grows [OF ok, of H i depth] o p have "grows F i (stands_for H E F (?set ! i)) s1 s2"
      by (simp add: processor_ok_def ok_from_def)
    with o i s(2) show ?thesis unfolding ok_from_def grows_def by (auto split: if_splits) blast+
  qed
  have "ok_from s2" if "each_of (\<lambda>i. glob_process H E F i depth (?set ! i) False) is s1 = Inr s2"
      "ok_from s1" "\<forall>i \<in> set is. i < length ?set" for "is" s1 s2
    using that
  proof (induction "is" arbitrary: s1)
    case (Cons i "is")
    then show ?case using step [of i s1] by (auto split: sum.splits)
  qed simp
  from this [OF run [unfolded process_set_def]] show ?thesis
    using s by (simp add: ok_from_def)
qed

text \<open>Without marks and without \<open>nonull\<close> the result holds only what was found.\<close>

lemma set_js_keys [simp]: "set (js_keys ks) = set ks"
  by (auto simp: js_keys_def)

lemma set_add_key: "set (add_key ms ks) = set ms \<union> set ks"
  by (induction ms arbitrary: ks) (auto simp: add_key_def)

lemma set_fold_add_key: "set (fold add_key xss ks) = \<Union> (set ` set xss) \<union> set ks"
  by (induction xss arbitrary: ks) (auto simp: set_add_key)

lemma set_sort_by [simp]: "set (sort_by le xs) = set xs"
proof -
  have "set (insert_by le x ys) = insert x (set ys)" for x ys
    by (induction ys) auto
  then show ?thesis by (induction xs) (auto simp: sort_by_def)
qed

lemma finish_found:
  assumes "\<not> g_mark E" and "\<not> g_nonull E" and "m \<in> set (finish H localeCompare E s)"
  shows "\<exists>i < length (matches s). m \<in> found_at s i"
proof -
  have "m \<in> set (gather E (matches s))"
    using assms(1,3) by (auto simp: finish_def sorted_found_def Let_def split: if_splits)
  moreover define L where "L i = (case matches s ! i of Some (m # ms) \<Rightarrow> js_keys (m # ms) | _ \<Rightarrow> [])" for i
  have "gather E (matches s) =
      (let names = map L [0..<length (matches s)]
       in if g_nounique E then concat names else js_keys (fold add_key names []))"
    using assms(2) by (simp only: gather_def L_def [abs_def] not_False_eq_True if_False simp_thms)
  ultimately have "\<exists>i < length (matches s). m \<in> set (L i)"
    by (auto simp: set_fold_add_key Let_def split: if_splits)
  then obtain i where "i < length (matches s)" "m \<in> set (L i)" by blast
  moreover have "set (L i) \<subseteq> found_at s i"
    by (cases "matches s ! i"; cases "the (matches s ! i)") (simp_all add: L_def found_at_def)
  ultimately show ?thesis by blast
qed

section \<open>Properties\<close>


text \<open>A root directory with a directory \<open>a\<close> that holds a file and a hidden file.\<close>

definition small_fs :: fs where
  "small_fs =
     \<lparr>readdirSync = (\<lambda>p. if p = u ''/'' then Inr [u ''a''] else if p = u ''/a'' then Inr [u ''x'', u ''.y'']
        else if p = u ''/a/x'' \<or> p = u ''/a/.y'' then Inl ENOTDIR else Inl ENOENT),
      lstatSync = (\<lambda>p. if p = u ''/'' \<or> p = u ''/a'' then Some \<lparr>isDirectory = True, isSymbolicLink = False\<rparr>
        else if p = u ''/a/x'' \<or> p = u ''/a/.y'' then Some \<lparr>isDirectory = False, isSymbolicLink = False\<rparr>
        else None),
      statSync = (\<lambda>_. None)\<rparr>"

definition default_glob :: glob_options where
  "default_glob =
     options.extend (default_options\<lparr>nonegate := True, nocomment := True\<rparr>)
       \<lparr>o_strict = True, o_follow = False, o_mark = False, o_nodir = False, o_nounique = False,
        o_nosort = False, o_stat = False, o_nomount = False, o_maxLength = 0, o_cwd = None, o_root = [],
        o_ignore = [], o_cache = Map.empty, o_statCache = Map.empty, o_symlinks = Map.empty\<rparr>"

definition globstar_env :: glob_env where
  "globstar_env =
     \<lparr>g_strict = True, g_follow = False, g_dot = False, g_mark = False, g_nodir = False,
      g_nounique = False, g_nonull = False, g_nosort = False, g_nocase = False, g_stat = False,
      g_nomount = False, g_maxLength = None, g_cwd = [SLASH], g_changedCwd = False, g_root = [SLASH],
      g_ignore = [],
      g_minimatch = \<lparr>mm_options = default_options, mm_pattern = u ''**/x'', mm_globSet = [u ''**/x''],
        mm_set = [[Globstar, Str (u ''x'')]], mm_negate = False, mm_comment = False, mm_empty = False\<rparr>\<rparr>"

definition fresh_state :: glob_state where
  "fresh_state = \<lparr>matches = [None], cache = Map.empty, statCache = Map.empty, symlinks = Map.empty\<rparr>"

lemma small_fs_ok: "fs_ok small_fs"
  by (auto simp: fs_ok_def small_fs_def leads_to_dir_def u_def split: if_splits)

lemma fresh_truthful: "truthful F fresh_state"
  by (simp add: truthful_def fresh_state_def)

lemma globstar_env_facts:
  "g_root globstar_env = [SLASH]" "\<not> mm_negate (g_minimatch globstar_env)"
  "list_all relative_pattern (mm_set (g_minimatch globstar_env))"
  "length (matches fresh_state) = length (mm_set (g_minimatch globstar_env))"
  "\<not> g_mark globstar_env" "\<not> g_nonull globstar_env"
  by (simp_all add: globstar_env_def fresh_state_def u_def plain_string_def)

definition walked :: glob_state where
  "walked = (case process_set literal_host globstar_env small_fs 9 fresh_state of Inr s \<Rightarrow> s)"

lemma walked: "process_set literal_host globstar_env small_fs 9 fresh_state = Inr walked"
proof -
  have "isl (process_set literal_host globstar_env small_fs 9 fresh_state) = False" by code_simp
  then show ?thesis unfolding walked_def by (auto simp: isl_def split: sum.splits)
qed




text \<open>
  A name that was read as a directory below a plain file is taken to exist: the
  error \<open>ENOTDIR\<close> puts \<open>'FILE'\<close> into the cache, and a later test of the name, here by the second
  half of a brace pattern, believes it.  Alone that half finds nothing.
\<close>
theorem phantom_below_file:
  "globSync literal_host no_randoms (\<lambda>_ _. 0)
     (small_fs\<lparr>readdirSync := \<lambda>p. if take 5 p = u ''/a/x/'' then Inl ENOTDIR else readdirSync small_fs p\<rparr>)
     5 9 (u ''{a/x/n/*,a/x/n}'') default_glob = Ret (Inr [u ''a/x/n'']) \<and>
   globSync literal_host no_randoms (\<lambda>_ _. 0)
     (small_fs\<lparr>readdirSync := \<lambda>p. if take 5 p = u ''/a/x/'' then Inl ENOTDIR else readdirSync small_fs p\<rparr>)
     5 9 (u ''a/x/n'') default_glob = Ret (Inr []) \<and>
   lstatSync small_fs (u ''/a/x/n'') = None"
  by code_simp

end
