(* ===== verification/Js_Glob_Concurrent.thy ===== *)
theory Js_Glob_Concurrent
  imports Js_Glob_Async Js_Glob_Walk
begin

text \<open>
  What the asynchronous walk of \<open>glob\<close> finds, in whatever order the file system answers and
  wherever the program pauses, resumes or aborts it.

  An invariant of the machine says of each job, callback, operation and queue what it stands for:
  a pattern in it stands only for paths of the pattern it comes from, a callback waits under the
  key of the directory it asked about, and an answer is the one the file system gives.
\<close>

section \<open>What jobs stand for\<close>

abbreviation pattern_set :: "async_env \<Rightarrow> parsed list list" where
  "pattern_set A \<equiv> mm_set (g_minimatch (env A))"

definition target :: "async_env \<Rightarrow> nat \<Rightarrow> ustr set" where
  "target A index =
     (if index < length (pattern_set A) then stands_for (hostOf A) (env A) (fsOf A) (pattern_set A ! index) else {})"

text \<open>Expressions hold the text they were made of.\<close>

definition known :: "parsed list \<Rightarrow> bool" where
  "known ps \<longleftrightarrow> list_all (\<lambda>p. case p of Re src flag None \<Rightarrow> False | _ \<Rightarrow> True) ps"

lemma known_simps [simp]:
  "known []" "known (Str s # ps) = known ps" "known (Globstar # ps) = known ps" "known (ps @ qs) \<longleftrightarrow> known ps \<and> known qs"
  "known (Re src flag (Some g) # ps) = known ps" "\<not> known (Re src flag None # ps)"
  by (simp_all add: known_def)

lemma known_tl: "known (p # ps) \<Longrightarrow> known ps"
  by (simp add: known_def)

definition pattern_ok :: "async_env \<Rightarrow> parsed list \<Rightarrow> nat \<Rightarrow> bool" where
  "pattern_ok A pattern index \<longleftrightarrow>
     relative_pattern pattern \<and> known pattern \<and> stands_for (hostOf A) (env A) (fsOf A) pattern \<subseteq> target A index"

definition name_ok :: "async_env \<Rightarrow> ustr \<Rightarrow> nat \<Rightarrow> bool" where
  "name_ok A e index \<longleftrightarrow> e \<in> target A index \<and> take 1 e \<noteq> [SLASH]"

definition dir_ok :: "async_env \<Rightarrow> ustr \<Rightarrow> bool" where
  "dir_ok A dir \<longleftrightarrow> makeAbs (env A) dir = dir"

definition task_ok :: "async_env \<Rightarrow> ustr option \<Rightarrow> ustr \<Rightarrow> parsed list \<Rightarrow> nat \<Rightarrow> bool" where
  "task_ok A pre dir remain index \<longleftrightarrow>
     (\<exists>ss. pre = descend None ss \<and> list_all plain_string ss \<and> (\<forall>s \<in> set ss. take 1 s \<noteq> [SLASH]) \<and>
        relative_pattern remain \<and> known remain \<and> remain \<noteq> [] \<and> dir = makeAbs (env A) (read_of pre) \<and> dir_ok A dir \<and>
        stands_for (hostOf A) (env A) (fsOf A) (map Str ss @ remain) \<subseteq> target A index)"

text \<open>\<open>ks\<close> are the keys of the functions that \<open>inflight\<close> has returned.\<close>

definition reads :: "asked_for list \<Rightarrow> nat \<Rightarrow> ustr \<Rightarrow> bool" where
  "reads ks h dir \<longleftrightarrow> h < length ks \<and> (\<exists>ig. ks ! h = ReaddirKey dir ig)"

definition asks_link :: "asked_for list \<Rightarrow> nat \<Rightarrow> ustr \<Rightarrow> bool" where
  "asks_link ks h dir \<longleftrightarrow> h < length ks \<and> ks ! h = ReaddirKey dir True"

lemma asks_link_reads: "asks_link ks h dir \<Longrightarrow> reads ks h dir"
  by (auto simp: asks_link_def reads_def)

fun suits :: "async_env \<Rightarrow> asked_for list \<Rightarrow> asked_for \<Rightarrow> glob_callback \<Rightarrow> bool" where
  "suits A ks (ReaddirKey dir ig) (OnReaddir pre d remain index ig') = (d = dir \<and> task_ok A pre dir remain index)"
| "suits A ks (ReaddirKey dir ig) (OnGlobStar pre d remain index ig') =
     (d = dir \<and> task_ok A pre dir remain index \<and> hd remain = Globstar)"
| "suits A ks (ReaddirKey dir ig) (Handle h) = (\<not> ig \<and> asks_link ks h dir)"
| "suits A ks (LstatKey dir) (OnLstat d h) = (d = dir \<and> asks_link ks h dir \<and> dir_ok A dir)"
| "suits A ks (StatKey name) (OnStat f n index) = (n = name \<and> name_ok A f index)"
| "suits A ks _ _ = False"

fun truly :: "async_env \<Rightarrow> asked_for \<Rightarrow> answer \<Rightarrow> bool" where
  "truly A (ReaddirKey dir ig) ans = (case names_of ans of None \<Rightarrow> True | Some es \<Rightarrow> readdirSync (fsOf A) dir = Inr es)"
| "truly A (LstatKey name) ans = (case status_of ans of None \<Rightarrow> True | Some st \<Rightarrow> lstatSync (fsOf A) name = Some st)"
| "truly A (StatKey name) ans = (case status_of ans of None \<Rightarrow> True | Some st \<Rightarrow> lstatSync (fsOf A) name = Some st)"

fun job_ok :: "async_env \<Rightarrow> asked_for list \<Rightarrow> job \<Rightarrow> bool" where
  "job_ok A ks (Process pattern index ig) = pattern_ok A pattern index"
| "job_ok A ks (Reprocess pattern index ig) = pattern_ok A pattern index"
| "job_ok A ks (Readdir dir ig cb) = (suits A ks (ReaddirKey dir ig) cb \<and> dir_ok A dir)"
| "job_ok A ks (Answer h ans) = (h < length ks \<and> truly A (ks ! h) ans)"
| "job_ok A ks (Invoke cb ans) = (\<exists>key. suits A ks key cb \<and> truly A key ans)"
| "job_ok A ks (GlobRest pre dir remain index ig es) =
     (task_ok A pre dir remain index \<and> hd remain = Globstar \<and> readdirSync (fsOf A) dir = Inr es)"
| "job_ok A ks (Simple2 f index c) = name_ok A f index"
| "job_ok A ks (EmitMatch index e) = (e \<in> target A index)"
| "job_ok A ks (RealpathSet index) = False"
| "job_ok A ks RealpathNext = False"
| "job_ok A ks _ = True"

fun op_ok :: "async_env \<Rightarrow> asked_for list \<Rightarrow> operation \<Rightarrow> bool" where
  "op_ok A ks (AskReaddir dir h) = (reads ks h dir \<and> dir_ok A dir)"
| "op_ok A ks (AskLstat name h) = (h < length ks \<and> (ks ! h = LstatKey name \<or> ks ! h = StatKey name))"
| "op_ok A ks (AskStat f name index st) =
     (name_ok A f index \<and> lstatSync (fsOf A) name = Some st \<and> isSymbolicLink st)"
| "op_ok A ks (AskRealpath index p) = False"

abbreviation keys_of :: "(asked_for, glob_callback, answer) flights \<Rightarrow> asked_for list" where
  "keys_of fl \<equiv> map fst (handles fl)"

definition flights_fit :: "async_env \<Rightarrow> (asked_for, glob_callback, answer) flights \<Rightarrow> bool" where
  "flights_fit A fl \<longleftrightarrow> flights_ok fl \<and>
     (\<forall>key a. reqs fl key = Some a \<longrightarrow> list_all (suits A (keys_of fl) key) (arrays fl ! a)) \<and>
     (\<forall>p \<in> set (passes fl). truly A (p_key p) (p_args p)) \<and>
     (\<forall>(key, ans) \<in> set (ticks fl). truly A key ans)"

definition found_ok :: "async_env \<Rightarrow> glob_state \<Rightarrow> bool" where
  "found_ok A w \<longleftrightarrow> truthful (fsOf A) w \<and> length (matches w) = length (pattern_set A) \<and>
     (\<forall>j. found_at w j \<subseteq> target A j \<or> length (matches w) \<le> j)"

definition told_ok :: "async_env \<Rightarrow> glob_event \<Rightarrow> bool" where
  "told_ok A e \<longleftrightarrow>
     (case e of
        MatchEvent m \<Rightarrow> \<exists>i. m \<in> target A i
      | EndEvent ms \<Rightarrow> \<forall>m \<in> set ms. \<exists>i. m \<in> target A i
      | _ \<Rightarrow> True)"

definition async_ok :: "async_env \<Rightarrow> async \<Rightarrow> bool" where
  "async_ok A s \<longleftrightarrow>
     flights_fit A (flights s) \<and> list_all (job_ok A (keys_of (flights s))) (jobs s) \<and>
     list_all (op_ok A (keys_of (flights s))) (operations s) \<and>
     list_all (\<lambda>(pattern, index, ig). pattern_ok A pattern index) (processQueue s) \<and>
     list_all (\<lambda>(index, e). e \<in> target A index) (emitQueue s) \<and>
     found_ok A (walk s) \<and> list_all (told_ok A) (emitted s)"

text \<open>What is relied on of the options and the file system.\<close>

definition plain_walk :: "async_env \<Rightarrow> bool" where
  "plain_walk A \<longleftrightarrow>
     fs_ok (fsOf A) \<and> g_root (env A) = [SLASH] \<and> \<not> mm_negate (g_minimatch (env A)) \<and>
     list_all relative_pattern (pattern_set A) \<and> list_all known (pattern_set A) \<and> \<not> g_mark (env A) \<and> \<not> g_nonull (env A) \<and> \<not> realpathOption A"

section \<open>More requests\<close>

text \<open>Later there are more keys, the earlier ones first.\<close>

lemma reads_prefix: "reads ks h dir \<Longrightarrow> reads (ks @ ks') h dir"
  by (auto simp: reads_def nth_append)

lemma asks_link_prefix: "asks_link ks h dir \<Longrightarrow> asks_link (ks @ ks') h dir"
  by (auto simp: asks_link_def nth_append)

lemma suits_prefix: "suits A ks key cb \<Longrightarrow> suits A (ks @ ks') key cb"
  by (induction A ks key cb rule: suits.induct) (auto intro: asks_link_prefix)

lemma job_ok_prefix: "job_ok A ks j \<Longrightarrow> job_ok A (ks @ ks') j"
  by (cases j) (auto simp: nth_append intro: suits_prefix)

lemma op_ok_prefix: "op_ok A ks x \<Longrightarrow> op_ok A (ks @ ks') x"
  by (cases x) (auto simp: nth_append intro: reads_prefix)

lemma flights_fit_inflight:
  assumes fit: "flights_fit A fl" and cb: "suits A (keys_of fl) key cb"
  shows "flights_fit A (inflight key cb fl)"
    and "keys_of (inflight key cb fl) = keys_of fl @ (if reqs fl key = None then [key] else [])"
proof -
  show k: "keys_of (inflight key cb fl) = keys_of fl @ (if reqs fl key = None then [key] else [])"
    by (simp add: inflight_def split: option.split)
  have ok: "flights_ok fl" using fit by (simp add: flights_fit_def)
  have "list_all (suits A (keys_of (inflight key cb fl)) k) (arrays (inflight key cb fl) ! a)"
    if r: "reqs (inflight key cb fl) k = Some a" for k a
  proof (cases "reqs fl key")
    case None
    have old: "list_all (suits A (keys_of fl @ [key]) k) (arrays fl ! a)" if "reqs fl k = Some a"
      using fit that by (auto simp: flights_fit_def list_all_iff intro: suits_prefix)
    show ?thesis
    proof (cases "k = key")
      case True
      with r None cb show ?thesis by (auto simp: inflight_def intro: suits_prefix)
    next
      case False
      with r None have "reqs fl k = Some a" by (simp add: inflight_def)
      with old flights_okD(2) [OF ok this] None show ?thesis
        by (simp add: inflight_def nth_append)
    qed
  next
    case (Some b)
    with r have ra: "reqs fl k = Some a" by (simp add: inflight_def)
    then have old: "list_all (suits A (keys_of fl) k) (arrays fl ! a)" using fit by (simp add: flights_fit_def)
    show ?thesis
    proof (cases "a = b")
      case True
      with ra Some flights_okD(3) [OF ok] have "k = key" by blast
      with True Some old cb flights_okD(2) [OF ok Some] show ?thesis by (simp add: inflight_def)
    next
      case False
      with Some old show ?thesis by (simp add: inflight_def)
    qed
  qed
  moreover have "passes (inflight key cb fl) = passes fl" "ticks (inflight key cb fl) = ticks fl"
    by (simp_all add: inflight_def split: option.split)
  ultimately show "flights_fit A (inflight key cb fl)"
    using fit inflight_ok [OF ok, of key cb] by (simp add: flights_fit_def)
qed

lemma flights_fit_enter:
  assumes "flights_fit A fl" and "truly A key ans" and "enter_RES key ans (fl\<lparr>handles := hs, ticks := ts\<rparr>) = Some fl'"
    and "map fst hs = keys_of fl" and "set ts \<subseteq> set (ticks fl)" and "flights_ok fl'"
  shows "flights_fit A fl' \<and> keys_of fl' = keys_of fl"
  using assms by (auto simp: flights_fit_def enter_RES_def)

lemma flights_fit_handle:
  assumes fit: "flights_fit A fl" and h: "h < length (handles fl)" and t: "truly A (keys_of fl ! h) ans"
    and c: "call_handle h ans fl = Some fl'"
  shows "flights_fit A fl' \<and> keys_of fl' = keys_of fl"
proof (cases "handles fl ! h")
  case (Pair key used)
  have ok: "flights_ok fl'" using call_handle_ok [OF _ h, of ans] fit c by (auto simp: flights_fit_def)
  show ?thesis
  proof (cases used)
    case True
    with c Pair fit show ?thesis by (simp add: call_handle_def)
  next
    case False
    have "map fst ((handles fl)[h := (key, True)]) = keys_of fl"
      using Pair h by (simp add: map_update) (metis fst_conv list_update_id nth_map)
    with flights_fit_enter [OF fit, of key ans "ticks fl" "(handles fl)[h := (key, True)]" fl'] c Pair False ok t h
    show ?thesis by (simp add: call_handle_def)
  qed
qed

lemma flights_fit_callback:
  assumes fit: "flights_fit A fl" and p: "passes fl = p # ps" "p_i p < p_len p"
  shows "flights_fit A (next_callback p fl)" and "keys_of (next_callback p fl) = keys_of fl"
    and "suits A (keys_of fl) (p_key p) (arrays fl ! p_cbs p ! p_i p)" and "truly A (p_key p) (p_args p)"
proof -
  have ok: "flights_ok fl" using fit by (simp add: flights_fit_def)
  note P = flights_okD(4,5) [OF ok, of p]
  show t: "truly A (p_key p) (p_args p)" using fit p by (simp add: flights_fit_def)
  have "list_all (suits A (keys_of fl) (p_key p)) (arrays fl ! p_cbs p)" using fit P(1) p by (simp add: flights_fit_def)
  moreover have "p_i p < length (arrays fl ! p_cbs p)" using P(2) p by simp
  ultimately show "suits A (keys_of fl) (p_key p) (arrays fl ! p_cbs p ! p_i p)" by (simp add: list_all_length)
  show "keys_of (next_callback p fl) = keys_of fl" by (simp add: next_callback_def)
  show "flights_fit A (next_callback p fl)"
    using fit next_callback_ok [OF ok p] p t by (auto simp: flights_fit_def next_callback_def)
qed

lemma flights_fit_finally:
  assumes fit: "flights_fit A fl" and p: "passes fl = p # ps"
  shows "flights_fit A (finally_RES p fl)" and "keys_of (finally_RES p fl) = keys_of fl"
proof -
  have ok: "flights_ok fl" using fit by (simp add: flights_fit_def)
  have t: "truly A (p_key p) (p_args p)" using fit p by (simp add: flights_fit_def)
  show k: "keys_of (finally_RES p fl) = keys_of fl" by (simp add: finally_RES_def Let_def)
  have drop: "list_all P (drop n xs)" if "list_all P xs" for P :: "glob_callback \<Rightarrow> bool" and n xs
    using that by (auto simp: list_all_iff dest: in_set_dropD)
  have "list_all (suits A (keys_of fl) k) (arrays (finally_RES p fl) ! a)"
    if "reqs (finally_RES p fl) k = Some a" for k a
  proof -
    from that have "reqs fl k = Some a" by (auto simp: finally_RES_def Let_def split: if_splits)
    with fit flights_okD(2) [OF ok this] show ?thesis
      by (cases "a = p_cbs p") (auto simp: flights_fit_def finally_RES_def Let_def intro: drop)
  qed
  moreover have "\<forall>q \<in> set (passes (finally_RES p fl)). truly A (p_key q) (p_args q)"
    using fit p by (auto simp: flights_fit_def finally_RES_def Let_def)
  moreover have "\<forall>(key, ans) \<in> set (ticks (finally_RES p fl)). truly A key ans"
    using fit t by (auto simp: flights_fit_def finally_RES_def Let_def)
  ultimately show "flights_fit A (finally_RES p fl)"
    using finally_RES_ok [OF ok p] unfolding flights_fit_def k by blast
qed

section \<open>Keeping the invariant\<close>

lemma async_okD:
  assumes "async_ok A s"
  shows "flights_fit A (flights s)" "list_all (job_ok A (keys_of (flights s))) (jobs s)"
    "list_all (op_ok A (keys_of (flights s))) (operations s)"
    "list_all (\<lambda>(pattern, index, ig). pattern_ok A pattern index) (processQueue s)"
    "list_all (\<lambda>(index, e). e \<in> target A index) (emitQueue s)"
    "found_ok A (walk s)" "list_all (told_ok A) (emitted s)"
  using assms by (auto simp: async_ok_def)

lemma async_ok_call:
  "async_ok A s \<Longrightarrow> list_all (job_ok A (keys_of (flights s))) js \<Longrightarrow> async_ok A (run_next js s)"
  by (simp add: async_ok_def run_next_def)

lemma async_ok_ask:
  "async_ok A s \<Longrightarrow> op_ok A (keys_of (flights s)) x \<Longrightarrow> async_ok A (ask x s)"
  by (simp add: async_ok_def ask_def)

lemma async_ok_emit: "async_ok A s \<Longrightarrow> told_ok A e \<Longrightarrow> async_ok A (emit_event e s)"
  by (simp add: async_ok_def emit_event_def)

lemma async_ok_walk: "async_ok A s \<Longrightarrow> found_ok A (f (walk s)) \<Longrightarrow> async_ok A (in_walk f s)"
  by (simp add: async_ok_def in_walk_def)

lemma async_ok_fields [simp]:
  "async_ok A (s\<lparr>processing := n\<rparr>) = async_ok A s"
  "async_ok A (s\<lparr>failedStat := ff\<rparr>) = async_ok A s"
  "async_ok A (s\<lparr>paused := b\<rparr>) = async_ok A s"
  "async_ok A (s\<lparr>aborted := b\<rparr>) = async_ok A s"
  by (simp_all add: async_ok_def)

text \<open>New requests.\<close>

lemma async_ok_request:
  assumes s: "async_ok A s" and cb: "suits A (keys_of (flights s)) key cb" and r: "request key cb s = (r, s')"
  shows "async_ok A s'" and "walk s' = walk s" and "jobs s' = jobs s" and "aborted s' = aborted s"
    and "\<exists>ks. keys_of (flights s') = keys_of (flights s) @ ks"
    and "r = Some h \<Longrightarrow> h < length (keys_of (flights s')) \<and> keys_of (flights s') ! h = key"
proof -
  note fit = flights_fit_inflight [OF async_okD(1) [OF s] cb]
  from r have s': "s' = s\<lparr>flights := inflight key cb (flights s)\<rparr>"
    and rr: "r = (if reqs (flights s) key = None then Some (length (handles (flights s))) else None)"
    by (auto simp: request_def)
  show "walk s' = walk s" "jobs s' = jobs s" "aborted s' = aborted s" by (simp_all add: s')
  show "\<exists>ks. keys_of (flights s') = keys_of (flights s) @ ks" using fit(2) by (auto simp: s')
  show "h < length (keys_of (flights s')) \<and> keys_of (flights s') ! h = key" if "r = Some h"
  proof -
    from that rr have n: "reqs (flights s) key = None" "h = length (handles (flights s))" by (auto split: if_splits)
    with fit(2) have k: "keys_of (flights s') = keys_of (flights s) @ [key]" by (simp add: s')
    show ?thesis unfolding k using n by (simp add: nth_append)
  qed
  have "list_all (job_ok A (keys_of (flights s) @ ks)) (jobs s)" "list_all (op_ok A (keys_of (flights s) @ ks)) (operations s)" for ks
    using async_okD(2,3) [OF s] by (auto simp: list_all_iff intro: job_ok_prefix op_ok_prefix)
  with s fit show "async_ok A s'" by (simp add: async_ok_def s')
qed

text \<open>Matches.\<close>

lemma found_ok_init: "found_ok A w \<Longrightarrow> found_ok A (init_matches index w)"
  using grows_init [of "fsOf A" w index "{}"]
  by (auto simp: found_ok_def grows_def split: if_splits) blast

lemma found_ok_add: "found_ok A w \<Longrightarrow> e \<in> target A index \<Longrightarrow> found_ok A (add_match index e w)"
  using grows_add [of "fsOf A" w e "target A index" index]
  by (auto simp: found_ok_def grows_def split: if_splits) blast

lemma found_ok_cache:
  "found_ok A w \<Longrightarrow> truthful (fsOf A) w' \<Longrightarrow> matches w' = matches w \<Longrightarrow> found_ok A w'"
  by (auto simp: found_ok_def found_at_def)

lemma found_ok_truthful: "found_ok A w \<Longrightarrow> truthful (fsOf A) w"
  by (simp add: found_ok_def)

lemma init_matches_at_ok: "async_ok A s \<Longrightarrow> async_ok A (init_matches_at index s)"
  unfolding init_matches_at_def by (intro async_ok_walk found_ok_init) (auto dest: async_okD)

lemma emitMatch_ok:
  assumes "plain_walk A" and s: "async_ok A s" and e: "e \<in> target A index"
  shows "async_ok A (emitMatch A index e s)"
proof -
  let ?s2 = "in_walk (add_match index e) s"
  have "async_ok A ?s2" by (intro async_ok_walk s found_ok_add e async_okD(6) [OF s])
  then have "async_ok A (case statCache (walk ?s2) n of None \<Rightarrow> ?s2 | Some st \<Rightarrow> emit_event (StatEvent e st) ?s2)" for n
    by (auto intro: async_ok_emit simp: told_ok_def split: option.split)
  then have "async_ok A (emit_event (MatchEvent e)
      (case statCache (walk ?s2) n of None \<Rightarrow> ?s2 | Some st \<Rightarrow> emit_event (StatEvent e st) ?s2))" for n
    by (rule async_ok_emit) (use e in \<open>auto simp: told_ok_def\<close>)
  moreover have "async_ok A (s\<lparr>emitQueue := emitQueue s @ [(index, e)]\<rparr>)"
    using s e by (simp add: async_ok_def)
  moreover have "\<not> g_mark (env A)" using assms(1) by (simp add: plain_walk_def)
  ultimately show ?thesis using s by (simp add: emitMatch_def Let_def)
qed

lemma async_finish_ok:
  assumes "plain_walk A" and s: "async_ok A s"
  shows "async_ok A (async_finish A s)"
proof -
  have p: "\<not> g_mark (env A)" "\<not> g_nonull (env A)" "\<not> realpathOption A" using assms(1) by (auto simp: plain_walk_def)
  have "\<exists>i. m \<in> target A i" if "m \<in> set (finish (hostOf A) (compareOf A) (env A) (walk s))" for m
  proof -
    from finish_found [OF p(1,2) that] obtain i where "i < length (matches (walk s))" "m \<in> found_at (walk s) i" by blast
    with async_okD(6) [OF s] have "m \<in> target A i" by (auto simp: found_ok_def dest: leD)
    then show ?thesis ..
  qed
  then have "told_ok A (EndEvent (finish (hostOf A) (compareOf A) (env A) (walk s)))" by (simp add: told_ok_def)
  then have "async_ok A (async_end A s)" using async_ok_emit [OF s] p(1) by (simp add: async_end_def Let_def)
  with s p(3) show ?thesis by (simp add: async_finish_def)
qed

lemma finished_ok: "plain_walk A \<Longrightarrow> async_ok A s \<Longrightarrow> async_ok A (finished A s)"
  using async_finish_ok [of A "s\<lparr>processing := processing s - 1\<rparr>"] by (simp add: finished_def Let_def)

text \<open>Directories.\<close>

lemma plain_walkD:
  assumes "plain_walk A"
  shows "fs_ok (fsOf A)" "g_root (env A) = [SLASH]" "\<not> mm_negate (g_minimatch (env A))" "\<not> g_mark (env A)"
    "\<not> realpathOption A" "list_all relative_pattern (pattern_set A)"
  using assms by (auto simp: plain_walk_def)

lemma call_answer_ok:
  assumes "async_ok A s" and "reads (keys_of (flights s)) h dir"
    and "es = None \<or> (\<exists>xs. es = Some xs \<and> readdirSync (fsOf A) dir = Inr xs)"
  shows "async_ok A (run_next [Answer h (Names es)] s)"
proof (rule async_ok_call [OF assms(1)])
  have "job_ok A ks (Answer h (Names es))" if "reads ks h dir" for ks
    using that assms(3) by (auto simp: reads_def names_of_def)
  from this [OF assms(2)] show "list_all (job_ok A (keys_of (flights s))) [Answer h (Names es)]"
    by (simp only: list.pred_inject simp_thms)
qed

lemma async_readdirInGlobStar_ok:
  assumes s: "async_ok A s" and h: "asks_link (keys_of (flights s)) h dir" and d: "dir_ok A dir"
  shows "async_ok A (async_readdirInGlobStar A dir h s)"
proof -
  obtain r s1 where r: "request (LstatKey dir) (OnLstat dir h) s = (r, s1)" by fastforce
  have "suits A (keys_of (flights s)) (LstatKey dir) (OnLstat dir h)" using h d by simp
  note q = async_ok_request [OF s this r]
  have "async_ok A (ask (AskLstat dir l) s1)" if "r = Some l" for l
    using q(6) [OF that] by (intro async_ok_ask [OF q(1)]) auto
  moreover have "async_ok A (run_next [Readdir dir False (Handle h)] s)" using h d by (intro async_ok_call [OF s]) simp
  ultimately show ?thesis using s q(1) by (simp add: async_readdirInGlobStar_def r split: option.split)
qed

lemma async_readdir_ok:
  assumes s: "async_ok A s" and cb: "suits A (keys_of (flights s)) (ReaddirKey dir ig) cb" and d: "dir_ok A dir"
  shows "async_ok A (async_readdir A dir ig cb s)"
proof -
  obtain r s1 where r: "request (ReaddirKey dir ig) cb s = (r, s1)" by fastforce
  note q = async_ok_request [OF s cb r]
  show ?thesis
  proof (cases r)
    case None
    with s q(1) show ?thesis by (simp add: async_readdir_def r)
  next
    case (Some h)
    have h: "reads (keys_of (flights s1)) h dir" and l: "ig \<Longrightarrow> asks_link (keys_of (flights s1)) h dir"
      using q(6) [OF Some] by (auto simp: reads_def asks_link_def)
    have "truthful (fsOf A) (walk s1)" using found_ok_truthful [OF async_okD(6) [OF q(1)]] .
    then have t: "truthful_entry (fsOf A) dir (cache (walk s1) dir)" by (simp add: truthful_def)
    have none: "async_ok A (run_next [Answer h (Names None)] s1)"
      by (rule call_answer_ok [OF q(1) h]) simp
    have some: "async_ok A (run_next [Answer h (Names (Some es))] s1)" if "cache (walk s1) dir = Some (Entries es)" for es
      using t that by (intro call_answer_ok [OF q(1) h]) simp
    have ask: "async_ok A (ask (AskReaddir dir h) s1)"
      by (rule async_ok_ask [OF q(1)]) (simp only: op_ok.simps h d simp_thms)
    show ?thesis
      using s none some ask async_readdirInGlobStar_ok [OF q(1) l d]
      by (simp add: async_readdir_def r Some split: option.split cached.split)
  qed
qed

lemma not_dir: "fs_ok F \<Longrightarrow> lstatSync F dir = Some st \<Longrightarrow> \<not> isSymbolicLink st \<Longrightarrow> \<not> isDirectory st \<Longrightarrow> isl (readdirSync F dir)"
  by (rule not_dir_unreadable) (simp_all add: leads_to_dir_def)

lemma found_ok_note:
  "found_ok A w \<Longrightarrow> truthful_entry (fsOf A) p (Some c) \<Longrightarrow> found_ok A (w\<lparr>cache := (cache w)(p \<mapsto> c)\<rparr>)"
  using truthful_cache_upd [OF found_ok_truthful, of A w p "Some c"] by (auto intro: found_ok_cache)

lemma lstatAnswer_ok:
  assumes w: "plain_walk A" and s: "async_ok A s" and h: "asks_link (keys_of (flights s)) h dir" and d: "dir_ok A dir"
    and l: "\<And>st. lstat = Some st \<Longrightarrow> lstatSync (fsOf A) dir = Some st"
  shows "async_ok A (lstatAnswer dir h lstat s)"
proof (cases lstat)
  case None
  with call_answer_ok [OF s asks_link_reads [OF h], of None] show ?thesis by (simp add: lstatAnswer_def)
next
  case (Some st)
  let ?s1 = "in_walk (\<lambda>w. w\<lparr>symlinks := (symlinks w)(dir \<mapsto> isSymbolicLink st)\<rparr>) s"
  have s1: "async_ok A ?s1"
    by (rule async_ok_walk [OF s], rule found_ok_cache [OF async_okD(6) [OF s]])
      (simp_all add: found_ok_truthful [OF async_okD(6) [OF s]])
  have "async_ok A (run_next [Readdir dir False (Handle h)] ?s1)" using h d by (intro async_ok_call [OF s1]) simp
  moreover have "async_ok A (run_next [Answer h (Names None)] (in_walk (\<lambda>w. w\<lparr>cache := (cache w)(dir \<mapsto> File)\<rparr>) ?s1))"
    if "\<not> isSymbolicLink st" "\<not> isDirectory st"
  proof (rule call_answer_ok)
    have "truthful_entry (fsOf A) dir (Some File)"
      using not_dir [OF plain_walkD(1) [OF w] l [OF Some] that] by simp
    then show "async_ok A (in_walk (\<lambda>w. w\<lparr>cache := (cache w)(dir \<mapsto> File)\<rparr>) ?s1)"
      by (intro async_ok_walk [OF s1] found_ok_note async_okD(6) [OF s1])
  qed (use asks_link_reads [OF h] in simp_all)
  ultimately show ?thesis by (simp add: lstatAnswer_def Some Let_def)
qed

lemma readdirAnswer_ok:
  assumes s: "async_ok A s" and h: "reads (keys_of (flights s)) h dir" and d: "dir_ok A dir"
  shows "readdirSync (fsOf A) dir = Inr es \<Longrightarrow> async_ok A (async_readdirEntries A dir es h s)"
    and "readdirSync (fsOf A) dir = Inl er \<Longrightarrow> async_ok A (async_readdirError A dir er h s)"
proof -
  assume r: "readdirSync (fsOf A) dir = Inr es"
  have "found_ok A (readdirEntries (env A) dir es (walk s))"
    by (rule found_ok_cache [OF async_okD(6) [OF s]])
      (simp_all add: readdirEntries_truthful found_ok_truthful [OF async_okD(6) [OF s]] r, simp add: readdirEntries_def Let_def)
  then have "async_ok A (in_walk (readdirEntries (env A) dir es) s)" by (rule async_ok_walk [OF s])
  then have "async_ok A (run_next [Answer h (Names (Some es))] (in_walk (readdirEntries (env A) dir es) s))"
    by (rule call_answer_ok) (use h r in simp_all)
  with s show "async_ok A (async_readdirEntries A dir es h s)" by (simp add: async_readdirEntries_def)
next
  assume r: "readdirSync (fsOf A) dir = Inl er"
  let ?note = "\<lambda>c. in_walk (\<lambda>w. w\<lparr>cache := (cache w)(makeAbs (env A) dir \<mapsto> c)\<rparr>) s"
  have n: "async_ok A (?note c)" if "c = File \<or> c = Absent" for c
    using that r d by (intro async_ok_walk [OF s] found_ok_note async_okD(6) [OF s]) (auto simp: dir_ok_def)
  have a: "async_ok A (run_next [Answer h (Names None)] s')" if "async_ok A s'" "flights s' = flights s" for s'
    by (rule call_answer_ok [OF that(1)]) (use h that(2) in simp_all)
  have "async_ok A (abort (emit_event (ErrorEvent er) (?note Absent)))"
    unfolding abort_def by (intro async_ok_emit) (simp_all add: async_ok_emit n told_ok_def)
  then have "async_ok A (run_next [Answer h (Names None)] (abort (emit_event (ErrorEvent er) (?note Absent))))"
    by (rule a) (simp add: abort_def)
  moreover have "async_ok A (run_next [Answer h (Names None)] (?note c))" if "c = File \<or> c = Absent" for c
    by (rule a) (simp_all add: n that)
  ultimately show "async_ok A (async_readdirError A dir er h s)"
    using s by (simp add: async_readdirError_def Let_def)
qed

text \<open>Names.\<close>

lemma stat2_ok:
  assumes w: "plain_walk A" and s: "async_ok A s" and f: "name_ok A f index"
    and st: "\<And>st. res = Some st \<Longrightarrow> \<not> isDirectory st \<Longrightarrow> isl (readdirSync (fsOf A) name)"
  shows "async_ok A (stat2 f name index res s)"
proof -
  have c: "async_ok A (run_next [Simple2 f index c] s')" if "async_ok A s'" for s' c
    using f by (intro async_ok_call [OF that]) simp
  have t: "truthful (fsOf A) (walk s)" using found_ok_truthful [OF async_okD(6) [OF s]] .
  show ?thesis
  proof (cases res)
    case None
    have "found_ok A ((walk s)\<lparr>statCache := (statCache (walk s))(name := None)\<rparr>)"
      by (rule found_ok_cache [OF async_okD(6) [OF s]]) (use t in \<open>auto simp: truthful_def\<close>)
    then have "async_ok A (s\<lparr>walk := (walk s)\<lparr>statCache := (statCache (walk s))(name := None)\<rparr>,
        failedStat := (failedStat s)(name := True)\<rparr>)"
      using async_ok_walk [OF s, of "\<lambda>w. w\<lparr>statCache := (statCache w)(name := None)\<rparr>"] by (simp add: in_walk_def)
    from c [OF this] show ?thesis by (simp add: stat2_def None)
  next
    case (Some x)
    let ?w = "(walk s)\<lparr>statCache := (statCache (walk s))(name \<mapsto> x)\<rparr>"
    let ?s1 = "s\<lparr>walk := ?w, failedStat := (failedStat s)(name := False)\<rparr>"
    let ?c = "if isDirectory x then Dir else File"
    let ?new = "if cache ?w name = None \<or> cache ?w name = Some Absent then Some ?c else cache ?w name"
    have found: "found_ok A ?w"
      by (rule found_ok_cache [OF async_okD(6) [OF s]]) (use t st [OF Some] in \<open>auto simp: truthful_def\<close>)
    then have s1: "async_ok A ?s1"
      using async_ok_walk [OF s, of "\<lambda>w. w\<lparr>statCache := (statCache w)(name \<mapsto> x)\<rparr>"] by (simp add: in_walk_def)
    have "truthful_entry (fsOf A) name ?new" using t st [OF Some] by (simp add: truthful_def)
    then have "found_ok A (?w\<lparr>cache := (cache ?w)(name := ?new)\<rparr>)"
      by (intro found_ok_cache [OF found] truthful_cache_upd found_ok_truthful [OF found]) simp_all
    then have "async_ok A (in_walk (\<lambda>w. w\<lparr>cache := (cache w)(name := ?new)\<rparr>) ?s1)"
      by (intro async_ok_walk [OF s1]) simp
    from c [OF this] c [OF s1] show ?thesis by (simp add: stat2_def Some Let_def)
  qed
qed

lemma statAnswer_ok:
  assumes w: "plain_walk A" and s: "async_ok A s" and f: "name_ok A f index"
    and l: "\<And>st. lstat = Some st \<Longrightarrow> lstatSync (fsOf A) name = Some st"
  shows "async_ok A (statAnswer f name index lstat s)"
proof (cases lstat)
  case None
  then show ?thesis using stat2_ok [OF w s f, of None name] by (simp add: statAnswer_def)
next
  case (Some st)
  have "async_ok A (ask (AskStat f name index st) s)" if "isSymbolicLink st"
    using that f l [OF Some] by (intro async_ok_ask [OF s]) simp
  moreover have "async_ok A (stat2 f name index lstat s)" if "\<not> isSymbolicLink st"
    using not_dir [OF plain_walkD(1) [OF w] l] that Some by (intro stat2_ok [OF w s f]) simp
  ultimately show ?thesis using Some by (simp add: statAnswer_def)
qed

lemma async_stat_ok:
  assumes s: "async_ok A s" and f: "name_ok A f index"
  shows "async_ok A (async_stat A f index s)"
proof -
  let ?n = "makeAbs (env A) f"
  obtain r s1 where r: "request (StatKey ?n) (OnStat f ?n index) s = (r, s1)" by fastforce
  have "suits A (keys_of (flights s)) (StatKey ?n) (OnStat f ?n index)" using f by simp
  note q = async_ok_request [OF s this r]
  have "async_ok A (ask (AskLstat ?n h) s1)" if "r = Some h" for h
    using q(6) [OF that] by (intro async_ok_ask [OF q(1)]) auto
  then have l: "async_ok A (case r of None \<Rightarrow> s1 | Some h \<Rightarrow> ask (AskLstat ?n h) s1)"
    using q(1) by (simp split: option.split)
  have c: "async_ok A (run_next [Simple2 f index c] s)" for c using f by (intro async_ok_call [OF s]) simp
  have "async_ok A (ask_stat f ?n index s)" using c l by (simp add: ask_stat_def r Let_def split: option.split)
  then show ?thesis using c by (simp add: async_stat_def Let_def split: option.split)
qed

lemma processSimple2_ok:
  assumes s: "async_ok A s" and f: "name_ok A f index"
  shows "async_ok A (processSimple2 A f index c s)"
proof -
  have "mount (env A) f = f" using f by (simp add: name_ok_def)
  with f show ?thesis
    unfolding processSimple2_def Let_def
    by (auto intro!: async_ok_call init_matches_at_ok [OF s] simp: name_ok_def)
qed

text \<open>Patterns.\<close>

lemma descend_in_dir:
  assumes "list_all plain_string ss"
  shows "async_in_dir (descend None ss) e = in_dir (descend None ss) e"
    and "async_prefix_list (descend None ss) = prefix_list (descend None ss)"
proof -
  have "descend None ss = None \<or> (\<exists>p. descend None ss = Some p \<and> p \<noteq> [] \<and> p \<noteq> [SLASH] \<and> \<not> ends_slash p)"
  proof (cases "ss = []")
    case False
    from descend_plain [OF assms False] show ?thesis by (auto simp: plain_string_def ends_slash_def)
  qed (simp add: descend_def)
  then show "async_in_dir (descend None ss) e = in_dir (descend None ss) e"
    "async_prefix_list (descend None ss) = prefix_list (descend None ss)"
    by (auto simp: async_in_dir_def in_dir_def async_prefix_list_def prefix_list_def)
qed

lemma names_plain:
  assumes "fs_ok F" and "readdirSync F dir = Inr es" and "e \<in> set es"
  shows "plain_string e \<and> take 1 e \<noteq> [SLASH] \<and> e \<in> set (names_in F dir)"
  using assms plain_name fs_names [OF assms(1), of e dir] by (simp add: names_in_def)

text \<open>A name in the directory of a task, as the first portion that remains or in front of it.\<close>

lemma task_name:
  assumes t: "task_ok A pre dir remain index" and e: "plain_string e \<and> take 1 e \<noteq> [SLASH]"
    and cov: "\<And>r. covers (hostOf A) (env A) (fsOf A) (Some (in_dir pre e)) qs r \<Longrightarrow>
      covers (hostOf A) (env A) (fsOf A) pre remain (e # r)"
    and qs: "relative_pattern qs" "known qs"
  shows "pattern_ok A (Str (async_in_dir pre e) # qs) index"
    and "pattern_ok A (async_prefix_list pre @ Str e # qs) index"
    and "qs = [] \<Longrightarrow> name_ok A (async_in_dir pre e) index"
proof -
  let ?st = "stands_for (hostOf A) (env A) (fsOf A)"
  from t obtain ss where ss: "pre = descend None ss" "list_all plain_string ss" "\<forall>s \<in> set ss. take 1 s \<noteq> [SLASH]"
      "relative_pattern remain" "?st (map Str ss @ remain) \<subseteq> target A index"
    unfolding task_ok_def by blast
  have plain: "list_all plain_string (ss @ [e])" "\<forall>s \<in> set (ss @ [e]). take 1 s \<noteq> [SLASH]" using ss e by auto
  have d: "descend None (ss @ [e]) = Some (in_dir pre e)" by (simp add: ss(1) descend_def)
  have "?st (prefix_list (descend None (ss @ [e])) @ qs) \<subseteq> ?st (map Str (ss @ [e]) @ qs)"
    by (rule stands_for_prefix [OF plain(1)])
  moreover have "?st (map Str (ss @ [e]) @ qs) \<subseteq> ?st (map Str ss @ remain)"
  proof
    fix m
    assume "m \<in> ?st (map Str (ss @ [e]) @ qs)"
    then obtain r where "m = join_with [SLASH] ((ss @ [e]) @ r)"
        "covers (hostOf A) (env A) (fsOf A) (Some (in_dir pre e)) qs r"
      unfolding stands_for_def covers_strings d by blast
    with cov [of r] have "m = join_with [SLASH] (ss @ e # r)"
        "covers (hostOf A) (env A) (fsOf A) (descend None ss) remain (e # r)"
      by (simp_all add: ss(1))
    then show "m \<in> ?st (map Str ss @ remain)" unfolding stands_for_def covers_strings by blast
  qed
  ultimately have sub: "?st (Str (in_dir pre e) # qs) \<subseteq> target A index"
    using ss(5) by (auto simp: d prefix_list_def)
  moreover have "relative_pattern (prefix_list (descend None (ss @ [e])) @ qs)"
    by (rule relative_prefix_list [OF plain qs(1)])
  then have rel: "relative_pattern (Str (in_dir pre e) # qs)" by (simp add: d prefix_list_def)
  ultimately show "pattern_ok A (Str (async_in_dir pre e) # qs) index"
    using descend_in_dir(1) [OF ss(2), of e] qs(2) by (simp add: pattern_ok_def ss(1))
  have "?st (prefix_list (descend None ss) @ Str e # qs) \<subseteq> ?st (map Str ss @ remain)"
    by (rule stands_for_prefix [OF ss(2)]) (use cov in \<open>auto simp: ss(1)\<close>)
  moreover have "relative_pattern (prefix_list (descend None ss) @ Str e # qs)"
    by (rule relative_prefix_list [OF ss(2,3)]) (use e qs(1) in auto)
  ultimately show "pattern_ok A (async_prefix_list pre @ Str e # qs) index"
    using ss(5) descend_in_dir(2) [OF ss(2)] qs(2)
    by (auto simp: pattern_ok_def ss(1) prefix_list_def split: option.split)
  show "name_ok A (async_in_dir pre e) index" if "qs = []"
  proof -
    have "in_dir pre e \<in> ?st (Str (in_dir pre e) # qs)" using that by (force simp: stands_for_def)
    with sub rel show ?thesis using descend_in_dir(1) [OF ss(2), of e] by (auto simp: name_ok_def ss(1))
  qed
qed

lemma processReaddir2_ok:
  assumes w: "plain_walk A" and s: "async_ok A s" and t: "task_ok A pre dir remain index"
    and es: "\<And>xs. es = Some xs \<Longrightarrow> readdirSync (fsOf A) dir = Inr xs"
  shows "async_ok A (processReaddir2 A pre remain index ig es s)"
proof (cases es)
  case None
  then show ?thesis using async_ok_call [OF s, of "[Finished]"] by (simp add: processReaddir2_def)
next
  case (Some xs)
  let ?pn = "hd remain"
  define matched where "matched = filter (entry_matches (hostOf A) (g_dot (env A) \<or> take 1 (glob_text ?pn) = [DOT]) False ?pn) xs"
  from t have t': "remain \<noteq> []" "relative_pattern remain" "known remain" "dir = makeAbs (env A) (read_of pre)"
    by (auto simp: task_ok_def)
  then obtain qs where r: "remain = ?pn # qs" by (cases remain) auto
  have k: "known (?pn # qs)" and rp: "relative_pattern (?pn # qs)" using t'(2,3) r by metis+
  have rel: "relative_pattern qs" "known qs"
    using rp known_tl [OF k] by (cases ?pn; simp)+
  have each: "pattern_ok A (Str (async_in_dir pre e) # tl remain) index"
    "tl remain = [] \<Longrightarrow> mount (env A) (async_in_dir pre e) \<in> target A index" if m: "e \<in> set matched" for e
  proof -
    have "e \<in> set xs" using m by (simp add: matched_def)
    note e = names_plain [OF plain_walkD(1) [OF w] es [OF Some] this]
    have cov: "covers (hostOf A) (env A) (fsOf A) pre remain (e # r)"
      if c: "covers (hostOf A) (env A) (fsOf A) (Some (in_dir pre e)) qs r" for r
    proof -
      from m obtain src flag g where p: "?pn = Re src flag g" "re_match (hostOf A) src flag e"
          "take 1 e \<noteq> [DOT] \<or> g_dot (env A) \<or> take 1 (glob_text ?pn) = [DOT]"
        by (auto simp: matched_def entry_matches_def split: parsed.splits)
      with t'(3) r obtain gt where "g = Some gt" by (cases g) (metis known_simps(6), blast)
      with p r e t'(4) c show ?thesis by (subst r) (auto simp: glob_text_def intro!: covers.Name)
    qed
    have q: "qs = tl remain" using r by (metis list.sel(3))
    have e1: "plain_string e \<and> take 1 e \<noteq> [SLASH]" using e by simp
    show "pattern_ok A (Str (async_in_dir pre e) # tl remain) index"
      using task_name(1) [OF t e1 cov rel] q by simp
    show "mount (env A) (async_in_dir pre e) \<in> target A index" if "tl remain = []"
      using task_name(3) [OF t e1 cov rel] q that by (simp add: name_ok_def)
  qed
  have "async_ok A (run_next (map (\<lambda>e. Process (Str (async_in_dir pre e) # tl remain) index ig) matched @ [Finished]) s)"
    using each(1) by (intro async_ok_call [OF s]) (simp add: list_all_iff)
  moreover have "async_ok A (run_next (map (\<lambda>e. EmitMatch index (mount (env A) (async_in_dir pre e))) matched @ [Finished])
      (init_matches_at index s))" if "length remain = 1"
  proof -
    have "tl remain = []" using that by (cases remain) auto
    then show ?thesis using each(2) by (intro async_ok_call init_matches_at_ok [OF s]) (simp add: list_all_iff)
  qed
  moreover have "async_ok A (run_next [Finished] s)" by (intro async_ok_call [OF s]) simp
  ultimately show ?thesis
    using plain_walkD(3) [OF w] by (simp add: processReaddir2_def Some Let_def matched_def)
qed

lemma globstar_down:
  assumes "task_ok A pre dir remain index" and "hd remain = Globstar" and "e \<in> set (names_in (fsOf A) dir)"
    and "take 1 e \<noteq> [DOT] \<or> g_dot (env A)"
    and "covers (hostOf A) (env A) (fsOf A) (Some (in_dir pre e)) remain r"
  shows "covers (hostOf A) (env A) (fsOf A) pre remain (e # r)"
proof -
  obtain qs where r: "remain = Globstar # qs" using assms(1,2) by (cases remain) (auto simp: task_ok_def)
  have "dir = makeAbs (env A) (read_of pre)" using assms(1) by (auto simp: task_ok_def)
  with assms r show ?thesis by (auto intro!: covers.Down)
qed

lemma processGlobStar2_ok:
  assumes w: "plain_walk A" and s: "async_ok A s" and t: "task_ok A pre dir remain index" "hd remain = Globstar"
    and es: "\<And>xs. es = Some xs \<Longrightarrow> readdirSync (fsOf A) dir = Inr xs"
  shows "async_ok A (processGlobStar2 A pre dir remain index ig es s)"
proof (cases es)
  case None
  then show ?thesis using async_ok_call [OF s, of "[Finished]"] by (simp add: processGlobStar2_def)
next
  case (Some xs)
  from t obtain qs where r: "remain = Globstar # qs" by (cases remain) (auto simp: task_ok_def)
  from t obtain ss where ss: "pre = descend None ss" "list_all plain_string ss" "\<forall>s \<in> set ss. take 1 s \<noteq> [SLASH]"
      "relative_pattern remain" "known remain"
      "stands_for (hostOf A) (env A) (fsOf A) (map Str ss @ remain) \<subseteq> target A index"
    unfolding task_ok_def by blast
  have "stands_for (hostOf A) (env A) (fsOf A) (prefix_list (descend None ss) @ qs) \<subseteq>
      stands_for (hostOf A) (env A) (fsOf A) (map Str ss @ remain)"
    by (rule stands_for_prefix [OF ss(2)]) (simp add: r covers.Skip)
  moreover have "relative_pattern (prefix_list (descend None ss) @ qs)"
    by (rule relative_prefix_list [OF ss(2,3)]) (use ss(4) r in simp)
  moreover have "known (prefix_list (descend None ss) @ qs)"
    using ss(5) r by (simp add: prefix_list_def split: option.split)
  ultimately have "pattern_ok A (async_prefix_list pre @ tl remain) index"
    using ss(6) descend_in_dir(2) [OF ss(2)] by (auto simp: pattern_ok_def ss(1) r)
  with t es [OF Some] show ?thesis
    unfolding processGlobStar2_def Some by (auto intro!: async_ok_call [OF s])
qed

lemma globRest_ok:
  assumes w: "plain_walk A" and s: "async_ok A s" and t: "task_ok A pre dir remain index" "hd remain = Globstar"
    and es: "readdirSync (fsOf A) dir = Inr es"
  shows "async_ok A (globRest A pre dir remain index ig es s)"
proof -
  from t obtain qs where r: "remain = Globstar # qs" by (cases remain) (auto simp: task_ok_def)
  have rel: "relative_pattern remain" "known remain" using t(1) by (auto simp: task_ok_def)
  have each: "pattern_ok A (async_prefix_list pre @ Str e # tl remain) index \<and>
      pattern_ok A (async_prefix_list pre @ Str e # remain) index"
    if "e \<in> set es" "take 1 e \<noteq> [DOT] \<or> g_dot (env A)" for e
  proof -
    note e = names_plain [OF plain_walkD(1) [OF w] es that(1)]
    have down: "covers (hostOf A) (env A) (fsOf A) pre remain (e # r)"
      if "covers (hostOf A) (env A) (fsOf A) (Some (in_dir pre e)) remain r" for r
      using globstar_down [OF t] e \<open>take 1 e \<noteq> [DOT] \<or> g_dot (env A)\<close> that by blast
    have e1: "plain_string e \<and> take 1 e \<noteq> [SLASH]" using e by simp
    have "covers (hostOf A) (env A) (fsOf A) pre remain (e # x)"
      if "covers (hostOf A) (env A) (fsOf A) (Some (in_dir pre e)) qs x" for x
      using down [of x] that by (simp add: r covers.Skip)
    from task_name(2) [OF t(1) e1 this] task_name(2) [OF t(1) e1 down rel] rel
    show ?thesis by (simp add: r)
  qed
  have "async_ok A (run_next [Finished] s)" by (intro async_ok_call [OF s]) simp
  moreover have "async_ok A (run_next (concat (map (\<lambda>e. [Process (async_prefix_list pre @ Str e # tl remain) index True,
      Process (async_prefix_list pre @ Str e # remain) index True])
      (filter (\<lambda>e. take 1 e \<noteq> [DOT] \<or> g_dot (env A)) es)) @ [Finished]) s)"
    using each by (intro async_ok_call [OF s]) (auto simp: list_all_iff)
  ultimately show ?thesis by (simp add: globRest_def)
qed

lemma process_pattern_ok:
  assumes w: "plain_walk A" and s: "async_ok A s" and p: "pattern_ok A pattern index"
  shows "async_ok A (process_pattern A pattern index ig s)"
proof -
  obtain ss where ss: "map Str ss = takeWhile is_string pattern"
      "map string_of (takeWhile is_string pattern) = ss"
      "pattern = map Str ss @ drop (length ss) pattern"
      "drop (length ss) pattern = dropWhile is_string pattern"
    by (rule pattern_split)
  have len: "length (takeWhile is_string pattern) = length ss" using ss(1) by (metis length_map)
  have p': "relative_pattern pattern" "known pattern" "stands_for (hostOf A) (env A) (fsOf A) pattern \<subseteq> target A index"
    using p by (auto simp: pattern_ok_def)
  show ?thesis
  proof (cases "drop (length ss) pattern")
    case Nil
    then have e: "pattern = map Str ss" using ss(3) by simp
    then have m: "map string_of pattern = ss" "length (takeWhile is_string pattern) = length pattern"
      using ss(1,2) by simp_all
    have "join_with [SLASH] ss \<in> stands_for (hostOf A) (env A) (fsOf A) pattern"
      using covers_strings [of "hostOf A" "env A" "fsOf A" None ss "[]"] by (auto simp: stands_for_def e)
    with p'(1,3) relative_join [of ss] e have "name_ok A (join_with [SLASH] ss) index" by (auto simp: name_ok_def)
    from async_stat_ok [OF s this] m show ?thesis by (simp add: process_pattern_def Let_def)
  next
    case (Cons q ps)
    let ?dir = "makeAbs (env A) (read_of (descend None ss))"
    have e: "pattern = map Str ss @ q # ps" using ss(3) Cons by simp
    have plain: "list_all plain_string ss" "\<forall>s \<in> set ss. take 1 s \<noteq> [SLASH]"
      using relative_strings [of ss "q # ps"] p'(1) e by simp_all
    have pre: "prefix_of pattern = descend None ss"
      using prefix_of_strings [OF plain ss(1) [symmetric] ss(3)] .
    have "read_of (descend None ss) \<noteq> []"
      using descend_plain [OF plain(1)] by (cases "ss = []") (auto simp: read_of_def descend_def plain_string_def)
    then have dir: "dir_ok A ?dir"
      unfolding dir_ok_def by (rule makeAbs_id [OF plain_walkD(2) [OF w] makeAbs_normal [OF plain_walkD(2) [OF w]]])
    have "relative_pattern (q # ps)" "known (q # ps)"
      using relative_pattern_append p'(1,2) known_simps(4) e by metis+
    then have t: "task_ok A (prefix_of pattern) ?dir (q # ps) index"
      unfolding task_ok_def using pre plain dir p'(3) e by (intro exI [of _ ss]) simp
    have ne: "length ss \<noteq> length pattern" using e by simp
    have "async_ok A (run_next [Finished] s)" by (intro async_ok_call [OF s]) simp
    moreover have "async_ok A (run_next [Readdir ?dir ig (OnReaddir (prefix_of pattern) ?dir (q # ps) index ig)] s)"
      using t dir by (intro async_ok_call [OF s]) simp
    moreover have "async_ok A (run_next [Readdir ?dir ig (OnGlobStar (prefix_of pattern) ?dir (q # ps) index ig)] s)"
      if "q = Globstar"
      using t dir that by (intro async_ok_call [OF s]) simp
    ultimately show ?thesis by (simp add: process_pattern_def Let_def len ne Cons pre)
  qed
qed

lemma async_process_ok:
  assumes w: "plain_walk A" and s: "async_ok A s" and p: "pattern_ok A pattern index"
  shows "async_ok A (async_process A pattern index ig s)"
proof -
  have "async_ok A (s\<lparr>processing := n, processQueue := processQueue s @ [(pattern, index, ig)]\<rparr>)" for n
    using s p by (simp add: async_ok_def)
  moreover have "async_ok A (process_pattern A pattern index ig (s\<lparr>processing := n\<rparr>))" for n
    using process_pattern_ok [OF w _ p] s by simp
  ultimately show ?thesis using s by (simp add: async_process_def Let_def)
qed

section \<open>Every step\<close>

lemma invoke_ok:
  assumes w: "plain_walk A" and s: "async_ok A s"
    and key: "suits A (keys_of (flights s)) key cb" "truly A key ans"
  shows "async_ok A (invoke A cb ans s)"
proof -
  have names: "readdirSync (fsOf A) dir = Inr es"
    if "key = ReaddirKey dir ig" "names_of ans = Some es" for dir ig es
    using key(2) that by simp
  show ?thesis
  proof (cases cb)
    case (OnReaddir pre d remain index ig)
    with key(1) obtain ig' where k: "key = ReaddirKey d ig'" "task_ok A pre d remain index" by (cases key) auto
    from processReaddir2_ok [OF w s k(2) names [OF k(1)]] OnReaddir show ?thesis by (simp add: invoke_def)
  next
    case (OnGlobStar pre d remain index ig)
    with key(1) obtain ig' where k: "key = ReaddirKey d ig'" "task_ok A pre d remain index" "hd remain = Globstar"
      by (cases key) auto
    from processGlobStar2_ok [OF w s k(2,3) names [OF k(1)]] OnGlobStar show ?thesis by (simp add: invoke_def)
  next
    case (OnLstat d h)
    with key(1) have k: "key = LstatKey d" "asks_link (keys_of (flights s)) h d" "dir_ok A d" by (cases key; auto)+
    have "lstatSync (fsOf A) d = Some st" if "status_of ans = Some st" for st using key(2) k(1) that by simp
    from lstatAnswer_ok [OF w s k(2,3) this] OnLstat show ?thesis by (simp add: invoke_def)
  next
    case (OnStat f n index)
    with key(1) have k: "key = StatKey n" "name_ok A f index" by (cases key; auto)+
    have "lstatSync (fsOf A) n = Some st" if "status_of ans = Some st" for st using key(2) k(1) that by simp
    from statAnswer_ok [OF w s k(2) this] OnStat show ?thesis by (simp add: invoke_def)
  next
    case (Handle h)
    with key(1) obtain dir ig where k: "key = ReaddirKey dir ig" "reads (keys_of (flights s)) h dir"
      by (cases key) (auto intro: asks_link_reads)
    have "job_ok A (keys_of (flights s)) (Answer h ans)" if "reads (keys_of (flights s)) h dir"
      using that key(2) k(1) unfolding job_ok.simps reads_def by auto
    with k(2) have "async_ok A (run_next [Answer h ans] s)"
      by (intro async_ok_call [OF s]) (simp only: list.pred_inject simp_thms)
    with Handle show ?thesis by (simp add: invoke_def)
  qed
qed

text \<open>The requests change, and their keys stay.\<close>

lemma async_ok_flights:
  "async_ok A s \<Longrightarrow> flights_fit A fl \<Longrightarrow> keys_of fl = keys_of (flights s) \<Longrightarrow> async_ok A (s\<lparr>flights := fl\<rparr>)"
  by (simp add: async_ok_def)

lemma async_ok_run: "async_ok A s \<Longrightarrow> async_ok A (run_next [Run] s)"
  by (rule async_ok_call) simp_all

lemma answer_handle_ok:
  assumes s: "async_ok A s" and h: "job_ok A (keys_of (flights s)) (Answer h ans)"
  shows "async_ok A (answer_handle h ans s)"
proof -
  have "h < length (handles (flights s))" "truly A (keys_of (flights s) ! h) ans"
    using h unfolding job_ok.simps by auto
  note fit = flights_fit_handle [OF async_okD(1) [OF s] this]
  have "async_ok A (s\<lparr>flights := fl\<rparr>)" if "call_handle h ans (flights s) = Some fl" for fl
    using fit [OF that] by (intro async_ok_flights [OF s]) simp_all
  with s show ?thesis by (auto simp: answer_handle_def intro: async_ok_run split: option.split)
qed

lemma run_RES_ok:
  assumes s: "async_ok A s"
  shows "async_ok A (run_RES s)"
proof (cases "passes (flights s)")
  case (Cons p ps)
  show ?thesis
  proof (cases "p_i p < p_len p")
    case True
    note fit = flights_fit_callback [OF async_okD(1) [OF s] Cons True]
    have "async_ok A (s\<lparr>flights := next_callback p (flights s)\<rparr>)"
      by (rule async_ok_flights [OF s fit(1,2)])
    then have "async_ok A (run_next [Invoke (arrays (flights s) ! p_cbs p ! p_i p) (p_args p), Run]
        (s\<lparr>flights := next_callback p (flights s)\<rparr>))"
      by (rule async_ok_call) (use fit(2,3,4) in auto)
    with Cons True show ?thesis by (simp add: run_RES_def)
  next
    case False
    with Cons flights_fit_finally [OF async_okD(1) [OF s] Cons] async_ok_flights [OF s]
    show ?thesis by (simp add: run_RES_def)
  qed
qed (simp add: run_RES_def s)

lemma resume_ok:
  assumes s: "async_ok A s"
  shows "async_ok A (resume s)" and "async_ok A (resumeProcesses s)"
    and "async_ok A (pause s)" and "async_ok A (abort s)"
proof -
  have "async_ok A ((emit_event ResumeEvent s)\<lparr>paused := False, emitQueue := []\<rparr>)"
    using async_ok_emit [OF s, of ResumeEvent] by (simp add: async_ok_def told_ok_def)
  then have "async_ok A (run_next (map (\<lambda>(index, e). EmitMatch index e) (emitQueue s) @ [ResumeProcesses])
      ((emit_event ResumeEvent s)\<lparr>paused := False, emitQueue := []\<rparr>))"
    by (rule async_ok_call) (use async_okD(5) [OF s] in \<open>auto simp: list_all_iff\<close>)
  then show "async_ok A (resume s)" using s by (simp add: resume_def Let_def emit_event_def)
  have "async_ok A (s\<lparr>processQueue := []\<rparr>)" using s by (simp add: async_ok_def)
  then show "async_ok A (resumeProcesses s)"
    unfolding resumeProcesses_def
    by (rule async_ok_call) (use async_okD(4) [OF s] in \<open>auto simp: list_all_iff\<close>)
  show "async_ok A (pause s)" "async_ok A (abort s)"
    using s by (simp_all add: pause_def abort_def async_ok_emit told_ok_def)
qed

lemma perform_ok:
  assumes w: "plain_walk A" and s: "async_ok A s" and j: "job_ok A (keys_of (flights s)) j"
  shows "async_ok A (perform A j s)"
proof (cases j)
  case (Readdir dir ig cb)
  then show ?thesis using async_readdir_ok [OF s, of dir ig cb] j by (simp add: perform_def)
next
  case (Answer h ans)
  from answer_handle_ok [OF s j [unfolded this]] show ?thesis by (simp add: perform_def Answer)
next
  case (Invoke cb ans)
  then show ?thesis using invoke_ok [OF w s] j by (auto simp: perform_def)
qed (use j s in \<open>simp_all add: perform_def async_process_ok [OF w] run_RES_ok globRest_ok [OF w s]
    processSimple2_ok emitMatch_ok [OF w] resume_ok finished_ok [OF w]\<close>)

lemma complete_ok:
  assumes w: "plain_walk A" and s: "async_ok A s" and x: "op_ok A (keys_of (flights s)) x"
  shows "async_ok A (complete A x s)"
proof (cases x)
  case (AskReaddir dir h)
  then show ?thesis using x readdirAnswer_ok [OF s] by (auto simp: complete_def split: sum.split)
next
  case (AskLstat name h)
  have "job_ok A (keys_of (flights s)) (Answer h (Status (lstatSync (fsOf A) name)))"
    using x [unfolded AskLstat op_ok.simps] by (auto simp: status_of_def split: option.split)
  then have "async_ok A (run_next [Answer h (Status (lstatSync (fsOf A) name))] s)"
    by (intro async_ok_call [OF s]) (simp only: list.pred_inject simp_thms)
  then show ?thesis by (simp add: complete_def AskLstat)
next
  case (AskStat f name index lstat)
  with x have l: "name_ok A f index" "lstatSync (fsOf A) name = Some lstat" "isSymbolicLink lstat" by auto
  let ?st = "case statSync (fsOf A) name of None \<Rightarrow> lstat | Some st \<Rightarrow> st"
  have "isl (readdirSync (fsOf A) name)" if "\<not> isDirectory ?st"
  proof (rule not_dir_unreadable [OF plain_walkD(1) [OF w]])
    show "\<not> leads_to_dir (fsOf A) name"
      using that l by (auto simp: leads_to_dir_def split: option.splits)
  qed
  then have "async_ok A (stat2 f name index (Some ?st) s)" by (intro stat2_ok [OF w s l(1)]) auto
  then show ?thesis by (simp add: complete_def AskStat)
qed (use x in simp)

lemma async_step_ok:
  assumes w: "plain_walk A" and s: "async_ok A s" and st: "async_step A s s'"
  shows "async_ok A s'"
  using st
proof cases
  case (Perform j js)
  have "async_ok A (s\<lparr>jobs := js\<rparr>)" "job_ok A (keys_of (flights s)) j"
    using s Perform by (auto simp: async_ok_def)
  then show ?thesis using perform_ok [OF w, of "s\<lparr>jobs := js\<rparr>" j] Perform by simp
next
  case (NextTick key ans ts fl)
  note fit = async_okD(1) [OF s]
  have "flights_ok fl" using tick_ok [of "flights s" key ans ts] fit NextTick by (auto simp: flights_fit_def)
  moreover have "truly A key ans" using fit NextTick by (auto simp: flights_fit_def)
  ultimately have "flights_fit A fl \<and> keys_of fl = keys_of (flights s)"
    using flights_fit_enter [OF fit, of key ans ts "handles (flights s)" fl] NextTick by auto
  then have "async_ok A (s\<lparr>flights := fl\<rparr>)" by (intro async_ok_flights [OF s]) simp_all
  then show ?thesis using NextTick by (simp add: async_ok_run)
next
  case (Completed i)
  have "op_ok A (keys_of (flights s)) (operations s ! i)"
    using async_okD(3) [OF s] Completed by (simp add: list_all_length)
  moreover have "async_ok A (s\<lparr>operations := drop_nth i (operations s)\<rparr>)"
    using s by (auto simp: async_ok_def drop_nth_def list_all_iff dest: in_set_takeD in_set_dropD)
  ultimately show ?thesis
    using complete_ok [OF w, of "s\<lparr>operations := drop_nth i (operations s)\<rparr>"] Completed by simp
qed (simp_all add: resume_ok s)

lemma async_steps_ok: "plain_walk A \<Longrightarrow> (async_step A)\<^sup>*\<^sup>* s s' \<Longrightarrow> async_ok A s \<Longrightarrow> async_ok A s'"
  by (rotate_tac 1, induction rule: rtranclp_induct) (auto intro: async_step_ok)

lemma new_glob_ok:
  assumes w: "plain_walk A" and t: "truthful (fsOf A) g"
  shows "async_ok A (new_glob A noprocess g)"
proof -
  let ?n = "length (pattern_set A)"
  have "pattern_ok A (pattern_set A ! i) i" if "i < ?n" for i
    using w that by (simp add: plain_walk_def list_all_length pattern_ok_def target_def)
  moreover have "found_ok A (g\<lparr>matches := replicate ?n None\<rparr>)"
    using t by (auto simp: found_ok_def found_at_def truthful_def)
  moreover have "flights_fit A no_flights"
    using flights_ok_start [where 'a = asked_for and 'b = glob_callback and 'c = answer]
    by (simp add: flights_fit_def no_flights_def)
  ultimately show ?thesis
    by (auto simp: async_ok_def new_glob_def Let_def list_all_iff)
qed

section \<open>Properties\<close>

text \<open>
  Property C20.  Until it is aborted, a walk counts in \<open>_processing\<close> what it owes: the patterns
  that have been started or queued and have not called \<open>done\<close>, whether a call that is still to be
  made, an operation of the file system or a callback that waits in \<open>inflight\<close> will call it.
\<close>
theorem async_accounts:
  assumes "mm_set (g_minimatch (env A)) \<noteq> []"
    and "(async_step A)\<^sup>*\<^sup>* (new_glob A False w) s" and "\<not> aborted s"
  shows "processing s = owed s"
  using async_steps_balance [OF assms(2,3)] balance_new_glob [OF assms(1)] by (simp add: balance_def)

text \<open>A walk that performs the jobs it has and then takes the first answer, \<open>n\<close> times at most.\<close>

fun forward :: "nat \<Rightarrow> async_env \<Rightarrow> async \<Rightarrow> async" where
  "forward 0 A s = s"
| "forward (Suc n) A s =
     (case jobs s of
        j # js \<Rightarrow> forward n A (perform A j (s\<lparr>jobs := js\<rparr>))
      | [] \<Rightarrow>
          (case ticks (flights s) of
             (key, ans) # ts \<Rightarrow>
               (case enter_RES key ans (flights s\<lparr>ticks := ts\<rparr>) of
                  None \<Rightarrow> s
                | Some fl \<Rightarrow> forward n A (run_next [Run] (s\<lparr>flights := fl\<rparr>)))
           | [] \<Rightarrow>
               if operations s = [] then s
               else forward n A (complete A (operations s ! 0) (s\<lparr>operations := drop_nth 0 (operations s)\<rparr>))))"

lemma forward_steps: "(async_step A)\<^sup>*\<^sup>* s (forward n A s)"
proof (induction n A s rule: forward.induct)
  case (2 n A s)
  show ?case
  proof (cases "jobs s")
    case (Cons j js)
    then show ?thesis using 2(3) [OF Cons] Perform [OF Cons, of A] by (auto intro: converse_rtranclp_into_rtranclp)
  next
    case jobs: Nil
    show ?thesis
    proof (cases "ticks (flights s)")
      case (Cons t ts)
      obtain key ans where t: "t = (key, ans)" by fastforce
      show ?thesis
      proof (cases "enter_RES key ans (flights s\<lparr>ticks := ts\<rparr>)")
        case (Some fl)
        from NextTick [OF jobs Cons [unfolded t] Some] 2(2) [OF jobs Cons t [symmetric] Some] jobs Cons t Some
        show ?thesis by (auto intro: converse_rtranclp_into_rtranclp)
      qed (simp add: jobs Cons t)
    next
      case Nil
      show ?thesis
      proof (cases "operations s = []")
        case False
        from Completed [OF jobs Nil, of 0] 2(1) [OF jobs Nil False] jobs Nil False
        show ?thesis by (auto intro: converse_rtranclp_into_rtranclp)
      qed (simp add: jobs Nil)
    qed
  qed
qed simp

definition plain_async :: async_env where
  "plain_async =
     \<lparr>env = globstar_env, hostOf = literal_host, fsOf = small_fs, realpathOf = (\<lambda>_. Inl False),
      compareOf = (\<lambda>_ _. 0), realpathOption = False\<rparr>"

theorem async_accounts_witness:
  "processing (forward 9 plain_async (new_glob plain_async False fresh_state)) =
     owed (forward 9 plain_async (new_glob plain_async False fresh_state)) \<and>
   0 < processing (forward 9 plain_async (new_glob plain_async False fresh_state))"
proof -
  have "\<not> aborted (forward 9 plain_async (new_glob plain_async False fresh_state))"
    "0 < processing (forward 9 plain_async (new_glob plain_async False fresh_state))"
    by code_simp+
  moreover have "mm_set (g_minimatch (env plain_async)) \<noteq> []" by (simp add: plain_async_def globstar_env_def)
  ultimately show ?thesis using async_accounts [OF _ forward_steps] by blast
qed



end
