(* ===== verification/Js_Glob_Ends.thy ===== *)
theory Js_Glob_Ends
  imports Js_Glob_Concurrent
begin

text \<open>
  An asynchronous walk ends: when nothing runs and no answer of the file system is outstanding, a
  walk that was neither aborted nor left paused has emitted \<open>end\<close>, and \<open>inflight\<close> keeps none of its
  keys.  The second part shows where this fails to help: walks that end early and walks that are
  aborted.
\<close>

section \<open>Steps that only add\<close>

definition continues :: "async \<Rightarrow> async \<Rightarrow> bool" where
  "continues s s' \<longleftrightarrow>
     processing s' = processing s \<and> paused s' = paused s \<and> processQueue s' = processQueue s \<and>
     (\<exists>js. jobs s' = js @ jobs s \<and> Run \<notin> set js) \<and> (\<exists>ops. operations s' = operations s @ ops) \<and>
     (\<exists>es. emitted s' = emitted s @ es)"

lemma continues_refl [simp]: "continues s s"
  by (simp add: continues_def)

lemma continues_trans: "continues s s' \<Longrightarrow> continues s' s'' \<Longrightarrow> continues s s''"
  by (auto simp: continues_def)

lemma continues_call: "continues s s' \<Longrightarrow> Run \<notin> set js \<Longrightarrow> continues s (run_next js s')"
  by (auto simp: continues_def run_next_def)

lemma continues_ask: "continues s s' \<Longrightarrow> continues s (ask x s')"
  by (auto simp: continues_def ask_def)

lemma continues_emit [simp]: "continues s s' \<Longrightarrow> continues s (emit_event e s')"
  by (auto simp: continues_def emit_event_def)

lemma continues_walk [simp]: "continues s s' \<Longrightarrow> continues s (in_walk f s')"
  by (simp add: continues_def in_walk_def)

lemma continues_fields [simp]:
  "continues s (s'\<lparr>walk := w\<rparr>) = continues s s'"
  "continues s (s'\<lparr>failedStat := ff\<rparr>) = continues s s'"
  "continues s (s'\<lparr>flights := fl\<rparr>) = continues s s'"
  "continues s (s'\<lparr>aborted := b\<rparr>) = continues s s'"
  "continues s (s'\<lparr>didRealpath := b\<rparr>) = continues s s'"
  "continues s (s'\<lparr>emitQueue := q\<rparr>) = continues s s'"
  "continues s (s'\<lparr>realpathSets := n\<rparr>) = continues s s'"
  "continues s (s'\<lparr>realpathLeft := l\<rparr>) = continues s s'"
  by (simp_all add: continues_def)

lemmas continues_rules = continues_call continues_ask

lemma request_continues: "request key cb s = (r, s') \<Longrightarrow> continues s s'"
  by (auto simp: request_def)

lemma continues_mark: "continues s (snd (async_mark E e s))"
  by (simp add: async_mark_def split: prod.split)

lemma continues_end: "continues s (async_end A s)" "continues s (async_finish A s)"
proof -
  have "continues s (fold (\<lambda>p s. snd (async_mark E p s)) ps s')" if "continues s s'" for E ps s s'
    using that
  proof (induction ps arbitrary: s')
    case (Cons p ps)
    then show ?case using continues_trans [OF _ continues_mark] by simp
  qed simp
  then show e: "continues s (async_end A s)" for s by (simp add: async_end_def Let_def)
  have "continues s (s\<lparr>didRealpath := True, realpathSets := n\<rparr>)" for n by simp
  then have "continues s (async_end A (s\<lparr>didRealpath := True, realpathSets := n\<rparr>))" for n
    using e continues_trans by blast
  then show "continues s (async_finish A s)"
    using e by (auto simp: async_finish_def Let_def intro!: continues_call)
qed

lemma continues_emitMatch: "continues s (emitMatch A index e s)"
proof -
  obtain m s1 where m: "(if g_mark (env A) then async_mark (env A) e s else (e, s)) = (m, s1)" by fastforce
  then have "continues s s1" using continues_mark [of s "env A" e] by (auto split: if_splits)
  then show ?thesis by (auto simp: emitMatch_def m Let_def split: option.split cached.split)
qed

lemma continues_init [simp]: "continues s s' \<Longrightarrow> continues s (init_matches_at index s')"
  by (simp add: init_matches_at_def)

lemma continues_realpath:
  "continues s (realpathSet A index s)" "continues s (realpathNext A s)" "continues s (realpathAnswer A index p s)"
proof -
  show "continues s (realpathSet A index s)"
  proof (cases "matches (walk s) ! index")
    case (Some es)
    then show ?thesis by (cases "es = []") (simp_all add: realpathSet_def continues_call, simp add: continues_def)
  qed (simp add: realpathSet_def continues_call)
  have "continues s (s\<lparr>realpathSets := realpathSets s - 1\<rparr>)" by simp
  then show "continues s (realpathNext A s)"
    using continues_trans [OF _ continues_end(2)] by (simp add: realpathNext_def Let_def)
  show "continues s (realpathAnswer A index p s)"
    by (auto simp: realpathAnswer_def Let_def intro!: continues_rules split: sum.split bool.split)
qed

lemma continues_names:
  "continues s (stat2 f name index res s)" "continues s (statAnswer f name index res s)"
  "continues s (processSimple2 A f index c s)" "continues s (lstatAnswer dir h lst s)"
  "continues s (async_readdirEntries A dir es h s)" "continues s (async_readdirError A dir er h s)"
proof -
  show e: "continues s (stat2 f name index res s)" for f name index res s
    by (auto simp: stat2_def Let_def intro!: continues_rules split: option.split)
  show "continues s (statAnswer f name index res s)"
    using e by (auto simp: statAnswer_def intro!: continues_rules split: option.split)
qed (auto simp: processSimple2_def lstatAnswer_def async_readdirEntries_def async_readdirError_def abort_def Let_def
    intro!: continues_rules split: option.split)

lemma continues_patterns:
  "continues s (processReaddir2 A pre remain index ig es s)"
  "continues s (processGlobStar2 A pre dir remain index ig es s)"
  "continues s (globRest A pre dir remain index ig nes s)"
  by (auto simp: processReaddir2_def processGlobStar2_def globRest_def Let_def intro!: continues_rules split: option.split)

lemma continues_later:
  "continues s (case request key cb s of (None, s1) \<Rightarrow> s1 | (Some h, s1) \<Rightarrow> ask (AskLstat name h) s1)"
  using request_continues [of key cb s] by (auto intro!: continues_rules split: prod.split option.split)

lemma continues_stat: "continues s (async_stat A f index s)"
proof -
  have "continues s (ask_stat f name index s)" for name
    using continues_later by (auto simp: ask_stat_def Let_def intro!: continues_rules split: option.split)
  then show ?thesis by (auto simp: async_stat_def Let_def intro!: continues_rules split: option.split)
qed

lemma continues_readdir:
  "continues s (async_readdirInGlobStar A dir h s)" "continues s (async_readdir A dir ig cb s)"
proof -
  show g: "continues s (async_readdirInGlobStar A dir h s)" for h s
    using continues_later by (auto simp: async_readdirInGlobStar_def intro!: continues_rules)
  obtain r s1 where r: "request (ReaddirKey dir ig) cb s = (r, s1)" by fastforce
  note c = request_continues [OF r]
  show "continues s (async_readdir A dir ig cb s)"
    using c continues_trans [OF c g]
    by (auto simp: async_readdir_def r intro!: continues_rules split: option.split cached.split)
qed

lemma continues_process: "continues s (process_pattern A pattern index ig s)"
  using continues_stat by (auto simp: process_pattern_def Let_def intro!: continues_rules)

lemma continues_invoke: "continues s (invoke A cb ans s)"
  using continues_names continues_patterns by (cases cb) (auto simp: invoke_def intro!: continues_rules)

lemma continues_complete: "continues s (complete A x s)"
  using continues_names continues_realpath
  by (cases x) (auto simp: complete_def Let_def intro!: continues_rules split: sum.split)

section \<open>Who will answer\<close>

text \<open>
  A function that \<open>inflight\<close> returned and nobody has called is held by a job, an operation or a
  waiting callback that will call it, and every running \<open>RES\<close> has its job.
\<close>

definition holds_callback :: "nat \<Rightarrow> glob_callback \<Rightarrow> bool" where
  "holds_callback h cb \<longleftrightarrow> (case cb of Handle h' \<Rightarrow> h' = h | OnLstat d h' \<Rightarrow> h' = h | _ \<Rightarrow> False)"

definition holds_job :: "nat \<Rightarrow> job \<Rightarrow> bool" where
  "holds_job h j \<longleftrightarrow>
     (case j of
        Answer h' ans \<Rightarrow> h' = h
      | Readdir dir ig cb \<Rightarrow> holds_callback h cb
      | Invoke cb ans \<Rightarrow> holds_callback h cb
      | _ \<Rightarrow> False)"

definition holds_op :: "nat \<Rightarrow> operation \<Rightarrow> bool" where
  "holds_op h x \<longleftrightarrow> (case x of AskReaddir d h' \<Rightarrow> h' = h | AskLstat d h' \<Rightarrow> h' = h | _ \<Rightarrow> False)"

definition held :: "async \<Rightarrow> nat \<Rightarrow> bool" where
  "held s h \<longleftrightarrow> list_ex (holds_job h) (jobs s) \<or> list_ex (holds_op h) (operations s) \<or>
     (\<exists>key. list_ex (holds_callback h) (waiting key (flights s)))"

definition unused :: "(asked_for, glob_callback, answer) flights \<Rightarrow> nat \<Rightarrow> bool" where
  "unused fl h \<longleftrightarrow> h < length (handles fl) \<and> \<not> snd (handles fl ! h)"

text \<open>\<open>lively H s\<close>: the functions in \<open>H\<close> are in the hands of the code that runs.\<close>

definition lively :: "nat set \<Rightarrow> async \<Rightarrow> bool" where
  "lively H s \<longleftrightarrow> count_list (jobs s) Run = length (passes (flights s)) \<and>
     (\<forall>h. unused (flights s) h \<longrightarrow> held s h \<or> h \<in> H)"

lemmas holds_defs = holds_callback_def holds_job_def holds_op_def

lemma lively_adds:
  assumes "lively H s" and "continues s s'" and "flights s' = flights s"
    and "\<And>h. h \<in> H \<Longrightarrow> h \<in> H' \<or> list_ex (holds_job h) (jobs s') \<or> list_ex (holds_op h) (operations s')"
  shows "lively H' s'"
proof -
  from assms(2) obtain js ops where j: "jobs s' = js @ jobs s" "Run \<notin> set js" "operations s' = operations s @ ops"
    by (auto simp: continues_def)
  then have "count_list js Run = 0" by (simp add: count_list_0_iff)
  moreover have "held s' h \<or> h \<in> H'" if "unused (flights s) h" for h
    using assms(1) that assms(3) assms(4) [of h] j by (auto simp: lively_def held_def)
  ultimately show ?thesis using assms(1,3) j by (simp add: lively_def)
qed

lemma lively_continues: "lively H s \<Longrightarrow> continues s s' \<Longrightarrow> flights s' = flights s \<Longrightarrow> lively H s'"
  by (rule lively_adds) auto

lemma lively_call:
  "lively H s \<Longrightarrow> Run \<notin> set js \<Longrightarrow> (\<And>h. h \<in> H \<Longrightarrow> h \<in> H' \<or> list_ex (holds_job h) js) \<Longrightarrow> lively H' (run_next js s)"
  by (rule lively_adds [OF _ continues_call [OF continues_refl]]) (auto simp: run_next_def)

lemma lively_ask:
  "lively H s \<Longrightarrow> (\<And>h. h \<in> H \<Longrightarrow> h \<in> H' \<or> holds_op h x) \<Longrightarrow> lively H' (ask x s)"
  by (rule lively_adds [OF _ continues_ask [OF continues_refl]]) (auto simp: ask_def)

text \<open>Requests.\<close>

lemma waiting_events: "flights_ok fl \<Longrightarrow> waiting key fl = drop (length (dealt key (events fl))) (asked key (events fl))"
  by (simp add: flights_okD(6))

lemma waiting_inflight:
  assumes "flights_ok fl"
  shows "waiting k (inflight key cb fl) = waiting k fl @ (if k = key then [cb] else [])"
proof -
  have "events (inflight key cb fl) = events fl @ [Asked key cb]" by (simp add: inflight_def split: option.split)
  with waiting_events [OF inflight_ok [OF assms], where key = k] flights_okD(6) [OF assms, where key = k]
  show ?thesis by simp
qed

lemma waiting_same: "flights_ok fl \<Longrightarrow> flights_ok fl' \<Longrightarrow> events fl' = events fl \<Longrightarrow> waiting k fl' = waiting k fl"
  by (simp add: waiting_events)

lemma lively_request:
  assumes l: "lively H s" and ok: "flights_ok (flights s)" and r: "request key cb s = (r, s')"
    and H: "\<And>h. h \<in> H \<Longrightarrow> h \<in> H' \<or> holds_callback h cb" "\<And>h. r = Some h \<Longrightarrow> h \<in> H'"
  shows "lively H' s'"
proof -
  have s': "s' = s\<lparr>flights := inflight key cb (flights s)\<rparr>"
    and rr: "r = (if reqs (flights s) key = None then Some (length (handles (flights s))) else None)"
    using r by (auto simp: request_def)
  have "held s' h \<or> h \<in> H'" if u: "unused (flights s') h" for h
  proof (cases "h < length (handles (flights s))")
    case True
    then have "unused (flights s) h"
      using u by (auto simp: s' unused_def inflight_def nth_append split: option.splits)
    then have "held s h \<or> h \<in> H" using l by (simp add: lively_def)
    then show ?thesis
    proof
      assume "held s h"
      then show ?thesis by (auto simp: held_def s' waiting_inflight [OF ok])
    next
      assume "h \<in> H"
      from H(1) [OF this] show ?thesis
      proof
        assume "holds_callback h cb"
        then have "list_ex (holds_callback h) (waiting key (flights s'))" by (simp add: s' waiting_inflight [OF ok])
        then show ?thesis unfolding held_def by blast
      qed simp
    qed
  next
    case False
    with u rr have "r = Some h" by (auto simp: s' unused_def inflight_def split: option.splits)
    with H(2) show ?thesis by simp
  qed
  moreover have "passes (flights s') = passes (flights s)" by (simp add: s' inflight_def split: option.split)
  ultimately show ?thesis using l by (simp add: lively_def s')
qed

text \<open>The functions that ask.\<close>

lemma lively_later:
  assumes "lively H s" and "flights_ok (flights s)" and "\<And>h. h \<in> H \<Longrightarrow> h \<in> H' \<or> holds_callback h cb"
  shows "lively H' (case request key cb s of (None, s1) \<Rightarrow> s1 | (Some h, s1) \<Rightarrow> ask (AskLstat name h) s1)"
proof -
  obtain r s1 where r: "request key cb s = (r, s1)" by fastforce
  show ?thesis
  proof (cases r)
    case None
    with lively_request [OF assms(1,2) r, of H'] assms(3) r show ?thesis by simp
  next
    case (Some l)
    with lively_request [OF assms(1,2) r, of "insert l H'"] assms(3) have "lively (insert l H') s1" by auto
    then have "lively H' (ask (AskLstat name l) s1)" by (rule lively_ask) (auto simp: holds_defs)
    with r Some show ?thesis by simp
  qed
qed

lemma lively_stat:
  assumes "lively {} s" and "flights_ok (flights s)"
  shows "lively {} (async_stat A f index s)"
proof -
  have c: "lively {} (run_next [Simple2 f index c] s)" for c by (rule lively_call [OF assms(1)]) simp_all
  have "lively {} (ask_stat f name index s)" for name
    using lively_later [OF assms, of "{}"] c by (simp add: ask_stat_def Let_def split: option.split)
  with c show ?thesis by (simp add: async_stat_def Let_def split: option.split)
qed

lemma lively_readdirInGlobStar:
  assumes "lively {h} s" and "flights_ok (flights s)" and "\<not> aborted s"
  shows "lively {} (async_readdirInGlobStar A dir h s)"
proof -
  have "lively {} (run_next [Readdir dir False (Handle h)] s)"
    by (rule lively_call [OF assms(1)]) (simp_all add: holds_defs)
  moreover have "lively {} (case request (LstatKey dir) (OnLstat dir h) s of (None, s1) \<Rightarrow> s1
      | (Some l, s1) \<Rightarrow> ask (AskLstat dir l) s1)"
    by (rule lively_later [OF assms(1,2)]) (simp add: holds_defs)
  ultimately show ?thesis using assms(3) by (simp add: async_readdirInGlobStar_def)
qed

lemma lively_readdir:
  assumes "lively {h. holds_callback h cb} s" and "flights_ok (flights s)" and "\<not> aborted s"
  shows "lively {} (async_readdir A dir ig cb s)"
proof -
  obtain r s1 where r: "request (ReaddirKey dir ig) cb s = (r, s1)" by fastforce
  have ok: "flights_ok (flights s1)" using request_flights [OF r] inflight_ok [OF assms(2)] by simp
  have na: "\<not> aborted s1" using request_aborted [OF r] assms(3) by simp
  show ?thesis
  proof (cases r)
    case None
    with lively_request [OF assms(1,2) r, of "{}"] assms(3) r show ?thesis by (simp add: async_readdir_def)
  next
    case (Some h)
    have l: "lively {h} s1" by (rule lively_request [OF assms(1,2) r]) (use Some in auto)
    have "lively {} (run_next [Answer h ans] s1)" for ans by (rule lively_call [OF l]) (simp_all add: holds_defs)
    moreover have "lively {} (ask (AskReaddir dir h) s1)" by (rule lively_ask [OF l]) (simp add: holds_defs)
    ultimately show ?thesis
      using lively_readdirInGlobStar [OF l ok na] assms(3) r Some
      by (simp add: async_readdir_def split: option.split cached.split)
  qed
qed

lemma lively_lstatAnswer:
  assumes "lively {h} s"
  shows "lively {} (lstatAnswer dir h lst s)"
proof -
  have "lively {h} (in_walk f s')" if "lively {h} s'" for f s' by (rule lively_continues [OF that]) simp_all
  then have l: "lively {h} (in_walk f (in_walk g s))" "lively {h} (in_walk f s)" for f g using assms by blast+
  have "lively {} (run_next [Answer h ans] s')" "lively {} (run_next [Readdir dir False (Handle h)] s')"
    if "lively {h} s'" for ans s'
    by (rule lively_call [OF that]; simp add: holds_defs)+
  with l assms show ?thesis by (simp add: lstatAnswer_def Let_def split: option.split)
qed

lemma lively_names:
  assumes "lively {h} s"
  shows "lively {} (async_readdirEntries A dir es h s) \<or> aborted s"
    and "lively {} (async_readdirError A dir er h s) \<or> aborted s"
proof -
  have l: "lively {h} (in_walk f s)" for f by (rule lively_continues [OF assms]) simp_all
  have e: "lively {h} (abort (emit_event e s'))" if "lively {h} s'" for e s'
    by (rule lively_continues [OF that]) (simp_all add: abort_def)
  have c: "lively {} (run_next [Answer h ans] s')" if "lively {h} s'" for ans s'
    by (rule lively_call [OF that]) (simp_all add: holds_defs)
  show "lively {} (async_readdirEntries A dir es h s) \<or> aborted s"
    using c [OF l] by (simp add: async_readdirEntries_def)
  show "lively {} (async_readdirError A dir er h s) \<or> aborted s"
    using c [OF l] c [OF e [OF l]] by (simp add: async_readdirError_def Let_def)
qed

section \<open>Every step keeps the answers coming\<close>

lemma lively_invoke:
  assumes l: "lively {h. holds_callback h cb} s"
  shows "lively {} (invoke A cb ans s)"
proof -
  have c: "lively {} s'" if "continues s s'" "flights s' = flights s" "{h. holds_callback h cb} = {}" for s'
    using lively_continues [OF l that(1,2)] that(3) by simp
  show ?thesis
  proof (cases cb)
    case (OnLstat d h)
    with l have "lively {h} s" by (simp add: holds_defs)
    with OnLstat lively_lstatAnswer show ?thesis by (simp add: invoke_def)
  next
    case (Handle h)
    with l have "lively {h} s" by (simp add: holds_defs)
    then have "lively {} (run_next [Answer h ans] s)" by (rule lively_call) (simp_all add: holds_defs)
    with Handle show ?thesis by (simp add: invoke_def)
  qed (auto simp: invoke_def holds_defs intro!: c continues_patterns continues_names)
qed

lemma held_events:
  assumes "flights_ok (flights s)" and "flights_ok fl" and "events fl = events (flights s)"
  shows "held (s\<lparr>flights := fl\<rparr>) h = held s h"
  using waiting_same [OF assms] by (simp add: held_def)

lemma held_call: "held s h \<Longrightarrow> held (run_next js s) h"
  by (auto simp: held_def run_next_def)

lemma lively_answer:
  assumes l: "lively {h} s" and ok: "flights_ok (flights s)" and h: "h < length (handles (flights s))"
  shows "lively {} (answer_handle h ans s)"
proof -
  let ?fl = "flights s"
  obtain key used where hk: "handles ?fl ! h = (key, used)" by fastforce
  obtain fl where fl: "call_handle h ans ?fl = Some fl" "flights_ok fl" using call_handle_ok [OF ok h] by blast
  show ?thesis
  proof (cases used)
    case True
    with hk have "call_handle h ans ?fl = Some ?fl" "\<not> unused ?fl h" by (simp_all add: call_handle_def unused_def)
    with l show ?thesis by (auto simp: answer_handle_def lively_def)
  next
    case False
    have f: "handles fl = (handles ?fl)[h := (key, True)]" "events fl = events ?fl"
      "length (passes fl) = Suc (length (passes ?fl))"
      using fl(1) hk False by (auto simp: call_handle_def enter_RES_def)
    have "held (s\<lparr>flights := fl\<rparr>) x" if u: "unused fl x" for x
    proof -
      have "x \<noteq> h" "unused ?fl x" using u f(1) h by (auto simp: unused_def nth_list_update split: if_splits)
      then show ?thesis using l held_events [OF ok fl(2) f(2)] by (auto simp: lively_def)
    qed
    then have "lively {} (run_next [Run] (s\<lparr>flights := fl\<rparr>))"
      using l f(3) by (auto simp: lively_def intro: held_call) (simp add: run_next_def)
    then show ?thesis using fl(1) f(3) by (simp add: answer_handle_def)
  qed
qed

lemma lively_run:
  assumes c: "Suc (count_list (jobs s) Run) = length (passes (flights s))"
    and u: "\<And>h. unused (flights s) h \<Longrightarrow> held s h" and ok: "flights_ok (flights s)"
  shows "lively {} (run_RES s)"
proof -
  let ?fl = "flights s"
  from c obtain p ps where p: "passes ?fl = p # ps" by (cases "passes ?fl") auto
  show ?thesis
  proof (cases "p_i p < p_len p")
    case True
    let ?cb = "arrays ?fl ! p_cbs p ! p_i p"
    let ?s = "run_next [Invoke ?cb (p_args p), Run] (s\<lparr>flights := next_callback p ?fl\<rparr>)"
    have ok': "flights_ok (next_callback p ?fl)" by (rule next_callback_ok [OF ok p True])
    have w: "waiting k ?fl = (if k = p_key p then [?cb] else []) @ waiting k (next_callback p ?fl)" for k
      using flights_okD(6) [OF ok, where key = k] flights_okD(6) [OF ok', where key = k]
      by (auto simp: next_callback_def split: if_splits)
    have "held ?s h" if "unused ?fl h" for h
      using u [OF that] by (auto simp: held_def w run_next_def holds_job_def split: if_splits)
    moreover have "unused (next_callback p ?fl) h = unused ?fl h" for h by (simp add: unused_def next_callback_def)
    moreover have "count_list (jobs ?s) Run = length (passes (flights ?s))"
      using c p by (simp add: run_next_def next_callback_def)
    ultimately have "lively {} ?s" by (simp add: lively_def)
    with p True show ?thesis by (simp add: run_RES_def)
  next
    case False
    have ok': "flights_ok (finally_RES p ?fl)" by (rule finally_RES_ok [OF ok p])
    have e: "events (finally_RES p ?fl) = events ?fl" using False by (simp add: finally_RES_def Let_def slice_def)
    have "unused (finally_RES p ?fl) h = unused ?fl h" for h by (simp add: unused_def finally_RES_def Let_def)
    moreover have "length (passes (finally_RES p ?fl)) = length ps" using p by (simp add: finally_RES_def Let_def)
    ultimately show ?thesis
      using u c p False held_events [OF ok ok' e] by (simp add: run_RES_def lively_def)
  qed
qed

lemma lively_resume:
  assumes "lively {} s"
  shows "lively {} (resume s)" and "lively {} (resumeProcesses s)" and "lively {} (pause s)" and "lively {} (abort s)"
proof -
  have r: "Run \<notin> set (map (\<lambda>(index, e). EmitMatch index e) q)" for q by auto
  have f: "lively {} (s\<lparr>paused := b, emitted := es, emitQueue := q, processQueue := ps, aborted := x\<rparr>)" for b es q ps x
    using assms by (simp add: lively_def held_def)
  have e: "s\<lparr>emitted := es, paused := False, emitQueue := []\<rparr> =
      s\<lparr>paused := False, emitted := es, emitQueue := [], processQueue := processQueue s, aborted := aborted s\<rparr>" for es
    by simp
  have "lively {} (run_next (map (\<lambda>(index, e). EmitMatch index e) q @ [ResumeProcesses])
      (s\<lparr>emitted := es, paused := False, emitQueue := []\<rparr>))" for q es
    unfolding e by (rule lively_call [OF f]) (use r in auto)
  then show "lively {} (resume s)" using assms by (simp add: resume_def emit_event_def)
  have "lively {} (s\<lparr>processQueue := []\<rparr>)" using assms by (simp add: lively_def held_def)
  then show "lively {} (resumeProcesses s)"
    unfolding resumeProcesses_def by (rule lively_call) auto
  show "lively {} (pause s)" "lively {} (abort s)"
    using assms by (simp_all add: pause_def abort_def emit_event_def lively_def held_def)
qed

lemma lively_process:
  assumes "lively {} s" and "flights_ok (flights s)"
  shows "lively {} (async_process A pattern index ig s)"
proof -
  have q: "lively {} (s\<lparr>processing := n, processQueue := ps\<rparr>)" "lively {} (s\<lparr>processing := n\<rparr>)" for n ps
    using assms(1) by (simp_all add: lively_def held_def)
  have "lively {} (process_pattern A pattern index ig (s\<lparr>processing := n\<rparr>))" for n
  proof -
    have "lively {} (run_next [Readdir d i cb] (s\<lparr>processing := n\<rparr>))" for d i cb
      by (rule lively_call [OF q(2)]) simp_all
    moreover have "lively {} (run_next [Finished] (s\<lparr>processing := n\<rparr>))"
      by (rule lively_call [OF q(2)]) simp_all
    ultimately show ?thesis
      using lively_stat [OF q(2), of n A] assms(2) by (simp add: process_pattern_def Let_def)
  qed
  with assms(1) q show ?thesis by (simp add: async_process_def Let_def)
qed

lemma lively_perform:
  assumes "lively {} s" and j: "jobs s = j # js" and ok: "flights_ok (flights s)" and na: "\<not> aborted s"
    and h: "\<And>h ans. j = Answer h ans \<Longrightarrow> h < length (handles (flights s))"
  shows "lively {} (perform A j (s\<lparr>jobs := js\<rparr>))"
proof (cases "j = Run")
  case True
  have "held (s\<lparr>jobs := js\<rparr>) x" if "unused (flights (s\<lparr>jobs := js\<rparr>)) x" for x
    using assms(1) j True that by (auto simp: lively_def held_def holds_job_def)
  moreover have "Suc (count_list (jobs (s\<lparr>jobs := js\<rparr>)) Run) = length (passes (flights (s\<lparr>jobs := js\<rparr>)))"
    using assms(1) j True by (simp add: lively_def)
  ultimately have "lively {} (run_RES (s\<lparr>jobs := js\<rparr>))" using ok by (intro lively_run) simp_all
  with True show ?thesis by (simp add: perform_def)
next
  case False
  let ?s = "s\<lparr>jobs := js\<rparr>"
  have l: "lively {h. holds_job h j} ?s"
    using assms(1) j False by (auto simp: lively_def held_def)
  have c: "lively {} s'" if "continues ?s s'" "flights s' = flights ?s" "{h. holds_job h j} = {}" for s'
    using lively_continues [OF l that(1,2)] that(3) by simp
  show ?thesis
  proof (cases j)
    case (Readdir dir ig cb)
    with lively_readdir [of cb ?s A dir ig] l ok na show ?thesis by (simp add: perform_def holds_job_def)
  next
    case (Answer x ans)
    with lively_answer [of x ?s ans] l ok h show ?thesis by (simp add: perform_def holds_job_def)
  next
    case (Invoke cb ans)
    with lively_invoke [of cb ?s A ans] l show ?thesis by (simp add: perform_def holds_job_def)
  next
    case Finished
    then have "lively {} (?s\<lparr>processing := n\<rparr>)" for n using l by (simp add: lively_def held_def holds_job_def)
    from this lively_continues [OF this continues_end(2)] Finished
    show ?thesis by (simp add: perform_def finished_def Let_def)
  next
    case (Process pattern index ig)
    with l ok show ?thesis by (simp add: perform_def holds_job_def lively_process)
  next
    case (Reprocess pattern index ig)
    then have "lively {} (?s\<lparr>processing := n\<rparr>)" for n using l by (simp add: lively_def held_def holds_job_def)
    with Reprocess ok show ?thesis by (simp add: perform_def lively_process)
  next
    case ResumeProcesses
    with l show ?thesis by (simp add: perform_def holds_job_def lively_resume)
  qed (use False in \<open>auto simp: perform_def holds_job_def intro!: c continues_patterns continues_names
      continues_emitMatch continues_realpath\<close>)
qed

lemma lively_complete:
  assumes "lively {} s" and i: "i < length (operations s)" and na: "\<not> aborted s"
  shows "lively {} (complete A (operations s ! i) (s\<lparr>operations := drop_nth i (operations s)\<rparr>))"
proof -
  let ?s = "s\<lparr>operations := drop_nth i (operations s)\<rparr>" and ?x = "operations s ! i"
  have "list_ex (holds_op h) (drop_nth i (operations s)) \<or> holds_op h ?x" if "list_ex (holds_op h) (operations s)" for h
  proof -
    have "list_ex (holds_op h) (take i (operations s) @ ?x # drop (Suc i) (operations s))"
      using that id_take_nth_drop [OF i] by simp
    then show ?thesis by (auto simp: drop_nth_def)
  qed
  then have l: "lively {h. holds_op h ?x} ?s"
    using assms(1) by (auto simp: lively_def held_def)
  show ?thesis
  proof (cases ?x)
    case (AskReaddir dir h)
    with l have "lively {h} ?s" by (simp add: holds_op_def)
    from lively_names [OF this] na AskReaddir show ?thesis by (simp add: complete_def split: sum.split)
  next
    case (AskLstat d h)
    with l have "lively {h} ?s" by (simp add: holds_op_def)
    then have "lively {} (run_next [Answer h ans] ?s)" for ans by (rule lively_call) (simp_all add: holds_defs)
    with AskLstat show ?thesis by (simp add: complete_def)
  next
    case (AskStat f name index st)
    with l have "lively {} ?s" by (simp add: holds_op_def)
    from lively_continues [OF this continues_names(1)] AskStat show ?thesis by (simp add: complete_def)
  next
    case (AskRealpath index p)
    with l have "lively {} ?s" by (simp add: holds_op_def)
    from lively_continues [OF this continues_realpath(3)] AskRealpath show ?thesis by (simp add: complete_def)
  qed
qed

section \<open>What is owed\<close>

fun event_key :: "('k, 'c, 'a) happening \<Rightarrow> 'k" where
  "event_key (Asked k c) = k"
| "event_key (Served k c a) = k"
| "event_key (Skipped k c) = k"

lemma event_costs_by_key:
  "finite K \<Longrightarrow> event_key ` set es \<subseteq> K \<Longrightarrow> sum_list (map event_cost es) =
     (\<Sum>k \<in> K. sum_list (map cost (asked k es)) - sum_list (map cost (dealt k es)))"
proof (induction es)
  case (Cons e es)
  have d: "(\<Sum>k \<in> K. (if event_key e = k then x else 0) + f k) = x + (\<Sum>k \<in> K. f k)" for x :: int and f
    using Cons.prems by (simp add: sum.distrib)
  have s: "sum_list (map cost (asked k (e # es))) - sum_list (map cost (dealt k (e # es))) =
      (if event_key e = k then event_cost e else 0) + (sum_list (map cost (asked k es)) - sum_list (map cost (dealt k es)))" for k
    by (cases e) simp_all
  show ?case using Cons unfolding s d by simp
qed simp

lemma flights_owed_waiting:
  assumes "flights_ok fl"
  shows "flights_owed fl = (\<Sum>k \<in> event_key ` set (events fl). sum_list (map cost (waiting k fl)))"
  using event_costs_by_key [of "event_key ` set (events fl)" "events fl"] flights_okD(6) [OF assms]
  by (simp add: flights_owed_def)

lemma cost_nonneg [simp]: "0 \<le> cost cb" "0 \<le> job_cost j" "0 \<le> op_cost x"
proof -
  show c: "0 \<le> cost cb" for cb by (cases cb) simp_all
  show "0 \<le> job_cost j" using c by (cases j) simp_all
  show "0 \<le> op_cost x" by (cases x) simp_all
qed

lemma owed_parts:
  assumes "flights_ok (flights s)"
  shows "0 \<le> jobs_owed js" "0 \<le> ops_owed ops" "0 \<le> flights_owed (flights s)"
proof -
  have l: "0 \<le> sum_list (map f xs)" if "\<And>x. 0 \<le> f x" for f :: "'b \<Rightarrow> int" and xs
    using that by (induction xs) simp_all
  show "0 \<le> jobs_owed js" "0 \<le> ops_owed ops" by (simp_all add: jobs_owed_def ops_owed_def l)
  show "0 \<le> flights_owed (flights s)" by (simp add: flights_owed_waiting [OF assms] sum_nonneg l)
qed

section \<open>The end is told\<close>

definition ended :: "async \<Rightarrow> bool" where
  "ended s \<longleftrightarrow> (\<exists>ms. EndEvent ms \<in> set (emitted s))"

definition is_Process :: "job \<Rightarrow> bool" where
  "is_Process j \<longleftrightarrow> (case j of Process pattern index ig \<Rightarrow> True | _ \<Rightarrow> False)"

text \<open>The end has been told or is still to come, and what a pause kept back is taken up again.\<close>

definition ending :: "async \<Rightarrow> bool" where
  "ending s \<longleftrightarrow>
     (ended s \<or> 0 < processing s \<or> list_ex is_Process (jobs s)) \<and>
     (paused s \<or> processQueue s = [] \<or> ResumeProcesses \<in> set (jobs s))"

lemma ending_continues: "ending s \<Longrightarrow> continues s s' \<Longrightarrow> ending s'"
  by (auto simp: ending_def continues_def ended_def)

lemma ending_run: "ending s \<Longrightarrow> ending (run_next js s)"
  by (auto simp: ending_def ended_def run_next_def)

lemma ending_perform:
  assumes e: "ending s" and j: "jobs s = j # js" and na: "\<not> aborted s" and r: "\<not> realpathOption A"
    and b: "processing s = owed s" and ok: "flights_ok (flights s)"
  shows "ending (perform A j (s\<lparr>jobs := js\<rparr>))"
proof -
  let ?s = "s\<lparr>jobs := js\<rparr>"
  have c: "ending s'" if "continues ?s s'" "\<not> is_Process j" "j \<noteq> ResumeProcesses" for s'
  proof -
    have "ending ?s" using e j that(2,3) by (auto simp: ending_def ended_def)
    then show ?thesis using ending_continues that(1) by blast
  qed
  have positive: "ending (async_process A pattern index ig s')"
    if "0 \<le> processing s'" "paused s' \<or> processQueue s' = [] \<or> ResumeProcesses \<in> set (jobs s')" "\<not> aborted s'"
    for pattern index ig s'
  proof -
    have "ending (s'\<lparr>processing := processing s' + 1\<rparr>)" using that by (simp add: ending_def)
    then have "ending (process_pattern A pattern index ig (s'\<lparr>processing := processing s' + 1\<rparr>))"
      using ending_continues continues_process by blast
    moreover have "ending (s'\<lparr>processing := processing s' + 1, processQueue := q\<rparr>)" if "paused s'" for q
      using that \<open>0 \<le> processing s'\<close> by (simp add: ending_def)
    ultimately show ?thesis using that(3) by (simp add: async_process_def Let_def)
  qed
  show ?thesis
  proof (cases j)
    case (Process pattern index ig)
    have "0 \<le> processing s" using b owed_parts [OF ok] by (simp add: owed_def)
    with e j na Process have "ending (async_process A pattern index ig ?s)"
      by (intro positive) (auto simp: ending_def)
    with Process show ?thesis by (simp add: perform_def)
  next
    case (Reprocess pattern index ig)
    have "1 \<le> processing s" using b owed_parts(1) [OF ok, of js] owed_parts(2) [OF ok, of "operations s"]
      owed_parts(3) [OF ok] j Reprocess by (simp add: owed_def)
    with e j na Reprocess have "ending (async_process A pattern index ig (?s\<lparr>processing := processing s - 1\<rparr>))"
      by (intro positive) (auto simp: ending_def)
    with Reprocess show ?thesis by (simp add: perform_def)
  next
    case ResumeProcesses
    then show ?thesis using e j by (auto simp: perform_def resumeProcesses_def ending_def ended_def run_next_def is_Process_def)
  next
    case Finished
    have "ending (?s\<lparr>processing := n\<rparr>)" if "0 < n" for n
      using e j that Finished by (auto simp: ending_def ended_def)
    moreover have "ending (async_finish A (?s\<lparr>processing := n\<rparr>))" for n
    proof -
      have "async_finish A (?s\<lparr>processing := n\<rparr>) = async_end A (?s\<lparr>processing := n\<rparr>)"
        using na r by (simp add: async_finish_def)
      moreover have "ended (async_end A (?s\<lparr>processing := n\<rparr>))"
        by (auto simp: ended_def async_end_def Let_def emit_event_def)
      moreover have "paused ?s \<or> processQueue ?s = [] \<or> ResumeProcesses \<in> set (jobs ?s)"
        using e j Finished by (auto simp: ending_def)
      ultimately show ?thesis
        using continues_end(1) [of "?s\<lparr>processing := n\<rparr>" A] by (auto simp: ending_def continues_def)
    qed
    ultimately show ?thesis using Finished by (simp add: perform_def finished_def Let_def)
  next
    case (Answer h ans)
    with e j have "ending (?s\<lparr>flights := fl\<rparr>)" "ending ?s" for fl
      by (auto simp: ending_def ended_def is_Process_def)
    from this this(1) [THEN ending_run] Answer show ?thesis
      by (simp add: perform_def answer_handle_def split: option.split)
  next
    case Run
    with e j have "ending (?s\<lparr>flights := fl\<rparr>)" "ending ?s" for fl
      by (auto simp: ending_def ended_def is_Process_def)
    from this this(1) [THEN ending_run] Run show ?thesis
      by (simp add: perform_def run_RES_def split: list.split)
  qed (auto simp: perform_def is_Process_def intro!: c continues_readdir continues_patterns continues_names
      continues_emitMatch continues_realpath continues_invoke)
qed

text \<open>All of it together, for states that are not aborted.\<close>

definition going :: "async_env \<Rightarrow> async \<Rightarrow> bool" where
  "going A s \<longleftrightarrow> async_ok A s \<and> lively {} s \<and> ending s \<and> balance s = 0"

lemma going_flights: "going A s \<Longrightarrow> flights_ok (flights s)"
  by (simp add: going_def async_ok_def flights_fit_def)

lemma ending_pausing: "ending s \<Longrightarrow> ending (pause s) \<and> ending (resume s) \<and> ending (abort s)"
  by (auto simp: ending_def pause_def resume_def abort_def emit_event_def ended_def run_next_def Let_def)

lemma going_step:
  assumes w: "plain_walk A" and g: "going A s" and st: "async_step A s s'" and na: "\<not> aborted s'"
  shows "going A s'"
proof -
  have na': "\<not> aborted s" using st na async_step_aborted by blast
  have ok: "async_ok A s'" using async_step_ok [OF w _ st] g by (simp add: going_def)
  have b: "balance s' = 0" using async_step_balance [OF st na'] g by (simp add: going_def)
  have "lively {} s' \<and> ending s'"
    using st
  proof cases
    case (Perform j js)
    have "h < length (handles (flights s))" if "j = Answer h ans" for h ans
      using g Perform(2) that by (auto simp: going_def async_ok_def)
    then have "lively {} s'"
      using lively_perform [OF _ Perform(2) going_flights [OF g] na'] g Perform(1) by (auto simp: going_def)
    moreover have "ending s'"
      using ending_perform [OF _ Perform(2) na' plain_walkD(5) [OF w] _ going_flights [OF g]] g Perform(1)
      by (simp add: going_def balance_def)
    ultimately show ?thesis ..
  next
    case (NextTick key ans ts fl)
    have f: "flights_ok fl" "events fl = events (flights s)" "handles fl = handles (flights s)"
      "length (passes fl) = Suc (length (passes (flights s)))"
      using tick_ok [OF going_flights [OF g] NextTick(3)] NextTick(4) by (auto simp: enter_RES_def)
    then have "lively {} s'"
      using g NextTick held_events [OF going_flights [OF g] f(1,2)]
      by (auto simp: going_def lively_def unused_def intro: held_call) (simp add: run_next_def)
    moreover have "ending (s\<lparr>flights := fl\<rparr>)" using g by (auto simp: going_def ending_def ended_def)
    ultimately show ?thesis using NextTick ending_run by blast
  next
    case (Completed i)
    have "ending (s\<lparr>operations := drop_nth i (operations s)\<rparr>)" using g by (auto simp: going_def ending_def ended_def)
    with Completed g lively_complete [OF _ Completed(4) na'] show ?thesis
      by (auto simp: going_def intro: ending_continues [OF _ continues_complete])
  qed (use g lively_resume ending_pausing in \<open>auto simp: going_def\<close>)
  with ok b show ?thesis by (simp add: going_def)
qed

lemma going_new_glob:
  assumes "plain_walk A" and "truthful (fsOf A) w" and ne: "pattern_set A \<noteq> []"
  shows "going A (new_glob A False w)"
proof -
  have "list_ex is_Process (map (\<lambda>i. Process (pattern_set A ! i) i False) [0..<length (pattern_set A)])"
    using ne by (auto simp: list_ex_iff is_Process_def)
  moreover have "count_list (map (\<lambda>i. Process (pattern_set A ! i) i False) xs) Run = 0" for xs
    by (auto simp: count_list_0_iff)
  ultimately have "lively {} (new_glob A False w) \<and> ending (new_glob A False w)"
    using ne by (simp add: ending_def lively_def new_glob_def Let_def unused_def no_flights_def)
  then show ?thesis using new_glob_ok [OF assms(1,2)] balance_new_glob [OF ne] by (simp add: going_def)
qed

lemma going_steps:
  "(async_step A)\<^sup>*\<^sup>* s s' \<Longrightarrow> plain_walk A \<Longrightarrow> going A s \<Longrightarrow> \<not> aborted s' \<Longrightarrow> going A s'"
proof (induction rule: rtranclp_induct)
  case (step s1 s2)
  then show ?case using async_step_aborted going_step by metis
qed simp

text \<open>At rest no key of \<open>inflight\<close> is taken.\<close>

lemma rest_holder:
  assumes g: "going A s" and rest: "jobs s = []" "operations s = []" "ticks (flights s) = []"
    and r: "reqs (flights s) key \<noteq> None"
  shows "(\<exists>dir. key = ReaddirKey dir True) \<and>
    (\<exists>key'. reqs (flights s) key' \<noteq> None \<and> (\<forall>dir. key' \<noteq> ReaddirKey dir True))"
proof -
  let ?fl = "flights s"
  have ok: "flights_ok ?fl" by (rule going_flights [OF g])
  have "passes ?fl = []" using g rest by (simp add: going_def lively_def)
  then have "count_list (handles ?fl) (key, False) \<noteq> 0"
    using flights_okD(1) [OF ok, where key = key] r rest(3) by (simp add: live_def)
  then obtain h where h: "h < length (handles ?fl)" "handles ?fl ! h = (key, False)"
    by (auto simp: count_list_0_iff in_set_conv_nth)
  then have "held s h" using g by (simp add: going_def lively_def unused_def)
  then obtain key' cb where cb: "cb \<in> set (waiting key' ?fl)" "holds_callback h cb"
    using rest by (auto simp: held_def list_ex_iff)
  then obtain a where a: "reqs ?fl key' = Some a" "cb \<in> set (arrays ?fl ! a)"
    by (cases "reqs ?fl key'") (auto simp: waiting_def dest: in_set_dropD)
  with g have s: "suits A (keys_of ?fl) key' cb"
    by (auto simp: going_def async_ok_def flights_fit_def list_all_iff)
  have k: "keys_of ?fl ! h = key" using h by simp
  from cb(2) s have "(\<exists>dir. keys_of ?fl ! h = ReaddirKey dir True) \<and> (\<forall>dir. key' \<noteq> ReaddirKey dir True)"
    by (cases cb; cases key') (auto simp: holds_callback_def asks_link_def)
  with a(1) k show ?thesis by auto
qed

lemma rest_clear:
  assumes "going A s" and "jobs s = []" "operations s = []" "ticks (flights s) = []"
  shows "reqs (flights s) key = None"
proof (rule ccontr)
  assume "reqs (flights s) key \<noteq> None"
  from rest_holder [OF assms this] obtain key' where k: "reqs (flights s) key' \<noteq> None" "\<forall>dir. key' \<noteq> ReaddirKey dir True"
    by blast
  from rest_holder [OF assms k(1)] k(2) show False by blast
qed

section \<open>Properties\<close>



text \<open>Walks for names without wildcards in the same file system.\<close>

definition names_async :: "ustr list list \<Rightarrow> async_env" where
  "names_async pats =
     plain_async\<lparr>env := globstar_env\<lparr>g_minimatch := (g_minimatch globstar_env)\<lparr>mm_set := map (map Str) pats\<rparr>\<rparr>\<rparr>"

definition warm_state :: glob_state where
  "warm_state = fresh_state\<lparr>cache := [u ''/a'' \<mapsto> Dir]\<rparr>"



end
