(* ===== verification/Js_Glob_Total.thy ===== *)
theory Js_Glob_Total
  imports Js_Glob_Walk
begin

text \<open>
  Termination of the synchronous walk of \<open>glob\<close>.  The recursion of \<open>_process\<close> consumes a portion
  of the pattern or, below a globstar, a level of the directory tree.  Where no directory has more
  than \<open>R\<close> levels below it the depth of the recursion is at most \<open>R + 1\<close> for each portion that is
  no string, and one more for the strings that remain at the end.
\<close>

section \<open>File systems of bounded depth\<close>

text \<open>\<open>shallow F R p\<close>: below \<open>p\<close> there are at most \<open>R\<close> levels of directories.\<close>

fun shallow :: "fs \<Rightarrow> nat \<Rightarrow> ustr \<Rightarrow> bool" where
  "shallow F 0 p \<longleftrightarrow> names_in F p = []"
| "shallow F (Suc R) p \<longleftrightarrow>
     (\<forall>e \<in> set (names_in F p). e \<noteq> dot \<and> e \<noteq> dotdot \<and> shallow F R (child p e))"

definition magic_portions :: "parsed list \<Rightarrow> nat" where
  "magic_portions ps = length (filter (\<lambda>p. \<not> is_string p) ps)"

lemma magic_portions_simps [simp]:
  "magic_portions [] = 0"
  "magic_portions (Str s # ps) = magic_portions ps"
  "magic_portions (Globstar # ps) = Suc (magic_portions ps)"
  "magic_portions (Re a b g # ps) = Suc (magic_portions ps)"
  "magic_portions (ps @ qs) = magic_portions ps + magic_portions qs"
  "magic_portions (prefix_list pre) = 0"
  by (simp_all add: magic_portions_def prefix_list_def split: option.splits)

lemma magic_portions_strings [simp]: "magic_portions (map Str ss) = 0"
  by (simp add: magic_portions_def)

section \<open>The directory a prefix names\<close>

lemma normalizeArray_snoc:
  "e \<noteq> dot \<Longrightarrow> e \<noteq> dotdot \<Longrightarrow> normalizeArray (ps @ [e]) False = normalizeArray ps False @ [e]"
  by (simp add: normalizeArray_stack path_stack_def path_step_def)

lemma join_snoc:
  "xs \<noteq> [] \<Longrightarrow> join_with [SLASH] (xs @ [e]) = join_with [SLASH] xs @ SLASH # e"
  by (induction xs rule: list_nonempty_induct) (simp_all add: join_with_Cons)

lemma child_snoc:
  assumes "e \<noteq> dot" and "e \<noteq> dotdot" and "good_parts ps"
  shows "SLASH # join_with [SLASH] (normalizeArray (ps @ [e]) False) =
    child (SLASH # join_with [SLASH] (normalizeArray ps False)) e"
  using join_good_ends(1) [of "normalizeArray ps False"] assms
  by (cases "normalizeArray ps False = []")
    (auto simp: normalizeArray_snoc child_def join_snoc)

lemma makeAbs_relative:
  "f \<noteq> [] \<Longrightarrow> take 1 f \<noteq> [SLASH] \<Longrightarrow>
   makeAbs E f = SLASH # join_with [SLASH]
     (normalizeArray ((if g_changedCwd E then path_parts (g_cwd E) else []) @ path_parts f) False)"
  by (simp add: makeAbs_def isAbsolute_def resolve_one resolve_two)

lemma path_parts_name: "e \<noteq> [] \<Longrightarrow> SLASH \<notin> set e \<Longrightarrow> path_parts e = [e]"
  using path_parts_join [of "[e]"] by simp

lemma path_parts_in_dir:
  assumes "e \<noteq> []" and "SLASH \<notin> set e"
  shows "path_parts (in_dir (Some p) e) = path_parts p @ [e]"
proof (cases "ends_slash p")
  case True
  then have "p = butlast p @ [SLASH]"
    by (simp add: ends_slash_def) (metis append_butlast_last_id)
  then obtain q where q: "p = q @ [SLASH]" ..
  then have "in_dir (Some p) e = q @ SLASH # e" using True by (simp add: in_dir_def)
  then show ?thesis using assms path_parts_sep [of q "[]"] q by (simp add: path_parts_sep path_parts_name)
next
  case False
  then show ?thesis using assms by (simp add: in_dir_def path_parts_sep path_parts_name)
qed

lemma normalizeArray_dot: "normalizeArray (ps @ [dot]) False = normalizeArray ps False"
  by (simp add: normalizeArray_stack path_stack_def path_step_def)

lemma makeAbs_in_dir:
  assumes e: "e \<noteq> []" "SLASH \<notin> set e" "e \<noteq> dot" "e \<noteq> dotdot"
    and pre: "\<And>p. pre = Some p \<Longrightarrow> p \<noteq> [] \<and> take 1 p \<noteq> [SLASH]"
  shows "makeAbs E (in_dir pre e) = child (makeAbs E (read_of pre)) e"
proof -
  let ?c = "if g_changedCwd E then path_parts (g_cwd E) else []"
  have good: "good_parts ?c" by simp
  show ?thesis
  proof (cases pre)
    case None
    have d: "makeAbs E dot = SLASH # join_with [SLASH] (normalizeArray ?c False)"
      using makeAbs_relative [of dot E] by (simp add: path_parts_name normalizeArray_dot)
    have "take 1 e \<noteq> [SLASH]" using e by (cases e) auto
    with None e makeAbs_relative [of e E] child_snoc [OF e(3,4) good] d show ?thesis
      by (simp add: in_dir_def read_of_def path_parts_name)
  next
    case (Some p)
    with pre have p: "p \<noteq> []" "take 1 p \<noteq> [SLASH]" by auto
    then have "in_dir pre e \<noteq> []" "take 1 (in_dir pre e) \<noteq> [SLASH]"
      using Some by (cases p; auto simp: in_dir_def)+
    from makeAbs_relative [OF this, of E] makeAbs_relative [OF p, of E]
      child_snoc [OF e(3,4), of "?c @ path_parts p"] good Some
    show ?thesis by (simp add: path_parts_in_dir [OF e(1,2)] read_of_def)
  qed
qed

section \<open>Results that are no lack of depth\<close>

text \<open>
  The walk ends well when it returns with truthful caches or throws an error that reading a
  directory gave.
\<close>

definition ends_well :: "fs \<Rightarrow> failure + glob_state \<Rightarrow> bool" where
  "ends_well F r \<longleftrightarrow>
     (case r of
        Inr s \<Rightarrow> truthful F s
      | Inl er \<Rightarrow> (\<exists>p e. er = Thrown e \<and> readdirSync F p = Inl e))"

lemma ends_well_simps [simp]:
  "ends_well F (Inr s) \<longleftrightarrow> truthful F s"
  "ends_well F (Inl er) \<longleftrightarrow> (\<exists>p e. er = Thrown e \<and> readdirSync F p = Inl e)"
  by (simp_all add: ends_well_def)

definition ends_on :: "fs \<Rightarrow> processor \<Rightarrow> parsed list \<Rightarrow> bool" where
  "ends_on F proc pattern \<longleftrightarrow> (\<forall>ig s. truthful F s \<longrightarrow> ends_well F (proc pattern ig s))"

lemma ends_bind:
  "ends_well F r \<Longrightarrow> (\<And>s. truthful F s \<Longrightarrow> ends_well F (k s)) \<Longrightarrow>
   ends_well F (case r of Inl er \<Rightarrow> Inl er | Inr s \<Rightarrow> k s)"
  by (cases r) auto

lemma ends_onD: "ends_on F proc pattern \<Longrightarrow> truthful F s \<Longrightarrow> ends_well F (proc pattern ig s)"
  by (simp add: ends_on_def)

lemma each_of_ends:
  "(\<And>x s. x \<in> set xs \<Longrightarrow> truthful F s \<Longrightarrow> ends_well F (body x s)) \<Longrightarrow> truthful F s \<Longrightarrow>
   ends_well F (each_of body xs s)"
proof (induction xs arbitrary: s)
  case (Cons x xs)
  have "ends_well F (body x s)" using Cons.prems by simp
  with Cons.IH Cons.prems(1) show ?case by (cases "body x s") auto
qed simp

lemma readdir_failure:
  "readdir E F dir ig s = Inl er \<Longrightarrow> \<exists>e. er = Thrown e \<and> readdirSync F dir = Inl e"
  by (auto simp: readdir_def readdirInGlobStar_def readdir_cached_def readdirError_def Let_def
      split: if_splits option.splits sum.splits cached.splits)

lemma readdir_ends:
  assumes "fs_ok F" and "truthful F s" and "makeAbs E dir = dir"
  shows "(\<exists>e. readdir E F dir ig s = Inl (Thrown e) \<and> readdirSync F dir = Inl e) \<or>
    (\<exists>s'. truthful F s' \<and> (readdir E F dir ig s = Inr (None, s') \<or>
       readdir E F dir ig s = Inr (Some (names_in F dir), s')))"
proof (cases "readdir E F dir ig s")
  case (Inl er)
  from readdir_failure [OF this] Inl show ?thesis by blast
next
  case (Inr b)
  obtain r s' where b: "b = (r, s')" by force
  from readdir_truthful [OF assms(1,2,3) Inr [unfolded b]] Inr b show ?thesis
    by (cases "readdirSync F dir") (auto simp: names_in_def)
qed

lemma fold_add_truthful: "truthful F s \<Longrightarrow> truthful F (fold (\<lambda>e. add_match index (f e)) es s)"
  using fold_add_grows [of F s es f UNIV index] by (simp add: grows_truthful)

text \<open>The portions on which the walk is defined: strings, globstars and compiled expressions.\<close>

fun walkable :: "parsed \<Rightarrow> bool" where
  "walkable (Re src flag g) \<longleftrightarrow> g \<noteq> None"
| "walkable p \<longleftrightarrow> p = Globstar \<or> is_string p"

lemma processReaddir_ends:
  assumes ok: "fs_ok F" "truthful F s" "makeAbs E dir = dir"
    and hd: "hd remain = Re src flag (Some g)"
    and proc: "\<And>e. e \<in> set (names_in F dir) \<Longrightarrow> ends_on F proc (prefix_list pre @ [Str e] @ tl remain)"
  shows "ends_well F (processReaddir H E F proc pre dir remain index ig s)"
proof -
  have all: "ends_well F (each_of (\<lambda>e. proc (prefix_list pre @ [Str e] @ tl remain) ig)
      (filter P (names_in F dir)) s1)" if "truthful F s1" for P s1
    by (rule each_of_ends [OF _ that]) (use proc in \<open>simp add: ends_onD\<close>)
  have init: "truthful F (init_matches index s1)" if "truthful F s1" for s1
    using grows_truthful [OF grows_init [OF that]] .
  from readdir_ends [OF ok, of ig] show ?thesis
    by (elim disjE exE conjE)
      (auto simp: processReaddir_def hd Let_def intro: fold_add_truthful init all [simplified])
qed

lemma processGlobStar_ends:
  assumes ok: "fs_ok F" "truthful F s" "makeAbs E dir = dir"
    and skip: "ends_on F proc (prefix_list pre @ tl remain)"
    and down: "\<And>e. e \<in> set (names_in F dir) \<Longrightarrow> ends_on F proc (prefix_list pre @ [Str e] @ tl remain) \<and>
      ends_on F proc (prefix_list pre @ [Str e] @ remain)"
  shows "ends_well F (processGlobStar E F proc pre dir remain ig s)"
proof -
  define body where "body e s =
    (if take 1 e = [DOT] \<and> \<not> g_dot E then Inr s
     else
       (case proc (prefix_list pre @ [Str e] @ tl remain) True s of
          Inl er \<Rightarrow> Inl er
        | Inr s' \<Rightarrow> proc (prefix_list pre @ [Str e] @ remain) True s'))" for e s
  have "ends_well F (body e s1)" if "e \<in> set (names_in F dir)" "truthful F s1" for e s1
    using ends_bind [OF ends_onD [OF conjunct1 [OF down [OF that(1)]] that(2)]
        ends_onD [OF conjunct2 [OF down [OF that(1)]]]] that(2)
    by (auto simp: body_def)
  then have all: "ends_well F (each_of body (names_in F dir) s1)" if "truthful F s1" for s1
    using each_of_ends that by blast
  have rest: "ends_well F (case proc (prefix_list pre @ tl remain) False s1 of
      Inl er \<Rightarrow> Inl er
    | Inr s2 \<Rightarrow> if symlinks s2 dir = Some True \<and> ig then Inr s2 else each_of body (names_in F dir) s2)"
    if "truthful F s1" for s1
    by (rule ends_bind [OF ends_onD [OF skip that]]) (simp add: all)
  from readdir_ends [OF ok, of ig] consider
      e where "readdir E F dir ig s = Inl (Thrown e)" "readdirSync F dir = Inl e"
    | s1 where "readdir E F dir ig s = Inr (None, s1)" "truthful F s1"
    | s1 where "readdir E F dir ig s = Inr (Some (names_in F dir), s1)" "truthful F s1"
    by blast
  then show ?thesis
  proof cases
    case 3
    with rest [OF 3(2)] show ?thesis by (simp only: processGlobStar_def body_def [abs_def] sum.case prod.case option.case)
  qed (auto simp: processGlobStar_def)
qed

section \<open>The depth of the recursion\<close>

text \<open>The depth that \<open>k\<close> portions take when the first is read in a directory with \<open>r\<close> levels below.\<close>

fun depth_for :: "nat \<Rightarrow> nat \<Rightarrow> nat \<Rightarrow> nat" where
  "depth_for R r 0 = 1"
| "depth_for R r (Suc k) = Suc R * k + r + 2"

lemma depth_for_pos [simp]: "(depth_for R r k = 0) = False"
  by (cases k) simp_all

lemma depth_for_full: "depth_for R R k = Suc R * k + 1"
  by (cases k) simp_all

text \<open>\<open>deep_enough n\<close>: the walk to depth \<open>n\<close> ends well on each pattern that takes no more.\<close>

definition deep_enough :: "host \<Rightarrow> glob_env \<Rightarrow> fs \<Rightarrow> nat \<Rightarrow> nat \<Rightarrow> nat \<Rightarrow> bool" where
  "deep_enough H E F index R n \<longleftrightarrow>
     (\<forall>ss ps r. relative_pattern (map Str ss @ ps) \<longrightarrow> list_all walkable ps \<longrightarrow>
        (ps \<noteq> [] \<longrightarrow> \<not> is_string (hd ps) \<and> shallow F r (makeAbs E (read_of (descend None ss)))) \<longrightarrow>
        depth_for R r (magic_portions ps) \<le> n \<longrightarrow>
        ends_on F (glob_process H E F index n) (map Str ss @ ps))"

lemma descend_read:
  assumes "relative_pattern (map Str ss @ ps)" and "ps \<noteq> []"
  shows "read_of (descend None ss) \<noteq> []"
    and "descend None ss = Some p \<Longrightarrow> p \<noteq> [] \<and> take 1 p \<noteq> [SLASH]"
proof -
  have ss: "list_all plain_string ss" "\<forall>s \<in> set ss. take 1 s \<noteq> [SLASH]"
    using relative_strings [OF assms] by simp_all
  note join = descend_plain [OF ss(1)] relative_join_plain [OF ss]
  show "read_of (descend None ss) \<noteq> []"
    using join by (cases "ss = []") (auto simp: read_of_def descend_def plain_string_def)
  show "descend None ss = Some p \<Longrightarrow> p \<noteq> [] \<and> take 1 p \<noteq> [SLASH]"
    using join by (cases "ss = []") (auto simp: descend_def plain_string_def)
qed

lemma deep_enough_pattern:
  assumes all: "\<And>p. normal_abs p \<Longrightarrow> shallow F R p" and root: "g_root E = [SLASH]"
    and n: "deep_enough H E F index R n"
    and p: "relative_pattern pattern" "list_all walkable pattern" "Suc R * magic_portions pattern + 1 \<le> n"
  shows "ends_on F (glob_process H E F index n) pattern"
proof -
  obtain ss where ss: "map Str ss = takeWhile is_string pattern" "pattern = map Str ss @ drop (length ss) pattern"
      "drop (length ss) pattern = dropWhile is_string pattern"
    by (rule pattern_split)
  let ?ps = "drop (length ss) pattern"
  have rel: "relative_pattern (map Str ss @ ?ps)" using p(1) ss(2) by simp
  have "\<not> is_string (hd ?ps) \<and> shallow F R (makeAbs E (read_of (descend None ss)))" if "?ps \<noteq> []"
    using that ss(3) hd_dropWhile [of is_string pattern] all [OF makeAbs_normal [OF root descend_read(1) [OF rel that]]]
    by simp
  moreover have "magic_portions ?ps = magic_portions pattern"
    using arg_cong [OF ss(2), of magic_portions] by simp
  moreover have "list_all walkable ?ps" using p(2) by (auto simp: list_all_iff dest: in_set_dropD)
  ultimately have "ends_on F (glob_process H E F index n) (map Str ss @ ?ps)"
    using n rel p(3) unfolding deep_enough_def by (metis depth_for_full)
  then show ?thesis using ss(2) by simp
qed

lemma prefix_list_strings:
  assumes "list_all plain_string ss"
  obtains ts where "prefix_list (descend None ss) @ [Str e] = map Str ts"
    and "descend None ts = Some (in_dir (descend None ss) e)"
proof (cases "ss = []")
  case True
  with that [of "[e]"] show ?thesis by (simp add: prefix_list_def descend_def)
next
  case False
  with that [of "[join_with [SLASH] ss, e]"] descend_plain [OF assms False] show ?thesis
    by (simp add: prefix_list_def descend_def in_dir_def [of None])
qed

lemma shallow_child:
  assumes "fs_ok F" and "shallow F r (makeAbs E (read_of pre))"
    and "e \<in> set (names_in F (makeAbs E (read_of pre)))"
    and "\<And>p. pre = Some p \<Longrightarrow> p \<noteq> [] \<and> take 1 p \<noteq> [SLASH]"
  shows "\<exists>r'. r = Suc r' \<and> shallow F r' (makeAbs E (read_of (Some (in_dir pre e))))"
proof -
  have "e \<noteq> [] \<and> SLASH \<notin> set e" using fs_names [OF assms(1,3)] .
  moreover obtain r' where "r = Suc r'" "e \<noteq> dot" "e \<noteq> dotdot" "shallow F r' (child (makeAbs E (read_of pre)) e)"
    using assms(2,3) by (cases r) auto
  ultimately show ?thesis using makeAbs_in_dir [of e pre E, OF _ _ _ _ assms(4)] by (auto simp: read_of_def)
qed

lemma glob_process_step:
  assumes "list_all plain_string ss" and "\<forall>s \<in> set ss. take 1 s \<noteq> [SLASH]" and "\<not> is_string q"
  shows "glob_process H E F index (Suc n) (map Str ss @ q # qs) ig s =
    (let pre = descend None ss; dir = makeAbs E (read_of pre); proc = glob_process H E F index n
     in if childrenIgnored H E (read_of pre) then Inr s
        else if q = Globstar then processGlobStar E F proc pre dir (q # qs) ig s
        else processReaddir H E F proc pre dir (q # qs) index ig s)"
proof -
  have tw: "takeWhile is_string (map Str ss @ q # qs) = map Str ss"
    using assms(3) by (induction ss) simp_all
  have "prefix_of (map Str ss @ q # qs) = descend None ss"
    by (rule prefix_of_strings [OF assms(1,2) tw]) simp
  with tw show ?thesis by (simp add: Let_def del: takeWhile_append)
qed

lemma deep_enough_calls:
  assumes ok: "fs_ok F" "g_root E = [SLASH]"
    and all: "\<And>p. normal_abs p \<Longrightarrow> shallow F R p"
    and n: "deep_enough H E F index R n"
    and rel: "relative_pattern (map Str ss @ q # qs)" and walk: "list_all walkable (q # qs)"
    and q: "\<not> is_string q" and sh: "shallow F r (makeAbs E (read_of (descend None ss)))"
    and depth: "depth_for R r (magic_portions (q # qs)) \<le> Suc n"
  shows "ends_on F (glob_process H E F index n) (prefix_list (descend None ss) @ qs)"
    and "e \<in> set (names_in F (makeAbs E (read_of (descend None ss)))) \<Longrightarrow>
      ends_on F (glob_process H E F index n) (prefix_list (descend None ss) @ [Str e] @ qs) \<and>
      ends_on F (glob_process H E F index n) (prefix_list (descend None ss) @ [Str e] @ q # qs)"
proof -
  let ?proc = "glob_process H E F index n" and ?pre = "descend None ss"
  have plain: "list_all plain_string ss" "\<forall>s \<in> set ss. take 1 s \<noteq> [SLASH]"
    using relative_strings [OF rel] by simp_all
  have rel_q: "relative_pattern (q # qs)" using relative_pattern_append [OF rel] .
  have k: "magic_portions (q # qs) = Suc (magic_portions qs)" using q by (simp add: magic_portions_def)
  then have less: "Suc R * magic_portions qs + 1 \<le> n" using depth by simp
  show "ends_on F ?proc (prefix_list ?pre @ qs)"
    using deep_enough_pattern [OF all ok(2) n relative_prefix_list [OF plain], of qs] rel_q walk less
    by (auto simp: prefix_list_def split: option.splits)
  assume e: "e \<in> set (names_in F (makeAbs E (read_of ?pre)))"
  then have name: "plain_string e \<and> take 1 e \<noteq> [SLASH]"
    using plain_name fs_names [OF ok(1)] by blast
  have into: "ends_on F ?proc (prefix_list ?pre @ [Str e] @ qs)"
    using deep_enough_pattern [OF all ok(2) n relative_prefix_list [OF plain], of "Str e # qs"]
      name rel_q walk less
    by (auto simp: prefix_list_def split: option.splits)
  obtain ts where ts: "prefix_list ?pre @ [Str e] = map Str ts"
      "descend None ts = Some (in_dir ?pre e)"
    using prefix_list_strings [OF plain(1)] .
  obtain r' where r': "r = Suc r'" "shallow F r' (makeAbs E (read_of (descend None ts)))"
    using shallow_child [OF ok(1) sh e] descend_read(2) [OF rel] ts(2) by auto
  have "relative_pattern (map Str ts @ q # qs)"
    using relative_prefix_list [OF plain, of "Str e # q # qs"] name rel_q ts(1) [symmetric] by simp
  moreover have "depth_for R r' (magic_portions (q # qs)) \<le> n" using depth k r'(1) by simp
  ultimately have "ends_on F ?proc (map Str ts @ q # qs)"
    using n walk q r'(2) unfolding deep_enough_def by simp
  with into ts(1) [symmetric] show "ends_on F ?proc (prefix_list ?pre @ [Str e] @ qs) \<and>
      ends_on F ?proc (prefix_list ?pre @ [Str e] @ q # qs)"
    by simp
qed

lemma deep_enough_Suc:
  assumes ok: "fs_ok F" "g_root E = [SLASH]"
    and all: "\<And>p. normal_abs p \<Longrightarrow> shallow F R p"
    and n: "deep_enough H E F index R n"
  shows "deep_enough H E F index R (Suc n)"
  unfolding deep_enough_def ends_on_def
proof (intro allI impI)
  fix ss ps r ig s
  assume rel: "relative_pattern (map Str ss @ ps)" and walk: "list_all walkable ps"
    and ps: "ps \<noteq> [] \<longrightarrow> \<not> is_string (hd ps) \<and> shallow F r (makeAbs E (read_of (descend None ss)))"
    and depth: "depth_for R r (magic_portions ps) \<le> Suc n" and t: "truthful F s"
  show "ends_well F (glob_process H E F index (Suc n) (map Str ss @ ps) ig s)"
  proof (cases ps)
    case Nil
    have "map string_of (map Str ss) = ss" by (simp add: comp_def)
    with processSimple_grows [OF ok(1) t, of ss index H E] rel Nil show ?thesis
      by (simp add: grows_truthful takeWhile_eq_all_conv [THEN iffD2])
  next
    case (Cons q qs)
    let ?dir = "makeAbs E (read_of (descend None ss))"
    have q: "\<not> is_string q" and sh: "shallow F r ?dir" using ps Cons by simp_all
    note calls = deep_enough_calls [OF ok all n rel [unfolded Cons] walk [unfolded Cons] q sh depth [unfolded Cons]]
    have dir: "makeAbs E ?dir = ?dir"
      using rel Cons by (intro makeAbs_id [OF ok(2) makeAbs_normal [OF ok(2)]] descend_read(1)) auto
    have star: "ends_well F (processGlobStar E F (glob_process H E F index n) (descend None ss) ?dir (q # qs) ig s)"
      by (rule processGlobStar_ends [OF ok(1) t dir]) (simp_all only: list.sel calls simp_thms)
    have "ends_well F (processReaddir H E F (glob_process H E F index n) (descend None ss) ?dir (q # qs) index ig s)"
      if "q \<noteq> Globstar"
    proof -
      from that q walk Cons obtain src flag g where "q = Re src flag (Some g)" by (cases q) auto
      then show ?thesis
        by (intro processReaddir_ends [OF ok(1) t dir]) (simp_all only: list.sel calls simp_thms)
    qed
    with star relative_strings [OF rel] Cons t show ?thesis
      by (cases "q = Globstar") (simp_all add: glob_process_step q Let_def del: glob_process.simps)
  qed
qed

lemma deep_enough:
  assumes "fs_ok F" and "g_root E = [SLASH]" and "\<And>p. normal_abs p \<Longrightarrow> shallow F R p"
  shows "deep_enough H E F index R n"
proof (induction n)
  case 0
  show ?case by (simp add: deep_enough_def)
next
  case (Suc n)
  with deep_enough_Suc [OF assms] show ?case by blast
qed

section \<open>Property\<close>

text \<open>
  Property C13.  Where no directory has more than \<open>R\<close> levels below it the walk ends: to the depth
  of \<open>R + 1\<close> for each portion of a pattern that is no string, and one more, it returns with
  truthful caches or throws an error that reading a directory gave.
\<close>
theorem glob_terminates:
  assumes "fs_ok F" and "g_root E = [SLASH]" and "\<forall>p. normal_abs p \<longrightarrow> shallow F R p"
    and "list_all (\<lambda>ps. relative_pattern ps \<and> list_all walkable ps \<and>
           Suc R * magic_portions ps + 1 \<le> depth) (mm_set (g_minimatch E))"
    and "truthful F s"
  shows "case process_set H E F depth s of
           Inr s' \<Rightarrow> truthful F s'
         | Inl er \<Rightarrow> \<exists>p e. er = Thrown e \<and> readdirSync F p = Inl e"
proof -
  have all: "shallow F R p" if "normal_abs p" for p using assms(3) that by blast
  have "ends_well F (process_set H E F depth s)"
    unfolding process_set_def
  proof (rule each_of_ends [OF _ assms(5)])
    fix i s
    assume i: "i \<in> set [0..<length (mm_set (g_minimatch E))]" and t: "truthful F s"
    then have "mm_set (g_minimatch E) ! i \<in> set (mm_set (g_minimatch E))" by simp
    with assms(4) have "ends_on F (glob_process H E F i depth) (mm_set (g_minimatch E) ! i)"
      by (intro deep_enough_pattern [OF all assms(2) deep_enough [OF assms(1,2) all]])
        (auto simp: list_all_iff)
    then show "ends_well F (glob_process H E F i depth (mm_set (g_minimatch E) ! i) False s)"
      using t by (rule ends_onD)
  qed
  then show ?thesis by (simp only: ends_well_def)
qed

lemma small_fs_names:
  "names_in small_fs p =
     (if p = u ''/'' then [u ''a''] else if p = u ''/a'' then [u ''x'', u ''.y''] else [])"
  by (simp add: names_in_def small_fs_def)

lemma small_fs_shallow: "shallow small_fs 2 p"
proof -
  have leaf: "shallow small_fs r p" if "p \<noteq> u ''/''" "p \<noteq> u ''/a''" for r p
    using that by (cases r) (simp_all add: small_fs_names)
  have "shallow small_fs 1 (u ''/a'')" unfolding One_nat_def
    by (simp add: small_fs_names) (simp add: u_def child_def small_fs_names)
  moreover have "child (u ''/'') (u ''a'') = u ''/a''" "u ''a'' \<noteq> dot" "u ''a'' \<noteq> dotdot"
    by (simp_all add: u_def child_def)
  ultimately have "shallow small_fs 2 (u ''/'')"
    by (simp add: numeral_2_eq_2 small_fs_names)
  moreover have "shallow small_fs 2 (u ''/a'')"
    unfolding numeral_2_eq_2
    by (simp add: small_fs_names) (simp add: u_def child_def small_fs_names)
  ultimately show ?thesis using leaf [of p] by blast
qed

theorem glob_terminates_witness:
  "\<exists>s'. process_set literal_host globstar_env small_fs 4 fresh_state = Inr s' \<and> truthful small_fs s'"
proof -
  have "list_all (\<lambda>ps. relative_pattern ps \<and> list_all walkable ps \<and>
      Suc 2 * magic_portions ps + 1 \<le> 4) (mm_set (g_minimatch globstar_env))"
    using globstar_env_facts(3) by (simp add: globstar_env_def)
  from glob_terminates [OF small_fs_ok globstar_env_facts(1) _ this fresh_truthful, of literal_host]
  have "case process_set literal_host globstar_env small_fs 4 fresh_state of
      Inr s' \<Rightarrow> truthful small_fs s'
    | Inl er \<Rightarrow> \<exists>p e. er = Thrown e \<and> readdirSync small_fs p = Inl e"
    using small_fs_shallow by blast
  moreover have "isl (process_set literal_host globstar_env small_fs 4 fresh_state) = False"
    by code_simp
  ultimately show ?thesis by (auto simp: isl_def split: sum.splits)
qed

end
