(* ===== verification/Js_Glob_Entry.thy ===== *)
theory Js_Glob_Entry
  imports Js_Glob_Async
begin

text \<open>
  What surrounds the walks of \<open>glob\<close> (\<open>site/assets/javascripts/lunr/wordcut.js\<close>, lines 1681 to
  1698, 1878 to 1890, 1915 to 1932, 2620 to 2642 and 2780 to 2797): the choice between them, the
  deprecation warning, the \<open>realpath\<close> option of the synchronous walk and its unused \<open>_emitMatch\<close>.
\<close>

section \<open>The entry points\<close>

datatype entry_call = SyncWalk | AsyncWalk "bool"

text \<open>\<open>glob\<close> and \<open>Glob\<close> with the option \<open>sync\<close> and whether a callback is given.\<close>

definition glob_entry :: "bool \<Rightarrow> bool \<Rightarrow> failure + entry_call" where
  "glob_entry sync callback =
     (if sync then (if callback then Inl TypeError else Inr SyncWalk) else Inr (AsyncWalk callback))"

section \<open>The deprecation warning\<close>

record warning_flags =
  noDeprecation :: bool
  throwDeprecation :: bool
  traceDeprecation :: bool

datatype warning_notice = Silent | Thrown_Error | Traced | Printed

text \<open>With the flag \<open>deprecationWarned\<close> before and after.\<close>

definition deprecationWarning :: "warning_flags \<Rightarrow> options \<Rightarrow> bool \<Rightarrow> warning_notice \<times> bool" where
  "deprecationWarning p opts warned =
     (if (\<not> nonegate opts \<or> \<not> nocomment opts) \<and> \<not> noDeprecation p \<and> \<not> warned
      then (if throwDeprecation p then (Thrown_Error, warned)
            else (if traceDeprecation p then Traced else Printed, True))
      else (Silent, warned))"

section \<open>Real paths in the synchronous walk\<close>

text \<open>One set of matches; \<open>Inl\<close> is an error of \<open>realpathSync\<close>, with whether it comes from \<open>stat\<close>.\<close>

fun realpath_names :: "glob_env \<Rightarrow> (ustr \<Rightarrow> bool + ustr) \<Rightarrow> ustr list \<Rightarrow> ustr list \<Rightarrow> failure + ustr list" where
  "realpath_names E rp [] found = Inr found"
| "realpath_names E rp (p # ps) found =
     (let q = makeAbs E p in
      case rp q of
        Inr real \<Rightarrow> realpath_names E rp ps (add_key [real] found)
      | Inl True \<Rightarrow> realpath_names E rp ps (add_key [makeAbs E q] found)
      | Inl False \<Rightarrow> Inl (Thrown EOTHER))"

text \<open>The sets that are there, in their order; what follows a throw is left as it is.\<close>

fun realpath_sets :: "glob_env \<Rightarrow> (ustr \<Rightarrow> bool + ustr) \<Rightarrow> ustr list option list \<Rightarrow> failure + ustr list option list" where
  "realpath_sets E rp [] = Inr []"
| "realpath_sets E rp (None # ms) = map_sum id ((#) None) (realpath_sets E rp ms)"
| "realpath_sets E rp (Some es # ms) =
     (case realpath_names E rp (js_keys es) [] of
        Inl er \<Rightarrow> Inl er
      | Inr found \<Rightarrow> map_sum id ((#) (Some found)) (realpath_sets E rp ms))"

definition sync_finish ::
  "host \<Rightarrow> (ustr \<Rightarrow> ustr \<Rightarrow> int) \<Rightarrow> glob_env \<Rightarrow> bool \<Rightarrow> (ustr \<Rightarrow> bool + ustr) \<Rightarrow> glob_state \<Rightarrow> failure + ustr list" where
  "sync_finish H cmp E realpath rp s =
     (if realpath
      then map_sum id (\<lambda>ms. finish H cmp E (s\<lparr>matches := ms\<rparr>)) (realpath_sets E rp (matches s))
      else Inr (finish H cmp E s))"

definition sync_emitMatch :: "glob_env \<Rightarrow> fs \<Rightarrow> nat \<Rightarrow> ustr \<Rightarrow> glob_state \<Rightarrow> glob_state" where
  "sync_emitMatch E F index e s =
     (let (m, s1) = (if g_mark E then mark E e s else (e, s)) in
      if (case matches s1 ! index of None \<Rightarrow> False | Some es \<Rightarrow> m \<in> set es) then s1
      else if g_nodir E \<and> (case cache s1 (makeAbs E m) of Some Dir \<Rightarrow> True | Some (Entries es) \<Rightarrow> True | _ \<Rightarrow> False)
      then s1
      else
        (let s2 = add_match index m s1 in if g_stat E then snd (stat_name E F m s2) else s2))"

section \<open>Facts\<close>

lemma warned_once: "snd (deprecationWarning p opts True) = True \<and> fst (deprecationWarning p opts True) = Silent"
  by (simp add: deprecationWarning_def)

text \<open>Without errors the sets hold the real paths of what was found, and no name stands twice.\<close>

lemma realpath_names_set:
  assumes "\<And>p. rp p = Inr (f p)"
  shows "\<exists>rs. realpath_names E rp ps found = Inr rs \<and> set rs = set found \<union> (\<lambda>p. f (makeAbs E p)) ` set ps"
proof (induction ps arbitrary: found)
  case (Cons p ps)
  have "set (add_key [f (makeAbs E p)] found) = insert (f (makeAbs E p)) (set found)" by (auto simp: add_key_def)
  with Cons [of "add_key [f (makeAbs E p)] found"] assms show ?case by auto
qed simp

end
