(* ===== verification/Js_Make_Re.thy ===== *)
theory Js_Make_Re
  imports Js_Minimatch
begin

text \<open>
  The rest of \<open>minimatch\<close> (\<open>site/assets/javascripts/lunr/wordcut.js\<close>, lines 3164 to 3206, 3753 to
  3801 and 4037 to 4039): one regular expression for a whole pattern, filters, and functions with
  default options.
\<close>

section \<open>The regular expression of a pattern\<close>

definition re_escaped :: "nat set" where
  "re_escaped = set (u ''-[]{}()*+?.,^$|#'' @ [BSLASH]) \<union> js_space"

definition regExpEscape :: "ustr \<Rightarrow> ustr" where
  "regExpEscape s = concat (map (\<lambda>c. if c \<in> re_escaped then [BSLASH, c] else [c]) s)"

definition twoStarDot :: ustr where
  "twoStarDot = u ''(?:(?!(?:'' @ [BSLASH, 47] @ u ''|^)(?:'' @ [BSLASH] @ u ''.{1,2})($|'' @ [BSLASH, 47] @ u '')).)*?''"

definition twoStarNoDot :: ustr where
  "twoStarNoDot = u ''(?:(?!(?:'' @ [BSLASH, 47] @ u ''|^)'' @ [BSLASH] @ u ''.).)*?''"

text \<open>\<open>_src\<close>: what the expression was made of; the one that matches nothing has none, and \<open>join\<close>
  takes \<open>undefined\<close> for the empty text.\<close>

definition src_of :: "ustr \<Rightarrow> ustr option \<Rightarrow> ustr" where
  "src_of source g = (case g of None \<Rightarrow> [] | Some _ \<Rightarrow> butlast (tl source))"

definition portion_re :: "options \<Rightarrow> parsed \<Rightarrow> ustr" where
  "portion_re opts p =
     (case p of
        Globstar \<Rightarrow> if noglobstar opts then star else if dot_opt opts then twoStarDot else twoStarNoDot
      | Str s \<Rightarrow> regExpEscape s
      | Re source flag g \<Rightarrow> src_of source g
      | _ \<Rightarrow> [])"

text \<open>The field \<open>regexp\<close>: \<open>null\<close>, \<open>false\<close> or an expression with its flag \<open>i\<close>.\<close>

datatype regexp_field = Unmade | NoRegexp | Made ustr bool

definition set_re :: "minimatch \<Rightarrow> ustr" where
  "set_re m =
     (let opts = mm_options m;
          alternatives = join_with [124] (map (\<lambda>ps. join_with [BSLASH, 47] (map (portion_re opts) ps)) (mm_set m));
          whole = u ''^(?:'' @ alternatives @ u '')$''
      in if mm_negate m then u ''^(?!'' @ whole @ u '').*$'' else whole)"

definition makeRe :: "host \<Rightarrow> minimatch \<Rightarrow> regexp_field \<Rightarrow> regexp_field" where
  "makeRe H m field =
     (if field \<noteq> Unmade then field
      else if mm_set m = [] then NoRegexp
      else if re_valid H (set_re m) (nocase (mm_options m)) then Made (set_re m) (nocase (mm_options m))
      else NoRegexp)"

definition minimatch_makeRe :: "host \<Rightarrow> randoms \<Rightarrow> nat \<Rightarrow> ustr \<Rightarrow> options \<Rightarrow> regexp_field option ran" where
  "minimatch_makeRe H R fuel pattern opts =
     map_ran (map_option (\<lambda>m. makeRe H m Unmade)) (Minimatch H R fuel pattern opts)"

section \<open>Filters and defaults\<close>

definition minimatch_filter :: "host \<Rightarrow> randoms \<Rightarrow> nat \<Rightarrow> ustr \<Rightarrow> options \<Rightarrow> ustr \<Rightarrow> bool option ran" where
  "minimatch_filter H R fuel pattern opts p = minimatch_fun H R fuel p pattern opts"

text \<open>Options as the object they are: \<open>ext\<close> copies the second and then the first over it.\<close>

definition ext :: "('k \<times> 'v) list \<Rightarrow> ('k \<times> 'v) list \<Rightarrow> ('k \<times> 'v) list" where
  "ext a b = fold (\<lambda>(k, v). AList.update k v) a (fold (\<lambda>(k, v). AList.update k v) b [])"

text \<open>\<open>minimatch.defaults\<close>: the options a call gets; without defaults the function itself is returned.\<close>

definition with_defaults :: "('k \<times> 'v) list \<Rightarrow> (('k \<times> 'v) list \<Rightarrow> 'r) \<Rightarrow> ('k \<times> 'v) list \<Rightarrow> 'r" where
  "with_defaults def f opts = (if def = [] then f opts else f (ext def opts))"

section \<open>Facts\<close>

text \<open>Unescaping, which leaves line terminators alone, undoes the escaping of a text without them.\<close>

lemma globUnescape_cons:
  "c \<noteq> BSLASH \<Longrightarrow> globUnescape (c # s) = c # globUnescape s"
  by (cases s) simp_all

lemma regExpEscape_unescape:
  "set s \<inter> {10, 13, 0x2028, 0x2029} = {} \<Longrightarrow> globUnescape (regExpEscape s) = s"
proof (induction s)
  case (Cons c s)
  have "c \<noteq> BSLASH" if "c \<notin> re_escaped" using that by (auto simp: re_escaped_def)
  with Cons show ?case
    by (cases "c \<in> re_escaped") (auto simp: regExpEscape_def globUnescape_cons)
qed (simp add: regExpEscape_def)

text \<open>The defaults win over the options of a call.\<close>

lemma map_of_updates:
  "map_of (fold (\<lambda>(k, v). AList.update k v) a m) k = (case map_of (rev a) k of None \<Rightarrow> map_of m k | Some v \<Rightarrow> Some v)"
  by (induction a arbitrary: m) (auto simp: update_conv' map_add_def split: option.split)

lemma ext_first_wins: "distinct (map fst a) \<Longrightarrow> map_of a k = Some v \<Longrightarrow> map_of (ext a b) k = Some v"
  by (simp add: ext_def map_of_updates) (metis distinct_rev map_of_eq_Some_iff option.simps(5) rev_map set_rev)

text \<open>A made expression is kept.\<close>

lemma makeRe_again: "makeRe H m (makeRe H m field) = makeRe H m field"
  by (simp add: makeRe_def)

end
