(* ===== verification/Js_Timing.thy ===== *)
theory Js_Timing
  imports Prelude
begin

text \<open>
  The function wrappers of Underscore 1.8.3 (\<open>site/assets/javascripts/lunr/wordcut.js\<close>, lines
  5237 to 5431): \<open>throttle\<close> and \<open>debounce\<close> as state machines over a clock and one timer, and
  the wrappers that only count, remember or combine calls.

  The closure variables of a wrapper are a record.  A call of the wrapper and the timer's callback
  are functions on it that also say whether \<open>func\<close> is to be run; what the wrapper does after
  \<open>func\<close> returned is a function of its own, since \<open>func\<close> may call the wrapper again before it
  returns, and may throw.  Time is an integer number of milliseconds that never runs backwards.
\<close>

section \<open>Events of a wrapper\<close>

text \<open>The history of a wrapper, newest event first: its calls, and the runs of
  \<open>func\<close> with the arguments saved then (\<open>None\<close> once they are reset).\<close>

datatype 'a event = Called int 'a | Ran int "'a option"

fun last_run :: "'a event list \<Rightarrow> int option" where
  "last_run [] = None"
| "last_run (Ran t a # es) = Some t"
| "last_run (Called t a # es) = last_run es"

fun last_call :: "'a event list \<Rightarrow> int option" where
  "last_call [] = None"
| "last_call (Called t a # es) = Some t"
| "last_call (Ran t a # es) = last_call es"

fun last_args :: "'a event list \<Rightarrow> 'a option" where
  "last_args [] = None"
| "last_args (Called t a # es) = Some a"
| "last_args (Ran t a # es) = last_args es"

text \<open>Consecutive runs are at least \<open>w\<close> apart.\<close>

fun spaced :: "int \<Rightarrow> 'a event list \<Rightarrow> bool" where
  "spaced w [] = True"
| "spaced w (Ran t a # es) = ((case last_run es of None \<Rightarrow> True | Some t' \<Rightarrow> w \<le> t - t') \<and> spaced w es)"
| "spaced w (Called t a # es) = spaced w es"

text \<open>Every run has the arguments of the latest call before it.\<close>

fun faithful :: "'a event list \<Rightarrow> bool" where
  "faithful [] = True"
| "faithful (Ran t a # es) = ((case last_args es of None \<Rightarrow> False | Some b \<Rightarrow> a = Some b) \<and> faithful es)"
| "faithful (Called t a # es) = faithful es"

section \<open>throttle\<close>

text \<open>\<open>options.leading === false\<close> and \<open>options.trailing !== false\<close> decide the two flags.\<close>

record throttle_options =
  wait :: int
  leading :: bool
  trailing :: bool

text \<open>
  \<open>timeout\<close> is the time the pending timer is due, \<open>args\<close> stands for the context and the
  arguments saved for the next run.
\<close>

record ('a, 'r) throttle =
  timeout :: "int option"
  previous :: int
  args :: "'a option"
  result :: "'r option"

definition throttle_init :: "('a, 'r) throttle" where
  "throttle_init = \<lparr>timeout = None, previous = 0, args = None, result = None\<rparr>"

definition throttle_call :: "throttle_options \<Rightarrow> int \<Rightarrow> 'a \<Rightarrow> ('a, 'r) throttle \<Rightarrow> ('a, 'r) throttle \<times> bool" where
  "throttle_call opts now a s =
     (let s1 = (if previous s = 0 \<and> \<not> leading opts then s\<lparr>previous := now\<rparr> else s);
          remaining = wait opts - (now - previous s1);
          s2 = s1\<lparr>args := Some a\<rparr>
      in if remaining \<le> 0 \<or> remaining > wait opts
         then (s2\<lparr>timeout := None, previous := now\<rparr>, True)
         else if timeout s2 = None \<and> trailing opts
         then (s2\<lparr>timeout := Some (now + remaining)\<rparr>, False)
         else (s2, False))"

definition throttle_later :: "throttle_options \<Rightarrow> int \<Rightarrow> ('a, 'r) throttle \<Rightarrow> ('a, 'r) throttle" where
  "throttle_later opts now s =
     s\<lparr>previous := (if \<not> leading opts then 0 else now), timeout := None\<rparr>"

text \<open>After \<open>func\<close> returned, in the timer's callback and in a call alike.\<close>

definition throttle_ran :: "'r \<Rightarrow> ('a, 'r) throttle \<Rightarrow> ('a, 'r) throttle" where
  "throttle_ran r s =
     (let s1 = s\<lparr>result := Some r\<rparr> in if timeout s1 = None then s1\<lparr>args := None\<rparr> else s1)"

text \<open>
  The machine: a call can come at any time, also while \<open>func\<close> runs (\<open>running\<close> counts the calls
  of \<open>func\<close> that have not returned); a timer fires once it is due and no script is running.
\<close>

record ('a, 'r) throttle_world =
  clock :: int
  wrapper :: "('a, 'r) throttle"
  running :: nat
  history :: "'a event list"

definition throttle_start :: "int \<Rightarrow> ('a, 'r) throttle_world" where
  "throttle_start t = \<lparr>clock = t, wrapper = throttle_init, running = 0, history = []\<rparr>"

inductive throttle_step ::
    "throttle_options \<Rightarrow> ('a, 'r) throttle_world \<Rightarrow> ('a, 'r) throttle_world \<Rightarrow> bool" for opts where
  Pass: "0 \<le> d \<Longrightarrow> throttle_step opts w (w\<lparr>clock := clock w + d\<rparr>)"
| Skip: "throttle_call opts (clock w) a (wrapper w) = (s, False) \<Longrightarrow>
    throttle_step opts w (w\<lparr>wrapper := s, history := Called (clock w) a # history w\<rparr>)"
| Lead: "throttle_call opts (clock w) a (wrapper w) = (s, True) \<Longrightarrow>
    throttle_step opts w (w\<lparr>wrapper := s, running := Suc (running w),
      history := Ran (clock w) (Some a) # Called (clock w) a # history w\<rparr>)"
| Fire: "running w = 0 \<Longrightarrow> timeout (wrapper w) = Some due \<Longrightarrow> due \<le> clock w \<Longrightarrow>
    throttle_step opts w (w\<lparr>wrapper := throttle_later opts (clock w) (wrapper w), running := 1,
      history := Ran (clock w) (args (wrapper w)) # history w\<rparr>)"
| Return: "running w = Suc n \<Longrightarrow>
    throttle_step opts w (w\<lparr>wrapper := throttle_ran r (wrapper w), running := n\<rparr>)"
| Throw: "running w = Suc n \<Longrightarrow> throttle_step opts w (w\<lparr>running := n\<rparr>)"

inductive_cases throttle_stepE: "throttle_step opts w w'"

definition throttle_inv :: "throttle_options \<Rightarrow> ('a, 'r) throttle_world \<Rightarrow> bool" where
  "throttle_inv opts w \<longleftrightarrow>
     0 < clock w \<and> 0 \<le> previous (wrapper w) \<and> previous (wrapper w) \<le> clock w \<and>
     (\<forall>t. last_run (history w) = Some t \<longrightarrow>
        t \<le> clock w \<and> (t \<le> previous (wrapper w) \<or> previous (wrapper w) = 0 \<and> \<not> leading opts)) \<and>
     (\<forall>due. timeout (wrapper w) = Some due \<longrightarrow>
        due = previous (wrapper w) + wait opts \<and> (leading opts \<or> 0 < previous (wrapper w)) \<and>
        (\<exists>a. args (wrapper w) = Some a \<and> last_args (history w) = Some a)) \<and>
     (\<forall>t a es. history w = Called t a # es \<longrightarrow>
        previous (wrapper w) \<le> t \<and> (trailing opts \<longrightarrow> timeout (wrapper w) \<noteq> None)) \<and>
     spaced (wait opts) (history w) \<and> faithful (history w)"

lemma throttle_inv_start: "0 < t \<Longrightarrow> throttle_inv opts (throttle_start t)"
  by (simp add: throttle_inv_def throttle_start_def throttle_init_def)

lemma throttle_inv_step: "throttle_inv opts w \<Longrightarrow> throttle_step opts w w' \<Longrightarrow> throttle_inv opts w'"
proof (erule throttle_stepE)
  fix a s
  assume "throttle_inv opts w" "throttle_call opts (clock w) a (wrapper w) = (s, False)"
    "w' = w\<lparr>wrapper := s, history := Called (clock w) a # history w\<rparr>"
  then show ?thesis
    by (auto simp: throttle_inv_def throttle_call_def Let_def split: if_splits)
next
  fix a s
  assume "throttle_inv opts w" "throttle_call opts (clock w) a (wrapper w) = (s, True)"
    "w' = w\<lparr>wrapper := s, running := Suc (running w), history := Ran (clock w) (Some a) # Called (clock w) a # history w\<rparr>"
  then show ?thesis
    by (auto simp: throttle_inv_def throttle_call_def Let_def split: if_splits option.splits)
qed (auto simp: throttle_inv_def throttle_later_def throttle_ran_def Let_def split: option.splits)

interpretation throttle: invariant_of "\<lambda>w. \<exists>t > 0. w = throttle_start t" "throttle_step opts" "throttle_inv opts" for opts
  by unfold_locales (auto intro: throttle_inv_start throttle_inv_step)

section \<open>debounce\<close>

record debounce_options =
  quiet_time :: int
  immediate :: bool

record ('a, 'r) debounce =
  d_timeout :: "int option"
  d_args :: "'a option"
  timestamp :: "int option"
  d_result :: "'r option"

definition debounce_init :: "('a, 'r) debounce" where
  "debounce_init = \<lparr>d_timeout = None, d_args = None, timestamp = None, d_result = None\<rparr>"

definition debounce_call :: "debounce_options \<Rightarrow> int \<Rightarrow> 'a \<Rightarrow> ('a, 'r) debounce \<Rightarrow> ('a, 'r) debounce \<times> bool" where
  "debounce_call opts now a s =
     (let s1 = s\<lparr>d_args := Some a, timestamp := Some now\<rparr>;
          callNow = (immediate opts \<and> d_timeout s1 = None)
      in (if d_timeout s1 = None then s1\<lparr>d_timeout := Some (now + quiet_time opts)\<rparr> else s1, callNow))"

text \<open>The timer's callback: set the timer again, or give up the timer and perhaps run \<open>func\<close>.\<close>

definition debounce_later :: "debounce_options \<Rightarrow> int \<Rightarrow> ('a, 'r) debounce \<Rightarrow> ('a, 'r) debounce \<times> bool" where
  "debounce_later opts now s =
     (case timestamp s of
        Some t \<Rightarrow>
          if now - t < quiet_time opts \<and> 0 \<le> now - t
          then (s\<lparr>d_timeout := Some (now + (quiet_time opts - (now - t)))\<rparr>, False)
          else (s\<lparr>d_timeout := None\<rparr>, \<not> immediate opts)
      | None \<Rightarrow> (s\<lparr>d_timeout := None\<rparr>, \<not> immediate opts))"

text \<open>After \<open>func\<close> returned to a call and to the timer's callback.\<close>

datatype runner = By_Call | By_Timer

definition debounce_ran :: "runner \<Rightarrow> 'r \<Rightarrow> ('a, 'r) debounce \<Rightarrow> ('a, 'r) debounce" where
  "debounce_ran k r s =
     (let s1 = s\<lparr>d_result := Some r\<rparr>
      in if k = By_Call \<or> d_timeout s1 = None then s1\<lparr>d_args := None\<rparr> else s1)"

record ('a, 'r) debounce_world =
  d_clock :: int
  debouncer :: "('a, 'r) debounce"
  runners :: "runner list"
  d_history :: "'a event list"

definition debounce_start :: "int \<Rightarrow> ('a, 'r) debounce_world" where
  "debounce_start t = \<lparr>d_clock = t, debouncer = debounce_init, runners = [], d_history = []\<rparr>"

inductive debounce_step ::
    "debounce_options \<Rightarrow> ('a, 'r) debounce_world \<Rightarrow> ('a, 'r) debounce_world \<Rightarrow> bool" for opts where
  Pass: "0 \<le> d \<Longrightarrow> debounce_step opts w (w\<lparr>d_clock := d_clock w + d\<rparr>)"
| Delay: "debounce_call opts (d_clock w) a (debouncer w) = (s, False) \<Longrightarrow>
    debounce_step opts w (w\<lparr>debouncer := s, d_history := Called (d_clock w) a # d_history w\<rparr>)"
| Lead: "debounce_call opts (d_clock w) a (debouncer w) = (s, True) \<Longrightarrow>
    debounce_step opts w (w\<lparr>debouncer := s, runners := By_Call # runners w,
      d_history := Ran (d_clock w) (Some a) # Called (d_clock w) a # d_history w\<rparr>)"
| Again: "runners w = [] \<Longrightarrow> d_timeout (debouncer w) = Some due \<Longrightarrow> due \<le> d_clock w \<Longrightarrow>
    debounce_later opts (d_clock w) (debouncer w) = (s, False) \<Longrightarrow>
    debounce_step opts w (w\<lparr>debouncer := s\<rparr>)"
| Fire: "runners w = [] \<Longrightarrow> d_timeout (debouncer w) = Some due \<Longrightarrow> due \<le> d_clock w \<Longrightarrow>
    debounce_later opts (d_clock w) (debouncer w) = (s, True) \<Longrightarrow>
    debounce_step opts w (w\<lparr>debouncer := s, runners := [By_Timer],
      d_history := Ran (d_clock w) (d_args (debouncer w)) # d_history w\<rparr>)"
| Return: "runners w = k # ks \<Longrightarrow>
    debounce_step opts w (w\<lparr>debouncer := debounce_ran k r (debouncer w), runners := ks\<rparr>)"
| Throw: "runners w = k # ks \<Longrightarrow> debounce_step opts w (w\<lparr>runners := ks\<rparr>)"

inductive_cases debounce_stepE: "debounce_step opts w w'"

text \<open>Each run comes after a pause of the calls, at its end or with the call that ends it.\<close>

fun after_pause :: "int \<Rightarrow> 'a event list \<Rightarrow> bool" where
  "after_pause p [] = True"
| "after_pause p (Ran t a # es) =
     ((case last_call es of None \<Rightarrow> False | Some t' \<Rightarrow> p \<le> t - t') \<and> after_pause p es)"
| "after_pause p (Called t a # es) = after_pause p es"

fun opens_burst :: "int \<Rightarrow> 'a event list \<Rightarrow> bool" where
  "opens_burst p [] = True"
| "opens_burst p (Ran t a # es) =
     ((case es of
         Called t' a' # es' \<Rightarrow> t' = t \<and> (case last_call es' of None \<Rightarrow> True | Some t'' \<Rightarrow> p \<le> t - t'')
       | _ \<Rightarrow> False) \<and> opens_burst p es)"
| "opens_burst p (Called t a # es) = opens_burst p es"

definition debounce_inv :: "debounce_options \<Rightarrow> ('a, 'r) debounce_world \<Rightarrow> bool" where
  "debounce_inv opts w \<longleftrightarrow>
     timestamp (debouncer w) = last_call (d_history w) \<and>
     (\<forall>t. last_call (d_history w) = Some t \<longrightarrow> t \<le> d_clock w) \<and>
     faithful (d_history w) \<and>
     (if immediate opts
      then (d_timeout (debouncer w) = None \<longrightarrow>
              (\<forall>t. last_call (d_history w) = Some t \<longrightarrow> t + quiet_time opts \<le> d_clock w)) \<and>
           opens_burst (quiet_time opts) (d_history w)
      else (\<forall>due. d_timeout (debouncer w) = Some due \<longrightarrow>
              (\<exists>a. d_args (debouncer w) = Some a \<and> last_args (d_history w) = Some a) \<and>
              (\<exists>t. last_call (d_history w) = Some t \<and> due \<le> t + quiet_time opts)) \<and>
           (\<forall>t a es. d_history w = Called t a # es \<longrightarrow> d_timeout (debouncer w) \<noteq> None) \<and>
           after_pause (quiet_time opts) (d_history w) \<and> By_Call \<notin> set (runners w))"

lemma debounce_inv_start: "debounce_inv opts (debounce_start t)"
  by (simp add: debounce_inv_def debounce_start_def debounce_init_def)

lemma debounce_inv_call:
  "debounce_inv opts w \<Longrightarrow> debounce_call opts (d_clock w) a (debouncer w) = (s, False) \<Longrightarrow>
    debounce_inv opts (w\<lparr>debouncer := s, d_history := Called (d_clock w) a # d_history w\<rparr>)"
  by (cases "immediate opts") (auto simp: debounce_inv_def debounce_call_def Let_def split: if_splits)

lemma debounce_inv_lead:
  "debounce_inv opts w \<Longrightarrow> debounce_call opts (d_clock w) a (debouncer w) = (s, True) \<Longrightarrow>
    debounce_inv opts (w\<lparr>debouncer := s, runners := By_Call # runners w,
      d_history := Ran (d_clock w) (Some a) # Called (d_clock w) a # d_history w\<rparr>)"
  by (auto simp: debounce_inv_def debounce_call_def Let_def split: if_splits option.splits)

lemma debounce_inv_again:
  "debounce_inv opts w \<Longrightarrow> d_timeout (debouncer w) = Some due \<Longrightarrow> due \<le> d_clock w \<Longrightarrow>
    debounce_later opts (d_clock w) (debouncer w) = (s, False) \<Longrightarrow> debounce_inv opts (w\<lparr>debouncer := s\<rparr>)"
  by (cases "immediate opts") (auto simp: debounce_inv_def debounce_later_def split: if_splits option.splits)

lemma debounce_inv_fire:
  "debounce_inv opts w \<Longrightarrow> d_timeout (debouncer w) = Some due \<Longrightarrow> due \<le> d_clock w \<Longrightarrow> runners w = [] \<Longrightarrow>
    debounce_later opts (d_clock w) (debouncer w) = (s, True) \<Longrightarrow>
    debounce_inv opts (w\<lparr>debouncer := s, runners := [By_Timer],
      d_history := Ran (d_clock w) (d_args (debouncer w)) # d_history w\<rparr>)"
  by (auto simp: debounce_inv_def debounce_later_def split: if_splits option.splits)

lemma debounce_inv_step: "debounce_inv opts w \<Longrightarrow> debounce_step opts w w' \<Longrightarrow> debounce_inv opts w'"
proof (erule debounce_stepE)
  fix d assume "debounce_inv opts w" "w' = w\<lparr>d_clock := d_clock w + d\<rparr>" "0 \<le> d"
  then show ?thesis by (fastforce simp: debounce_inv_def)
next
  fix k ks r
  assume "debounce_inv opts w" "w' = w\<lparr>debouncer := debounce_ran k r (debouncer w), runners := ks\<rparr>"
    "runners w = k # ks"
  then show ?thesis by (auto simp: debounce_inv_def debounce_ran_def Let_def split: if_splits)
next
  fix k ks
  assume "debounce_inv opts w" "w' = w\<lparr>runners := ks\<rparr>" "runners w = k # ks"
  then show ?thesis by (auto simp: debounce_inv_def split: if_splits)
qed (auto intro: debounce_inv_call debounce_inv_lead debounce_inv_again debounce_inv_fire)

interpretation debounce: invariant_of "\<lambda>w. \<exists>t. w = debounce_start t" "debounce_step opts" "debounce_inv opts" for opts
  by unfold_locales (auto intro: debounce_inv_start debounce_inv_step)

section \<open>Wrappers that count, remember and combine\<close>

text \<open>
  The arguments \<open>partial\<close> calls its function with: \<open>None\<close> is the placeholder \<open>_\<close>, and
  \<open>undef\<close> stands for the arguments a call leaves out.
\<close>

fun partial_args :: "'v \<Rightarrow> 'v option list \<Rightarrow> 'v list \<Rightarrow> 'v list" where
  "partial_args undef [] as = as"
| "partial_args undef (Some b # bs) as = b # partial_args undef bs as"
| "partial_args undef (None # bs) [] = undef # partial_args undef bs []"
| "partial_args undef (None # bs) (a # as) = a # partial_args undef bs as"

definition partial :: "'v \<Rightarrow> ('v list \<Rightarrow> 'r) \<Rightarrow> 'v option list \<Rightarrow> 'v list \<Rightarrow> 'r" where
  "partial undef func bound as = func (partial_args undef bound as)"

definition negate :: "('v list \<Rightarrow> bool) \<Rightarrow> 'v list \<Rightarrow> bool" where
  "negate predicate as \<longleftrightarrow> \<not> predicate as"

text \<open>The loop of \<open>compose\<close> goes down from the function before the last.\<close>

definition compose :: "('v \<Rightarrow> 'v) list \<Rightarrow> ('u \<Rightarrow> 'v) \<Rightarrow> 'u \<Rightarrow> 'v" where
  "compose fs g as = foldl (\<lambda>res i. (fs ! i) res) (g as) (rev [0..<length fs])"

lemma compose_foldr: "compose fs g as = foldr (\<lambda>f v. f v) fs (g as)"
proof -
  have "foldr (\<lambda>i v. (fs ! i) v) [0..<length fs] v = foldr (\<lambda>f v. f v) fs v" for v
    using foldr_map [of "\<lambda>f v. f v" "\<lambda>i. fs ! i" "[0..<length fs]" v] by (simp add: map_nth comp_def)
  then show ?thesis by (simp add: compose_def foldl_conv_foldr)
qed

text \<open>\<open>after\<close>: the counter and whether this call runs the function.\<close>

definition after_call :: "int \<Rightarrow> int \<times> bool" where
  "after_call n = (n - 1, n - 1 < 1)"

text \<open>
  \<open>before\<close> up to the run of the function, and the end of the call: \<open>func = null\<close> is the flag
  \<open>gone\<close>, and running a function that is gone would throw.
\<close>

record 'r before_state =
  left :: int
  memo :: "'r option"
  gone :: bool

definition before_enter :: "'r before_state \<Rightarrow> 'r before_state \<times> bool" where
  "before_enter s = (let s1 = s\<lparr>left := left s - 1\<rparr> in (s1, left s1 > 0))"

definition before_leave :: "'r option \<Rightarrow> 'r before_state \<Rightarrow> 'r before_state \<times> 'r option" where
  "before_leave r s =
     (let s1 = (case r of None \<Rightarrow> s | Some v \<Rightarrow> s\<lparr>memo := Some v\<rparr>);
          s2 = (if left s1 \<le> 1 then s1\<lparr>gone := True\<rparr> else s1)
      in (s2, memo s2))"

text \<open>A call whose function does not call the wrapper; \<open>None\<close> is the TypeError.\<close>

definition before_call :: "('a \<Rightarrow> 'r) \<Rightarrow> 'r before_state \<Rightarrow> 'a \<Rightarrow> ('r before_state \<times> 'r option) option" where
  "before_call func s a =
     (case before_enter s of
        (s1, True) \<Rightarrow> if gone s1 then None else Some (before_leave (Some (func a)) s1)
      | (s1, False) \<Rightarrow> Some (before_leave None s1))"

fun before_calls :: "('a \<Rightarrow> 'r) \<Rightarrow> 'r before_state \<Rightarrow> 'a list \<Rightarrow> 'r option list option" where
  "before_calls func s [] = Some []"
| "before_calls func s (a # as) =
     (case before_call func s a of
        None \<Rightarrow> None
      | Some (s1, r) \<Rightarrow> map_option ((#) r) (before_calls func s1 as))"

lemma before_calls_spent:
  "left s \<le> 1 \<Longrightarrow> before_calls func s as = Some (map (\<lambda>_. memo s) as)"
proof (induction as arbitrary: s)
  case (Cons a as)
  obtain s1 where s1: "before_call func s a = Some (s1, memo s)" "left s1 \<le> 1" "memo s1 = memo s"
    using Cons.prems by (auto simp: before_call_def before_enter_def before_leave_def Let_def)
  with Cons.IH [of s1] show ?case by simp
qed simp

lemma before_calls_run:
  "left s = 1 + int n \<Longrightarrow> \<not> gone s \<Longrightarrow>
    before_calls func s as =
      Some (map (Some \<circ> func) (take n as) @
            map (\<lambda>_. if n = 0 then memo s else Some (func (as ! (n - 1)))) (drop n as))"
proof (induction as arbitrary: s n)
  case (Cons a as)
  show ?case
  proof (cases n)
    case 0
    with Cons.prems before_calls_spent [of s func "a # as"] show ?thesis by simp
  next
    case (Suc m)
    let ?s1 = "s\<lparr>left := 1 + int m, memo := Some (func a)\<rparr>"
    have call: "before_call func s a = Some ((if m = 0 then ?s1\<lparr>gone := True\<rparr> else ?s1), Some (func a))"
      using Cons.prems Suc by (simp add: before_call_def before_enter_def before_leave_def Let_def)
    show ?thesis
    proof (cases m)
      case 0
      with call Suc before_calls_spent [of "?s1\<lparr>gone := True\<rparr>" func as] show ?thesis by simp
    next
      case (Suc k)
      with call \<open>n = Suc m\<close> Cons.IH [of ?s1 m] Cons.prems(2) show ?thesis by simp
    qed
  qed
qed simp

section \<open>Properties\<close>

text \<open>
  Property C18.  However a throttled function is called, by callers, by the timer and from inside
  the function itself, and whatever the two options are: two runs are at least \<open>wait\<close> apart, and
  each run has the arguments of the latest call before it.
\<close>
theorem throttle_paces:
  assumes "(throttle_step opts)\<^sup>*\<^sup>* (throttle_start t) w" and "0 < t"
  shows "spaced (wait opts) (history w) \<and> faithful (history w)"
  using throttle.holds [OF assms(1)] assms(2) by (auto simp: throttle_inv_def)

definition every_100 :: throttle_options where
  "every_100 = \<lparr>wait = 100, leading = True, trailing = True\<rparr>"

lemma throttle_two_calls:
  "(throttle_step every_100)\<^sup>*\<^sup>* (throttle_start 1000)
     (\<lparr>clock = 1030, wrapper = \<lparr>timeout = Some 1100, previous = 1000, args = Some (2 :: nat), result = Some ()\<rparr>,
       running = 0, history = [Called 1030 2, Ran 1000 (Some 1), Called 1000 1]\<rparr>)"
proof -
  let ?t = "\<lparr>timeout = None, previous = 1000, args = Some 1, result = None\<rparr> :: (nat, unit) throttle"
  let ?t' = "\<lparr>timeout = None, previous = 1000, args = None, result = Some ()\<rparr> :: (nat, unit) throttle"
  let ?h = "[Ran 1000 (Some 1), Called 1000 1]"
  let ?w1 = "\<lparr>clock = 1000, wrapper = ?t, running = 1, history = ?h\<rparr>"
  let ?w2 = "\<lparr>clock = 1000, wrapper = ?t', running = 0, history = ?h\<rparr>"
  let ?w3 = "\<lparr>clock = 1030, wrapper = ?t', running = 0, history = ?h\<rparr>"
  let ?w4 = "\<lparr>clock = 1030, wrapper = \<lparr>timeout = Some 1100, previous = 1000, args = Some 2, result = Some ()\<rparr>,
    running = 0, history = Called 1030 2 # ?h\<rparr>"
  have s1: "throttle_step every_100 (throttle_start 1000) ?w1"
    using throttle_step.Lead [of every_100 "throttle_start 1000" 1 ?t]
    by (simp add: throttle_start_def throttle_init_def throttle_call_def every_100_def)
  have s2: "throttle_step every_100 ?w1 ?w2"
    using throttle_step.Return [of ?w1 0 every_100 "()"] by (simp add: throttle_ran_def)
  have s3: "throttle_step every_100 ?w2 ?w3"
    using throttle_step.Pass [of 30 every_100 ?w2] by simp
  have s4: "throttle_step every_100 ?w3 ?w4"
    using throttle_step.Skip [of every_100 ?w3 2] by (simp add: throttle_call_def every_100_def)
  show ?thesis
    using s1 s2 s3 s4 by (meson rtranclp.rtrancl_refl rtranclp.rtrancl_into_rtrancl)
qed

theorem throttle_paces_witness:
  "spaced 100 [Called 1030 2, Ran 1000 (Some 1), Called 1000 (1 :: nat)] \<and>
   faithful [Called 1030 2, Ran 1000 (Some 1), Called 1000 (1 :: nat)]"
  using throttle_paces [OF throttle_two_calls] by (simp add: every_100_def)

text \<open>
  A throttled function forgets no call: while a call is the last event, and trailing
  runs are not switched off, its arguments are saved and the timer is due at most \<open>wait\<close> later.
\<close>
theorem throttle_keeps_last_call:
  assumes "(throttle_step opts)\<^sup>*\<^sup>* (throttle_start t) w" and "0 < t"
    and "trailing opts" and "history w = Called t' a # es"
  shows "\<exists>due. timeout (wrapper w) = Some due \<and> due \<le> t' + wait opts \<and> args (wrapper w) = Some a"
  using throttle.holds [OF assms(1)] assms(2-4) by (fastforce simp: throttle_inv_def)

theorem throttle_keeps_last_call_witness:
  "\<exists>due. Some 1100 = Some due \<and> due \<le> 1030 + wait every_100 \<and> Some (2 :: nat) = Some 2"
  using throttle_keeps_last_call [OF throttle_two_calls] by (simp add: every_100_def)

text \<open>
  Property C23.  A debounced function runs only after a pause of the calls: without \<open>immediate\<close>
  each run comes at least \<open>wait\<close> after the latest call, which keeps the timer set until then, and
  with its arguments; with \<open>immediate\<close> it runs in a call that comes at least \<open>wait\<close> after the
  call before it.
\<close>
theorem debounce_waits:
  assumes "(debounce_step opts)\<^sup>*\<^sup>* (debounce_start t) w"
  shows "faithful (d_history w) \<and>
    (if immediate opts then opens_burst (quiet_time opts) (d_history w)
     else after_pause (quiet_time opts) (d_history w) \<and>
       (\<forall>t' a es. d_history w = Called t' a # es \<longrightarrow>
          (\<exists>due. d_timeout (debouncer w) = Some due \<and> due \<le> t' + quiet_time opts) \<and>
          d_args (debouncer w) = Some a))"
  using debounce.holds [OF assms] by (fastforce simp: debounce_inv_def split: if_splits)

definition pause_50 :: debounce_options where
  "pause_50 = \<lparr>quiet_time = 50, immediate = False\<rparr>"

lemma debounce_one_call:
  "(debounce_step pause_50)\<^sup>*\<^sup>* (debounce_start 10 :: (nat, unit) debounce_world)
     (\<lparr>d_clock = 60, debouncer = \<lparr>d_timeout = None, d_args = Some 7, timestamp = Some 10, d_result = None\<rparr>,
       runners = [By_Timer], d_history = [Ran 60 (Some 7), Called 10 7]\<rparr>)"
proof -
  let ?d = "\<lparr>d_timeout = Some 60, d_args = Some 7, timestamp = Some 10, d_result = None\<rparr> :: (nat, unit) debounce"
  let ?d' = "\<lparr>d_timeout = None, d_args = Some 7, timestamp = Some 10, d_result = None\<rparr> :: (nat, unit) debounce"
  let ?w1 = "\<lparr>d_clock = 10, debouncer = ?d, runners = [], d_history = [Called 10 7]\<rparr>"
  let ?w2 = "\<lparr>d_clock = 60, debouncer = ?d, runners = [], d_history = [Called 10 7]\<rparr>"
  let ?w3 = "\<lparr>d_clock = 60, debouncer = ?d', runners = [By_Timer], d_history = [Ran 60 (Some 7), Called 10 7]\<rparr>"
  have s1: "debounce_step pause_50 (debounce_start 10) ?w1"
    using debounce_step.Delay [of pause_50 "debounce_start 10" 7 ?d]
    by (simp add: debounce_start_def debounce_init_def debounce_call_def pause_50_def)
  have s2: "debounce_step pause_50 ?w1 ?w2"
    using debounce_step.Pass [of 50 pause_50 ?w1] by simp
  have s3: "debounce_step pause_50 ?w2 ?w3"
    using debounce_step.Fire [of ?w2 60 pause_50 ?d'] by (simp add: debounce_later_def pause_50_def)
  show ?thesis
    using s1 s2 s3 by (meson rtranclp.rtrancl_refl rtranclp.rtrancl_into_rtrancl)
qed

theorem debounce_waits_witness:
  "faithful [Ran 60 (Some 7), Called 10 (7 :: nat)] \<and> after_pause 50 [Ran 60 (Some 7), Called 10 (7 :: nat)]"
  using debounce_waits [OF debounce_one_call] by (simp add: pause_50_def)

end
