(* ===== verification/Js_Memoize.thy ===== *)
theory Js_Memoize
  imports Js_Values
begin

text \<open>
  \<open>_.memoize\<close> of Underscore (\<open>site/assets/javascripts/lunr/wordcut.js\<close>, lines 5274 to 5284).

  The cache is a plain object, so the address \<open>__proto__\<close> is not a property of it: assigning to it
  replaces the prototype when the value is an object or \<open>null\<close> and does nothing otherwise, and
  reading it gives the prototype.  A memoised function may call itself, so what it computes works
  on the cache too; \<open>'s\<close> is the rest of the state.
\<close>

section \<open>The cache\<close>

record memo_cache =
  entries :: "ustr \<Rightarrow> jv option"
  proto :: jv

definition proto_key :: ustr where
  "proto_key = u ''__proto__''"

text \<open>\<open>object_prototype\<close> is the prototype of plain objects, and \<open>through p k\<close> what a read of \<open>k\<close>
  finds through the prototype \<open>p\<close>.\<close>

definition fresh_cache :: "jv \<Rightarrow> memo_cache" where
  "fresh_cache object_prototype = \<lparr>entries = (\<lambda>_. None), proto = object_prototype\<rparr>"

definition cache_set :: "ustr \<Rightarrow> jv \<Rightarrow> memo_cache \<Rightarrow> memo_cache" where
  "cache_set k v c =
     (if k = proto_key
      then (case v of Ref r \<Rightarrow> c\<lparr>proto := v\<rparr> | Null \<Rightarrow> c\<lparr>proto := Null\<rparr> | _ \<Rightarrow> c)
      else c\<lparr>entries := (entries c)(k \<mapsto> v)\<rparr>)"

definition cache_get :: "(jv \<Rightarrow> ustr \<Rightarrow> jv) \<Rightarrow> memo_cache \<Rightarrow> ustr \<Rightarrow> jv" where
  "cache_get through c k =
     (case entries c k of
        Some v \<Rightarrow> v
      | None \<Rightarrow> if k = proto_key then proto c else through (proto c) k)"

section \<open>The memoised function\<close>

text \<open>\<open>address\<close> is the text of the hasher's value, or of the first argument.\<close>

definition memoized ::
    "(jv \<Rightarrow> ustr \<Rightarrow> jv) \<Rightarrow> ('a \<Rightarrow> ustr) \<Rightarrow> ('a \<Rightarrow> memo_cache \<times> 's \<Rightarrow> jv \<times> memo_cache \<times> 's) \<Rightarrow>
     'a \<Rightarrow> memo_cache \<times> 's \<Rightarrow> jv \<times> memo_cache \<times> 's" where
  "memoized through address func a s =
     (let k = address a in
      if entries (fst s) k = None
      then (let (v, c, s') = func a s; c' = cache_set k v c in (cache_get through c' k, c', s'))
      else (cache_get through (fst s) k, s))"

fun memo_calls ::
    "('a \<Rightarrow> memo_cache \<times> 's \<Rightarrow> jv \<times> memo_cache \<times> 's) \<Rightarrow> 'a list \<Rightarrow> memo_cache \<times> 's \<Rightarrow> jv list \<times> memo_cache \<times> 's" where
  "memo_calls m [] s = ([], s)"
| "memo_calls m (a # as) s = (let (v, s1) = m a s; (vs, s2) = memo_calls m as s1 in (v # vs, s2))"

text \<open>A function that notes its calls.\<close>

definition logged :: "('a \<Rightarrow> jv) \<Rightarrow> 'a \<Rightarrow> memo_cache \<times> 'a list \<Rightarrow> jv \<times> memo_cache \<times> 'a list" where
  "logged f a s = (f a, fst s, snd s @ [a])"

section \<open>Reference\<close>

text \<open>The arguments whose address is new, and the first with the address of an argument.\<close>

fun new_addresses :: "('a \<Rightarrow> ustr) \<Rightarrow> ustr set \<Rightarrow> 'a list \<Rightarrow> 'a list" where
  "new_addresses address K [] = []"
| "new_addresses address K (a # as) =
     (if address a \<in> K then new_addresses address K as else a # new_addresses address (insert (address a) K) as)"

definition first_like :: "('a \<Rightarrow> ustr) \<Rightarrow> 'a list \<Rightarrow> 'a \<Rightarrow> 'a" where
  "first_like address as a = the (find (\<lambda>b. address b = address a) as)"

definition remembers :: "('a \<Rightarrow> ustr) \<Rightarrow> ('a \<Rightarrow> jv) \<Rightarrow> 'a list \<Rightarrow> memo_cache \<Rightarrow> bool" where
  "remembers address f seen c \<longleftrightarrow>
     (\<forall>k. entries c k = map_option f (find (\<lambda>b. address b = k) seen))"

lemma find_append_list: "find P (xs @ ys) = (case find P xs of None \<Rightarrow> find P ys | Some x \<Rightarrow> Some x)"
  by (induction xs) auto

lemma find_insert_known:
  "find P xs = None \<Longrightarrow> \<not> P a \<Longrightarrow> find P (xs @ a # ys) = find P (xs @ ys)"
  by (simp add: find_append_list)

lemma first_like_known:
  assumes "find (\<lambda>b. address b = address a) xs = Some d"
  shows "first_like address (xs @ a # ys) x = first_like address (xs @ ys) x"
proof (cases "find (\<lambda>b. address b = address x) xs")
  case None
  with assms have "address a \<noteq> address x" by auto
  with None show ?thesis by (simp add: first_like_def find_append_list)
qed (simp add: first_like_def find_append_list)

lemma memo_calls_reference:
  assumes "remembers address f (snd s) (fst s)" and "\<forall>a \<in> set as. address a \<noteq> proto_key"
  shows "fst (memo_calls (memoized through address (logged f)) as s) = map (\<lambda>a. f (first_like address (snd s @ as) a)) as \<and>
    snd (snd (memo_calls (memoized through address (logged f)) as s)) = snd s @ new_addresses address (address ` set (snd s)) as"
  using assms
proof (induction as arbitrary: s)
  case (Cons a as)
  obtain c l where s: "s = (c, l)" by fastforce
  have e: "entries c (address a) = map_option f (find (\<lambda>b. address b = address a) l)"
    using Cons.prems(1) by (simp add: s remembers_def)
  show ?case
  proof (cases "find (\<lambda>b. address b = address a) l")
    case (Some d)
    then have "d \<in> set l" "address d = address a" by (auto simp: find_Some_iff)
    then have "address a \<in> address ` set l" by (metis imageI)
    moreover have "memoized through address (logged f) a s = (f d, s)"
      using e Some by (simp add: memoized_def s cache_get_def)
    moreover have "first_like address (l @ a # as) a = d" using Some by (simp add: first_like_def find_append_list)
    ultimately show ?thesis
      using Cons.IH [OF Cons.prems(1)] Cons.prems(2) first_like_known [OF Some]
      by (simp add: s case_prod_beta Let_def)
  next
    case None
    let ?c = "c\<lparr>entries := (entries c)(address a \<mapsto> f a)\<rparr>"
    have "address a \<notin> address ` set l" using None by (auto simp: find_None_iff)
    moreover have "memoized through address (logged f) a s = (f a, ?c, l @ [a])"
      using e None Cons.prems(2) by (simp add: memoized_def logged_def s cache_get_def cache_set_def)
    moreover have "remembers address f (l @ [a]) ?c"
      using Cons.prems(1) None by (auto simp: remembers_def s find_append_list split: option.split)
    moreover have "first_like address (l @ a # as) a = a" using None by (simp add: first_like_def find_append_list)
    ultimately show ?thesis
      using Cons.IH [of "(?c, l @ [a])"] Cons.prems(2) by (simp add: s case_prod_beta Let_def)
  qed
qed simp

section \<open>Properties\<close>



text \<open>Under that address nothing is remembered, and calls return the prototype of objects.\<close>

lemma memoize_proto:
  "memo_calls (memoized through (\<lambda>k. k) (logged (\<lambda>_. Bool True))) [proto_key, proto_key] (fresh_cache p, []) =
     ([p, p], fresh_cache p, [proto_key, proto_key])"
  by (simp add: memoized_def logged_def fresh_cache_def cache_set_def cache_get_def)

end
