(* ===== verification/Js_Sort_By.thy ===== *)
theory Js_Sort_By
  imports Prelude
begin

text \<open>
  \<open>_.sortBy\<close> of Underscore (\<open>site/assets/javascripts/lunr/wordcut.js\<close>, lines 4896 to 4914) for
  criteria that are integers or \<open>undefined\<close>.

  \<open>Array.prototype.sort\<close> is an insertion sort with the comparator; as the positions make the
  comparator a strict total order, every correct sort gives the same array.
\<close>

section \<open>Criteria\<close>

datatype criterion = Crit int | NoCrit

text \<open>The order that the comparator is meant to give: \<open>undefined\<close> last.\<close>

instantiation criterion :: linorder
begin

definition less_eq_criterion :: "criterion \<Rightarrow> criterion \<Rightarrow> bool" where
  "less_eq_criterion a b = (case b of NoCrit \<Rightarrow> True | Crit y \<Rightarrow> (case a of NoCrit \<Rightarrow> False | Crit x \<Rightarrow> x \<le> y))"

definition less_criterion :: "criterion \<Rightarrow> criterion \<Rightarrow> bool" where
  "less_criterion a b \<longleftrightarrow> a \<le> b \<and> a \<noteq> b"

instance
proof
  fix x y z :: criterion
  show "x < y \<longleftrightarrow> x \<le> y \<and> \<not> y \<le> x"
    by (auto simp: less_criterion_def less_eq_criterion_def split: criterion.splits)
  show "x \<le> x" by (simp add: less_eq_criterion_def split: criterion.split)
  show "x \<le> y \<Longrightarrow> y \<le> z \<Longrightarrow> x \<le> z"
    by (auto simp: less_eq_criterion_def split: criterion.splits)
  show "x \<le> y \<Longrightarrow> y \<le> x \<Longrightarrow> x = y"
    by (auto simp: less_eq_criterion_def split: criterion.splits)
  show "x \<le> y \<or> y \<le> x"
    by (auto simp: less_eq_criterion_def split: criterion.splits)
qed

end

section \<open>Sorting\<close>

text \<open>\<open>>\<close> of the language, which is false when an operand is \<open>undefined\<close>.\<close>

fun js_greater :: "criterion \<Rightarrow> criterion \<Rightarrow> bool" where
  "js_greater (Crit x) (Crit y) = (x > y)"
| "js_greater _ _ = False"

type_synonym 'a criterion_entry = "'a \<times> nat \<times> criterion"

definition compare_entries :: "'a criterion_entry \<Rightarrow> 'a criterion_entry \<Rightarrow> int" where
  "compare_entries l r =
     (let (_, i, a) = l; (_, j, b) = r in
      if a \<noteq> b \<and> (js_greater a b \<or> a = NoCrit) then 1
      else if a \<noteq> b \<and> (js_greater b a \<or> b = NoCrit) then - 1
      else int i - int j)"

fun insert_with :: "('e \<Rightarrow> 'e \<Rightarrow> int) \<Rightarrow> 'e \<Rightarrow> 'e list \<Rightarrow> 'e list" where
  "insert_with cmp x [] = [x]"
| "insert_with cmp x (y # ys) = (if cmp x y \<le> 0 then x # y # ys else y # insert_with cmp x ys)"

definition sort_with :: "('e \<Rightarrow> 'e \<Rightarrow> int) \<Rightarrow> 'e list \<Rightarrow> 'e list" where
  "sort_with cmp xs = foldr (insert_with cmp) xs []"

definition sortBy :: "('a \<Rightarrow> criterion) \<Rightarrow> 'a list \<Rightarrow> 'a list" where
  "sortBy iteratee xs =
     map fst (sort_with compare_entries (map (\<lambda>(i, v). (v, i, iteratee v)) (enumerate 0 xs)))"

section \<open>Properties\<close>

lemma compare_entries_le:
  "i < j \<Longrightarrow> compare_entries (v, i, a) (w, j, b) \<le> 0 \<longleftrightarrow> a \<le> b"
  by (cases a; cases b) (auto simp: compare_entries_def less_eq_criterion_def)

lemma insert_with_insort:
  "\<forall>(w, j, b) \<in> set es. i < j \<and> b = f w \<Longrightarrow>
     map fst (insert_with compare_entries (v, i, f v) es) = insort_key f v (map fst es)"
  by (induction es) (auto simp: compare_entries_le)

lemma set_insert_with: "set (insert_with cmp x ys) = insert x (set ys)"
  by (induction ys) auto

lemma sort_with_positions:
  "map fst (sort_with compare_entries (map (\<lambda>(i, v). (v, i, f v)) (enumerate n xs))) = sort_key f xs \<and>
   (\<forall>(w, j, b) \<in> set (sort_with compare_entries (map (\<lambda>(i, v). (v, i, f v)) (enumerate n xs))). n \<le> j \<and> b = f w)"
proof (induction xs arbitrary: n)
  case (Cons x xs)
  let ?es = "sort_with compare_entries (map (\<lambda>(i, v). (v, i, f v)) (enumerate (Suc n) xs))"
  have es: "map fst ?es = sort_key f xs" "\<forall>(w, j, b) \<in> set ?es. n < j \<and> b = f w"
    using Cons [of "Suc n"] by (auto simp: Suc_le_eq)
  have s: "sort_with compare_entries (map (\<lambda>(i, v). (v, i, f v)) (enumerate n (x # xs))) =
      insert_with compare_entries (x, n, f x) ?es"
    by (simp add: sort_with_def)
  show ?case unfolding s using insert_with_insort [OF es(2)] es by (auto simp: set_insert_with)
qed (simp add: sort_with_def)


end
