(* ===== verification/Js_Escape.thy ===== *)
theory Js_Escape
  imports Js_Util
begin

text \<open>
  The utility functions of Underscore (\<open>site/assets/javascripts/lunr/wordcut.js\<close>, lines 5836 to
  5992): escaping for HTML and back, the compiler of templates with the default delimiters, and
  the small functions around them.

  A value that is escaped is the text it converts to, with \<open>None\<close> for \<open>null\<close> and \<open>undefined\<close>.  The
  keys of the two escape maps hold no character that is special in a regular expression, so their
  alternatives are tried in order at each position.  A compiled template is its source; running it
  is left to the engine.
\<close>

section \<open>Escaping\<close>

definition escapeMap :: "(ustr \<times> ustr) list" where
  "escapeMap = [([38], u ''&amp;''), ([60], u ''&lt;''), ([62], u ''&gt;''), ([34], u ''&quot;''),
     ([39], u ''&#x27;''), ([96], u ''&#x60;'')]"

definition unescapeMap :: "(ustr \<times> ustr) list" where
  "unescapeMap = map (\<lambda>(k, v). (v, k)) escapeMap"

definition key_at :: "(ustr \<times> ustr) list \<Rightarrow> ustr \<Rightarrow> (ustr \<times> ustr) option" where
  "key_at m s = find (\<lambda>(k, v). prefix k s) m"

fun key_occurs :: "(ustr \<times> ustr) list \<Rightarrow> ustr \<Rightarrow> bool" where
  "key_occurs m [] = False"
| "key_occurs m (c # s) = (key_at m (c # s) \<noteq> None \<or> key_occurs m s)"

text \<open>No key is empty.\<close>

fun replace_keys :: "(ustr \<times> ustr) list \<Rightarrow> ustr \<Rightarrow> ustr" where
  "replace_keys m [] = []"
| "replace_keys m (c # s) =
     (case key_at m (c # s) of
        None \<Rightarrow> c # replace_keys m s
      | Some (k, v) \<Rightarrow> v @ replace_keys m (drop (length k - 1) s))"

definition createEscaper :: "(ustr \<times> ustr) list \<Rightarrow> ustr option \<Rightarrow> ustr" where
  "createEscaper m string =
     (let s = (case string of None \<Rightarrow> [] | Some s \<Rightarrow> s) in if key_occurs m s then replace_keys m s else s)"

definition html_escape :: "ustr option \<Rightarrow> ustr" where
  "html_escape = createEscaper escapeMap"

definition html_unescape :: "ustr option \<Rightarrow> ustr" where
  "html_unescape = createEscaper unescapeMap"

section \<open>Templates\<close>

datatype template_piece = Literal ustr | EscapePart ustr | InterpolatePart ustr | EvaluatePart ustr

text \<open>\<open>([\s\S]+?)%>\<close>: the shortest text of at least one character before the delimiter.\<close>

fun up_to_close :: "ustr \<Rightarrow> (ustr \<times> ustr) option" where
  "up_to_close [] = None"
| "up_to_close (c # s) = (if take 2 (c # s) = [37, 62] then Some ([], drop 1 s)
     else map_option (\<lambda>(content, rest). (c # content, rest)) (up_to_close s))"

definition lazy_part :: "ustr \<Rightarrow> (ustr \<times> ustr) option" where
  "lazy_part s = (case s of [] \<Rightarrow> None | c # s' \<Rightarrow> map_option (\<lambda>(content, rest). (c # content, rest)) (up_to_close s'))"

definition delimited :: "ustr \<Rightarrow> ustr \<Rightarrow> (ustr \<times> ustr) option" where
  "delimited opening s = (if prefix opening s then lazy_part (drop (length opening) s) else None)"

text \<open>The alternatives of \<open>matcher\<close> at a position.\<close>

definition match_here :: "ustr \<Rightarrow> (template_piece \<times> ustr) option" where
  "match_here s =
     (case delimited (u ''<%-'') s of
        Some (e, r) \<Rightarrow> Some (EscapePart e, r)
      | None \<Rightarrow>
          (case delimited (u ''<%='') s of
             Some (e, r) \<Rightarrow> Some (InterpolatePart e, r)
           | None \<Rightarrow>
               (case delimited (u ''<%'') s of
                  Some (e, r) \<Rightarrow> Some (EvaluatePart e, r)
                | None \<Rightarrow> None)))"

lemma up_to_close_shorter: "up_to_close s = Some (c, r) \<Longrightarrow> s = c @ [37, 62] @ r"
proof (induction s arbitrary: c)
  case (Cons x s)
  then show ?case by (cases s) (auto split: if_splits)
qed simp

lemma lazy_part_text: "lazy_part s = Some (c, r) \<Longrightarrow> s = c @ [37, 62] @ r \<and> c \<noteq> []"
  by (cases s) (auto simp: lazy_part_def dest: up_to_close_shorter)

lemma delimited_text: "delimited opening s = Some (c, r) \<Longrightarrow> s = opening @ c @ [37, 62] @ r \<and> c \<noteq> []"
  by (auto simp: delimited_def prefix_def dest: lazy_part_text split: if_splits)

fun template_text :: "template_piece \<Rightarrow> ustr" where
  "template_text (Literal t) = t"
| "template_text (EscapePart e) = u ''<%-'' @ e @ u ''%>''"
| "template_text (InterpolatePart e) = u ''<%='' @ e @ u ''%>''"
| "template_text (EvaluatePart e) = u ''<%'' @ e @ u ''%>''"

lemma match_here_text: "match_here s = Some (p, r) \<Longrightarrow> s = template_text p @ r \<and> length r < length s"
  by (auto simp: match_here_def u_def dest!: delimited_text split: option.splits)

lemma match_here_shorter: "match_here (c # s) = Some (p, r) \<Longrightarrow> length r < Suc (length s)"
  by (drule match_here_text, drule conjunct2) simp

text \<open>The calls of the replacer: the text before each match and the match; the last is at the end.\<close>

function pieces :: "ustr \<Rightarrow> ustr \<Rightarrow> template_piece list" where
  "pieces lit [] = [Literal lit]"
| "pieces lit (c # s) =
     (case match_here (c # s) of
        None \<Rightarrow> pieces (lit @ [c]) s
      | Some (p, r) \<Rightarrow> Literal lit # p # pieces [] r)"
  by pat_completeness auto
termination
  by (relation "measure (\<lambda>(lit, s). length s)") (auto dest: match_here_shorter)

definition escapes :: "(nat \<times> ustr) list" where
  "escapes = [(39, [39]), (92, [92]), (13, u ''r''), (10, u ''n''), (8232, u ''u2028''), (8233, u ''u2029'')]"

definition escapeChar :: "nat \<Rightarrow> ustr" where
  "escapeChar c = (case map_of escapes c of None \<Rightarrow> [c] | Some e \<Rightarrow> 92 # e)"

definition escape_literal :: "ustr \<Rightarrow> ustr" where
  "escape_literal s = concat (map escapeChar s)"

fun compile_piece :: "template_piece \<Rightarrow> ustr" where
  "compile_piece (Literal t) = escape_literal t"
| "compile_piece (EscapePart e) = [39] @ u ''+'' @ [10] @ u ''((__t=('' @ e @ u ''))==null?'' @ [39, 39] @ u '':_.escape(__t))+'' @ [10, 39]"
| "compile_piece (InterpolatePart e) = [39] @ u ''+'' @ [10] @ u ''((__t=('' @ e @ u ''))==null?'' @ [39, 39] @ u '':__t)+'' @ [10, 39]"
| "compile_piece (EvaluatePart e) = [39] @ u '';'' @ [10] @ e @ [10] @ u ''__p+='' @ [39]"

text \<open>\<open>variable\<close> is the setting of that name; an empty one counts as none.\<close>

definition template_body :: "ustr \<Rightarrow> ustr \<Rightarrow> ustr" where
  "template_body variable s =
     (let src = u ''__p+='' @ [39] @ concat (map compile_piece (pieces [] s)) @ [39] @ u '';'' @ [10];
          scoped = (if variable = [] then u ''with(obj||{}){'' @ [10] @ src @ u ''}'' @ [10] else src)
      in u ''var __t,__p='' @ [39, 39] @ u '',__j=Array.prototype.join,print=function(){__p+=__j.call(arguments,'' @
           [39, 39] @ u '');};'' @ [10] @ scoped @ u ''return __p;'' @ [10])"

definition template_source :: "ustr \<Rightarrow> ustr \<Rightarrow> ustr" where
  "template_source variable s =
     u ''function('' @ (if variable = [] then u ''obj'' else variable) @ u ''){'' @ [10] @ template_body variable s @ u ''}''"

section \<open>Small functions\<close>

text \<open>\<open>uniqueId\<close> over its counter.\<close>

definition uniqueId :: "ustr \<Rightarrow> nat \<Rightarrow> ustr \<times> nat" where
  "uniqueId pre counter =
     (let n = Suc counter; id = int_text (int n) in (if pre = [] then id else pre @ id, n))"

text \<open>\<open>times\<close>, whose calls may change a state.\<close>

fun js_times :: "nat \<Rightarrow> nat \<Rightarrow> (nat \<Rightarrow> 's \<Rightarrow> 'v \<times> 's) \<Rightarrow> 's \<Rightarrow> 'v list \<times> 's" where
  "js_times 0 i f s = ([], s)"
| "js_times (Suc n) i f s = (let (v, s1) = f i s; (vs, s2) = js_times n (Suc i) f s1 in (v # vs, s2))"

section \<open>Reading back\<close>

lemma createEscaper_some: "createEscaper m (Some s) = replace_keys m s"
proof -
  have "\<not> key_occurs m s \<Longrightarrow> replace_keys m s = s"
    by (induction s) (auto simp del: not_None_eq)
  then show ?thesis by (simp add: createEscaper_def)
qed

definition escape_unit :: "nat \<Rightarrow> ustr" where
  "escape_unit c = (case map_of escapeMap [c] of None \<Rightarrow> [c] | Some v \<Rightarrow> v)"

lemma escape_Cons: "replace_keys escapeMap (c # s) = escape_unit c @ replace_keys escapeMap s"
  by (simp add: key_at_def escapeMap_def escape_unit_def)

lemma unescape_unit: "replace_keys unescapeMap (escape_unit c @ t) = c # replace_keys unescapeMap t"
  by (simp add: key_at_def escapeMap_def unescapeMap_def escape_unit_def u_def)

lemma escape_unit_safe: "set (escape_unit c) \<inter> {60, 62, 34, 39, 96} = {}"
  by (simp add: escape_unit_def escapeMap_def u_def)

text \<open>A literal in single quotes, up to the quote that ends it, as the language reads it.\<close>

fun hex_number :: "nat \<Rightarrow> nat option" where
  "hex_number c = (if 48 \<le> c \<and> c \<le> 57 then Some (c - 48) else if 97 \<le> c \<and> c \<le> 102 then Some (c - 87) else None)"

definition unicode_escape :: "ustr \<Rightarrow> nat option" where
  "unicode_escape ds =
     (case map hex_number ds of
        [Some a, Some b, Some c, Some d] \<Rightarrow> Some (((a * 16 + b) * 16 + c) * 16 + d)
      | _ \<Rightarrow> None)"

fun read_quoted :: "ustr \<Rightarrow> (ustr \<times> ustr) option" where
  "read_quoted [] = None"
| "read_quoted (c # s) =
     (if c = 39 then Some ([], s)
      else if c = 10 \<or> c = 13 \<or> c = 8232 \<or> c = 8233 then None
      else if c \<noteq> 92 then map_option (\<lambda>(t, r). (c # t, r)) (read_quoted s)
      else (case s of
              [] \<Rightarrow> None
            | e # s' \<Rightarrow>
                if e = 110 then map_option (\<lambda>(t, r). (10 # t, r)) (read_quoted s')
                else if e = 114 then map_option (\<lambda>(t, r). (13 # t, r)) (read_quoted s')
                else if e = 39 \<or> e = 92 then map_option (\<lambda>(t, r). (e # t, r)) (read_quoted s')
                else if e = 117 then
                  (case unicode_escape (take 4 s') of
                     None \<Rightarrow> None
                   | Some x \<Rightarrow> map_option (\<lambda>(t, r). (x # t, r)) (read_quoted (drop 4 s')))
                else None))"

lemma read_escaped: "read_quoted (escapeChar c @ s) = map_option (\<lambda>(t, r). (c # t, r)) (read_quoted s)"
  by (simp add: escapeChar_def escapes_def u_def unicode_escape_def)

lemma pieces_text: "concat (map template_text (pieces lit s)) = lit @ s"
  by (induction lit s rule: pieces.induct) (auto dest!: match_here_text split: option.split)

section \<open>Properties\<close>


text \<open>
  Property C36.  A template keeps its text: the pieces it is cut into are the text, and what the
  compiler writes between single quotes for a piece of text is a literal that reads back as it.
\<close>
theorem template_keeps_text:
  "concat (map template_text (pieces [] s)) = s \<and>
   read_quoted (compile_piece (Literal t) @ 39 # rest) = Some (t, rest)"
proof
  show "concat (map template_text (pieces [] s)) = s" by (simp add: pieces_text)
  have "read_quoted (escape_literal t @ 39 # rest) = Some (t, rest)"
    by (induction t) (simp_all add: escape_literal_def read_escaped del: read_quoted.simps(2), simp)
  then show "read_quoted (compile_piece (Literal t) @ 39 # rest) = Some (t, rest)" by simp
qed

text \<open>Two calls with one prefix never agree, and two calls with different ones may.\<close>

lemma uniqueId_collides: "fst (uniqueId (u ''1'') 0) = fst (uniqueId [] 10)"
  by code_simp

end
