(* ===== verification/Js_Shim.thy ===== *)
theory Js_Shim
  imports Js_Path
begin

text \<open>
  The modules 23 and 24 of the bundle (\<open>site/assets/javascripts/lunr/wordcut.js\<close>, lines 4313 to
  4521) beside the tick queue: absolute paths of both platforms, and how the process shim finds
  the timer functions of its host, which may be missing, be declared later or be replaced.
\<close>

section \<open>Absolute paths\<close>

definition posix :: "ustr \<Rightarrow> bool" where
  "posix path \<longleftrightarrow> take 1 path = [SLASH]"

definition is_slash :: "nat \<Rightarrow> bool" where
  "is_slash c \<longleftrightarrow> c = SLASH \<or> c = 92"

definition drive_letter :: "nat \<Rightarrow> bool" where
  "drive_letter c \<longleftrightarrow> 65 \<le> c \<and> c \<le> 90 \<or> 97 \<le> c \<and> c \<le> 122"

text \<open>
  The first group of \<open>splitDeviceRe\<close>: a drive, or two slashes, a name, slashes and a name.  Its runs
  are greedy, and as slashes and other characters alternate none of them can give a character back.
\<close>

definition unc_length :: "ustr \<Rightarrow> nat option" where
  "unc_length path =
     (let r0 = drop 2 path;
          server = takeWhile (\<lambda>c. \<not> is_slash c) r0; r1 = drop (length server) r0;
          slashes = takeWhile is_slash r1; r2 = drop (length slashes) r1;
          share = takeWhile (\<lambda>c. \<not> is_slash c) r2
      in if length (take 2 path) = 2 \<and> list_all is_slash (take 2 path) \<and> server \<noteq> [] \<and> slashes \<noteq> [] \<and> share \<noteq> []
         then Some (2 + length server + length slashes + length share) else None)"

definition device :: "ustr \<Rightarrow> ustr" where
  "device path =
     (case path of
        c # d # _ \<Rightarrow>
          if drive_letter c \<and> d = 58 then [c, d]
          else (case unc_length path of None \<Rightarrow> [] | Some n \<Rightarrow> take n path)
      | _ \<Rightarrow> [])"

definition win32 :: "ustr \<Rightarrow> bool" where
  "win32 path =
     (let dev = device path;
          isUnc = (dev \<noteq> [] \<and> take 1 (drop 1 dev) \<noteq> [58]);
          rest = drop (length dev) path
      in (rest \<noteq> [] \<and> is_slash (hd rest)) \<or> isUnc)"

section \<open>Timer functions\<close>

text \<open>What a variable holds: a falsy value, the default that throws, a function of the host, or
  something that cannot be called; the global variable may not be declared at all.\<close>

datatype timer_fn = NoTimer | DefaultTimer | HostTimer nat | NotCallable nat

datatype global_var = Undeclared | Declared timer_fn

datatype receiver = PlainCall | NullThis | ModuleThis

datatype timer_error = ReferenceError | ThrownBy timer_fn

definition init_cached :: "global_var \<Rightarrow> timer_fn" where
  "init_cached g = (case g of Declared (HostTimer n) \<Rightarrow> HostTimer n | _ \<Rightarrow> DefaultTimer)"

text \<open>\<open>hosts n rc\<close> is what the function \<open>n\<close> of the host gives, \<open>None\<close> when it throws.\<close>

definition call_timer :: "(nat \<Rightarrow> receiver \<Rightarrow> 'r option) \<Rightarrow> timer_fn \<Rightarrow> receiver \<Rightarrow> timer_error + 'r" where
  "call_timer hosts t rc =
     (case t of
        HostTimer n \<Rightarrow> (case hosts n rc of None \<Rightarrow> Inl (ThrownBy t) | Some r \<Rightarrow> Inr r)
      | _ \<Rightarrow> Inl (ThrownBy t))"

fun try_in_turn :: "(nat \<Rightarrow> receiver \<Rightarrow> 'r option) \<Rightarrow> timer_fn \<Rightarrow> receiver list \<Rightarrow> (timer_error + 'r) \<times> receiver list" where
  "try_in_turn hosts t [] = (Inl (ThrownBy t), [])"
| "try_in_turn hosts t [rc] = (call_timer hosts t rc, [rc])"
| "try_in_turn hosts t (rc # rcs) =
     (case call_timer hosts t rc of
        Inr r \<Rightarrow> (Inr r, [rc])
      | Inl _ \<Rightarrow> (let (res, tried) = try_in_turn hosts t rcs in (res, rc # tried)))"

text \<open>\<open>runTimeout\<close> with the result, the cached function afterwards and the calls made.\<close>

definition shim_timer ::
    "(nat \<Rightarrow> receiver \<Rightarrow> 'r option) \<Rightarrow> global_var \<Rightarrow> timer_fn \<Rightarrow> (timer_error + 'r) \<times> timer_fn \<times> (timer_fn \<times> receiver) list" where
  "shim_timer hosts g cached =
     (case g of
        Undeclared \<Rightarrow> (Inl ReferenceError, cached, [])
      | Declared t \<Rightarrow>
          if cached = t then (call_timer hosts t PlainCall, cached, [(t, PlainCall)])
          else if (cached = DefaultTimer \<or> cached = NoTimer) \<and> t \<noteq> NoTimer
          then (call_timer hosts t PlainCall, t, [(t, PlainCall)])
          else (let (res, tried) = try_in_turn hosts cached [PlainCall, NullThis, ModuleThis]
                in (res, cached, map (Pair cached) tried)))"

text \<open>\<open>runClearTimeout\<close> is the same code over the other variable.\<close>

definition shim_clear ::
    "(nat \<Rightarrow> receiver \<Rightarrow> 'r option) \<Rightarrow> global_var \<Rightarrow> timer_fn \<Rightarrow> (timer_error + 'r) \<times> timer_fn \<times> (timer_fn \<times> receiver) list" where
  "shim_clear = shim_timer"

section \<open>Facts\<close>

lemma posix_isAbsolute: "posix = isAbsolute"
  by (rule ext) (simp add: posix_def isAbsolute_def)

lemma posix_win32: "posix path \<Longrightarrow> win32 path"
proof (cases path)
  case (Cons c s)
  assume "posix path"
  with Cons have c: "c = SLASH" by (simp add: posix_def)
  then have dev: "device path = [] \<or> (\<exists>n. device path = take n path \<and> unc_length path = Some n)"
    by (auto simp: Cons device_def drive_letter_def split: list.split option.split)
  show ?thesis
  proof (cases "device path = []")
    case True
    with Cons c show ?thesis by (simp add: win32_def is_slash_def)
  next
    case False
    with dev obtain n where n: "device path = take n path" "unc_length path = Some n" by blast
    from n(2) have "take 2 path ! 1 = SLASH \<or> take 2 path ! 1 = 92" "2 \<le> n" "2 \<le> length path"
      by (auto simp: unc_length_def Let_def list_all_length is_slash_def split: if_splits)
    with n(1) False have "take 1 (drop 1 (device path)) \<noteq> [58]"
      by (cases s; cases n; cases "n - 1") (auto simp: Cons)
    with False show ?thesis by (simp add: win32_def Let_def)
  qed
qed (simp add: posix_def)

lemma init_cached_cases: "init_cached g = DefaultTimer \<or> (\<exists>n. init_cached g = HostTimer n)"
  by (simp add: init_cached_def split: global_var.split timer_fn.split)

text \<open>
  The message that a timer has not been defined is thrown exactly when the global
  variable is declared and holds nothing: where it is not declared at all, which is what the
  default was made for, the shim fails with a ReferenceError before any call.
\<close>
theorem timer_default_reached:
  "(\<exists>c calls. shim_timer hosts g (init_cached g0) = (Inl (ThrownBy DefaultTimer), c, calls)) \<longleftrightarrow>
     init_cached g0 = DefaultTimer \<and> (g = Declared NoTimer \<or> g = Declared DefaultTimer)"
  using init_cached_cases [of g0]
  by (cases g; cases "init_cached g0")
    (auto simp: shim_timer_def call_timer_def Let_def split: timer_fn.splits option.splits prod.splits)

text \<open>The calls go to one function, in the order of the receivers, up to the first that returns.\<close>

lemma shim_timer_calls:
  "shim_timer hosts g cached = (res, c, calls) \<Longrightarrow>
     \<exists>t n. calls = map (Pair t) (take n [PlainCall, NullThis, ModuleThis]) \<and>
       (t = cached \<or> g = Declared t \<and> c = t)"
proof (cases g)
  case (Declared t)
  assume run: "shim_timer hosts g cached = (res, c, calls)"
  have tried: "\<exists>n. snd (try_in_turn hosts cached [PlainCall, NullThis, ModuleThis]) = take n [PlainCall, NullThis, ModuleThis]"
    by (auto simp: Let_def split: sum.split prod.split intro: exI [of _ 1] exI [of _ 2] exI [of _ 3])
  obtain res' tr where t: "try_in_turn hosts cached [PlainCall, NullThis, ModuleThis] = (res', tr)" by fastforce
  with tried obtain n where n: "tr = take n [PlainCall, NullThis, ModuleThis]" by auto
  have "calls = map (Pair t) (take 1 [PlainCall, NullThis, ModuleThis]) \<and> c = t \<or> calls = map (Pair cached) tr"
    using run Declared t by (auto simp: shim_timer_def simp del: try_in_turn.simps split: if_splits)
  then show ?thesis using n Declared by blast
qed (auto simp: shim_timer_def intro: exI [of _ 0])

end
