(* ===== verification/Py_Text.thy ===== *)
theory Py_Text
  imports Prelude
begin

text \<open>
  What the Python package uses of the language's strings: case mapping, stripping, \<open>int()\<close> and the
  UTF-8 codec.

  A string is its list of code points.  The Unicode tables beyond ASCII (case mapping, decimal
  digits, white space) are the argument \<open>unicode\<close>; the ASCII part is written out.  Encoding
  fails on surrogates, and a decoder that replaces errors puts U+FFFD for each maximal part of
  an ill-formed sequence.
\<close>

section \<open>Case, white space and numbers\<close>

record unicode =
  wide_upper :: "nat \<Rightarrow> ustr"
  wide_digit :: "nat \<Rightarrow> nat option"
  wide_space :: "nat \<Rightarrow> bool"

definition upper_char :: "unicode \<Rightarrow> nat \<Rightarrow> ustr" where
  "upper_char U c = (if 97 \<le> c \<and> c \<le> 122 then [c - 32] else if c < 128 then [c] else wide_upper U c)"

definition py_upper :: "unicode \<Rightarrow> ustr \<Rightarrow> ustr" where
  "py_upper U s = concat (map (upper_char U) s)"

definition py_space :: "unicode \<Rightarrow> nat \<Rightarrow> bool" where
  "py_space U c \<longleftrightarrow> (if c < 128 then 9 \<le> c \<and> c \<le> 13 \<or> 28 \<le> c \<and> c \<le> 32 else wide_space U c)"

definition py_strip :: "unicode \<Rightarrow> ustr \<Rightarrow> ustr" where
  "py_strip U s = rev (dropWhile (py_space U) (rev (dropWhile (py_space U) s)))"

definition py_digit :: "unicode \<Rightarrow> nat \<Rightarrow> nat option" where
  "py_digit U c = (if 48 \<le> c \<and> c \<le> 57 then Some (c - 48) else if c < 128 then None else wide_digit U c)"

text \<open>Digits with single underscores between them; \<open>None\<close> is \<open>ValueError\<close>.\<close>

fun read_digits :: "unicode \<Rightarrow> ustr \<Rightarrow> nat \<Rightarrow> nat \<Rightarrow> (nat \<times> nat) option" where
  "read_digits U [] n k = Some (n, k)"
| "read_digits U (c # cs) n k =
     (if c = 95
      then (case cs of
              [] \<Rightarrow> None
            | d # ds \<Rightarrow> (case py_digit U d of None \<Rightarrow> None | Some v \<Rightarrow> read_digits U ds (10 * n + v) (Suc k)))
      else (case py_digit U c of None \<Rightarrow> None | Some v \<Rightarrow> read_digits U cs (10 * n + v) (Suc k)))"

text \<open>\<open>int(s)\<close>: at most 4300 digits.\<close>

definition py_int :: "unicode \<Rightarrow> ustr \<Rightarrow> int option" where
  "py_int U s =
     (let t = py_strip U s;
          neg = (take 1 t = [45]);
          ds = (if t \<noteq> [] \<and> hd t \<in> {43, 45} then tl t else t)
      in if ds = [] \<or> hd ds = 95 then None
         else (case read_digits U ds 0 0 of
                 None \<Rightarrow> None
               | Some (n, k) \<Rightarrow> if 4300 < k then None else Some (if neg then - int n else int n)))"

section \<open>UTF-8\<close>

definition scalar :: "nat \<Rightarrow> bool" where
  "scalar c \<longleftrightarrow> c < 0xD800 \<or> 0xE000 \<le> c \<and> c < 0x110000"

definition utf8_char :: "nat \<Rightarrow> nat list" where
  "utf8_char c =
     (if c < 0x80 then [c]
      else if c < 0x800 then [0xC0 + c div 64, 0x80 + c mod 64]
      else if c < 0x10000 then [0xE0 + c div 4096, 0x80 + c div 64 mod 64, 0x80 + c mod 64]
      else [0xF0 + c div 262144, 0x80 + c div 4096 mod 64, 0x80 + c div 64 mod 64, 0x80 + c mod 64])"

definition utf8_encode :: "ustr \<Rightarrow> nat list option" where
  "utf8_encode s = (if list_all scalar s then Some (concat (map utf8_char s)) else None)"

definition continuation :: "nat \<Rightarrow> bool" where
  "continuation b \<longleftrightarrow> 0x80 \<le> b \<and> b < 0xC0"

text \<open>The second byte allowed after a first one, and the length a first byte announces.\<close>

definition second_ok :: "nat \<Rightarrow> nat \<Rightarrow> bool" where
  "second_ok a b \<longleftrightarrow>
     (if a = 0xE0 then 0xA0 \<le> b \<and> b < 0xC0
      else if a = 0xED then 0x80 \<le> b \<and> b < 0xA0
      else if a = 0xF0 then 0x90 \<le> b \<and> b < 0xC0
      else if a = 0xF4 then 0x80 \<le> b \<and> b < 0x90
      else continuation b)"

definition announced :: "nat \<Rightarrow> nat" where
  "announced a =
     (if a < 0x80 then 1 else if 0xC2 \<le> a \<and> a < 0xE0 then 2
      else if 0xE0 \<le> a \<and> a < 0xF0 then 3 else if 0xF0 \<le> a \<and> a < 0xF5 then 4 else 0)"

text \<open>
  One step of the decoder: a character or \<open>None\<close> for an ill-formed part, and what follows.
\<close>

fun utf8_step :: "nat list \<Rightarrow> (nat option \<times> nat list) option" where
  "utf8_step [] = None"
| "utf8_step (a # bs) =
     Some (if announced a = 1 then (Some a, bs)
       else if announced a = 0 then (None, bs)
       else (case bs of
          [] \<Rightarrow> (None, [])
        | b # cs \<Rightarrow>
            if \<not> second_ok a b then (None, bs)
            else if announced a = 2 then (Some ((a - 0xC0) * 64 + (b - 0x80)), cs)
            else (case cs of
               [] \<Rightarrow> (None, [])
             | c # ds \<Rightarrow>
                 if \<not> continuation c then (None, cs)
                 else if announced a = 3
                 then (Some ((a - 0xE0) * 4096 + (b - 0x80) * 64 + (c - 0x80)), ds)
                 else (case ds of
                    [] \<Rightarrow> (None, [])
                  | d # es \<Rightarrow>
                      if \<not> continuation d then (None, ds)
                      else (Some ((a - 0xF0) * 262144 + (b - 0x80) * 4096 + (c - 0x80) * 64 + (d - 0x80)),
                            es)))))"

lemma utf8_step_shrinks: "utf8_step bs = Some (r, bs') \<Longrightarrow> length bs' < length bs"
  by (induction bs rule: utf8_step.induct) (auto split: list.splits if_splits)

function utf8_chunks :: "nat list \<Rightarrow> nat option list" where
  "utf8_chunks bs = (case utf8_step bs of None \<Rightarrow> [] | Some (r, bs') \<Rightarrow> r # utf8_chunks bs')"
  by pat_completeness auto
termination
  by (relation "measure length") (auto dest: utf8_step_shrinks)

declare utf8_chunks.simps [simp del]

definition utf8_decode :: "nat list \<Rightarrow> ustr option" where
  "utf8_decode bs = those (utf8_chunks bs)"

definition utf8_decode_replace :: "nat list \<Rightarrow> ustr" where
  "utf8_decode_replace bs = map (\<lambda>r. case r of None \<Rightarrow> 0xFFFD | Some c \<Rightarrow> c) (utf8_chunks bs)"

section \<open>Codecs\<close>

text \<open>
  Encodings that can be read off the front of a stream: what follows is left untouched.  The
  decoder may insist on a well-formed rest of the stream.
\<close>

locale framed_codec =
  fixes enc :: "'a \<Rightarrow> 'c list" and dec :: "'c list \<Rightarrow> ('a \<times> 'c list) option" and valid :: "'a \<Rightarrow> bool"
    and stream :: "'c list \<Rightarrow> bool"
  assumes dec_enc: "valid x \<Longrightarrow> stream rest \<Longrightarrow> dec (enc x @ rest) = Some (x, rest)"
    and dec_Nil: "dec [] = None"
    and stream_Nil: "stream []"
    and stream_enc: "valid x \<Longrightarrow> stream rest \<Longrightarrow> stream (enc x @ rest)"
begin

lemma enc_not_Nil: "valid x \<Longrightarrow> enc x \<noteq> []"
  using dec_enc [of x "[]"] dec_Nil stream_Nil by force

lemma stream_all: "list_all valid xs \<Longrightarrow> stream rest \<Longrightarrow> stream (concat (map enc xs) @ rest)"
  by (induction xs) (auto intro: stream_enc)

lemma prefix_free:
  assumes "valid x" "valid y" and "stream rest" "stream rest'" and "enc x @ rest = enc y @ rest'"
  shows "x = y \<and> rest = rest'"
proof -
  have "dec (enc x @ rest) = Some (x, rest)" by (rule dec_enc [OF assms(1,3)])
  moreover have "dec (enc x @ rest) = Some (y, rest')"
    unfolding assms(5) by (rule dec_enc [OF assms(2,4)])
  ultimately show ?thesis by simp
qed

lemma unique_decoding:
  assumes "list_all valid xs" and "list_all valid ys" and "concat (map enc xs) = concat (map enc ys)"
  shows "xs = ys"
  using assms
proof (induction xs arbitrary: ys)
  case Nil
  then show ?case using enc_not_Nil by (cases ys) auto
next
  case (Cons x xs)
  then obtain y ys' where ys: "ys = y # ys'" using enc_not_Nil by (cases ys) auto
  have "stream (concat (map enc xs))" "stream (concat (map enc ys'))"
    using stream_all [of xs "[]"] stream_all [of ys' "[]"] Cons.prems ys stream_Nil by simp_all
  with Cons.prems ys prefix_free [of x y] have "x = y" "concat (map enc xs) = concat (map enc ys')" by auto
  with Cons ys show ?case by simp
qed

end

definition utf8_next :: "nat list \<Rightarrow> (nat \<times> nat list) option" where
  "utf8_next bs = (case utf8_step bs of Some (Some c, bs') \<Rightarrow> Some (c, bs') | _ \<Rightarrow> None)"

lemma utf8_step_multi:
  "announced a = 2 \<Longrightarrow> second_ok a b \<Longrightarrow> utf8_step (a # b # rest) = Some (Some ((a - 0xC0) * 64 + (b - 0x80)), rest)"
  "announced a = 3 \<Longrightarrow> second_ok a b \<Longrightarrow> continuation c \<Longrightarrow>
   utf8_step (a # b # c # rest) = Some (Some ((a - 0xE0) * 4096 + (b - 0x80) * 64 + (c - 0x80)), rest)"
  "announced a = 4 \<Longrightarrow> second_ok a b \<Longrightarrow> continuation c \<Longrightarrow> continuation d \<Longrightarrow>
   utf8_step (a # b # c # d # rest) =
     Some (Some ((a - 0xF0) * 262144 + (b - 0x80) * 4096 + (c - 0x80) * 64 + (d - 0x80)), rest)"
  by simp_all

declare utf8_step.simps(2) [simp del]

lemma digits_64: "(c :: nat) = 64 * (c div 64) + c mod 64" "c div 64 = 64 * (c div 4096) + c div 64 mod 64"
  "c div 4096 = 64 * (c div 262144) + c div 4096 mod 64"
proof -
  have split: "x = 64 * (x div 64) + x mod 64" for x :: nat by simp
  have "c div 64 div 64 = c div 4096" "c div 4096 div 64 = c div 262144"
    by (simp_all add: div_mult2_eq [symmetric])
  with split [of c] split [of "c div 64"] split [of "c div 4096"] show
    "(c :: nat) = 64 * (c div 64) + c mod 64" "c div 64 = 64 * (c div 4096) + c div 64 mod 64"
    "c div 4096 = 64 * (c div 262144) + c div 4096 mod 64" by simp_all
qed

lemma utf8_step_char:
  assumes "scalar c"
  shows "utf8_step (utf8_char c @ rest) = Some (Some c, rest)"
proof -
  define h p2 p q r where "h = c div 262144" and "p2 = c div 4096" and "p = c div 4096 mod 64"
    and "q = c div 64 mod 64" and "r = c mod 64"
  have lt: "p < 64" "q < 64" "r < 64" by (simp_all add: p_def q_def r_def)
  have c1: "c = 64 * (c div 64) + r" using digits_64(1) [of c] by (simp only: r_def)
  have c2: "c = 4096 * p2 + 64 * q + r" using c1 digits_64(2) [of c] unfolding p2_def q_def by linarith
  have c3: "c = 262144 * h + 4096 * p + 64 * q + r"
    using c2 digits_64(3) [of c] unfolding p2_def p_def h_def by linarith
  have char: "utf8_char c =
     (if c < 0x80 then [c] else if c < 0x800 then [0xC0 + c div 64, 0x80 + r]
      else if c < 0x10000 then [0xE0 + p2, 0x80 + q, 0x80 + r]
      else [0xF0 + h, 0x80 + p, 0x80 + q, 0x80 + r])"
    by (simp only: utf8_char_def h_def p2_def p_def q_def r_def)
  have no_surrogate: "\<not> (0xD800 \<le> c \<and> c < 0xE000)" and top: "c < 0x110000"
    using assms by (auto simp: scalar_def)
  consider "c < 0x80" | "0x80 \<le> c" "c < 0x800" | "0x800 \<le> c" "c < 0x10000" | "0x10000 \<le> c"
    by linarith
  then show ?thesis
  proof cases
    case 1
    then show ?thesis by (simp add: utf8_char_def announced_def utf8_step.simps(2))
  next
    case 2
    define k where "k = c div 64"
    have c: "c = 64 * k + r" using c1 by (simp only: k_def)
    with 2 lt have "2 \<le> k" "k < 32" by linarith+
    then have "announced (0xC0 + k) = 2" "second_ok (0xC0 + k) (0x80 + r)"
      using lt by (auto simp: announced_def second_ok_def continuation_def)
    note step = utf8_step_multi(1) [OF this, of rest]
    have "utf8_char c = [0xC0 + k, 0x80 + r]" using 2 by (simp only: char k_def) simp
    then show ?thesis using c by (simp add: step)
  next
    case 3
    have p: "p2 < 16" using 3 c2 by linarith
    have "p2 = 13 \<longrightarrow> q < 32" using c2 no_surrogate lt by linarith
    moreover have "p2 = 0 \<longrightarrow> 32 \<le> q" using c2 3 lt by linarith
    ultimately have "announced (0xE0 + p2) = 3" "second_ok (0xE0 + p2) (0x80 + q)" "continuation (0x80 + r)"
      using p lt by (auto simp: announced_def second_ok_def continuation_def)
    note step = utf8_step_multi(2) [OF this, of rest]
    have "utf8_char c = [0xE0 + p2, 0x80 + q, 0x80 + r]" using 3 by (simp only: char) simp
    then show ?thesis using c2 by (simp add: step)
  next
    case 4
    have h: "h < 5" using top c3 by linarith
    have "h = 0 \<longrightarrow> 16 \<le> p" "h = 4 \<longrightarrow> p < 16" using c3 4 top lt by linarith+
    then have "announced (0xF0 + h) = 4" "second_ok (0xF0 + h) (0x80 + p)" "continuation (0x80 + q)"
      "continuation (0x80 + r)"
      using h lt by (auto simp: announced_def second_ok_def continuation_def)
    note step = utf8_step_multi(3) [OF this, of rest]
    have "utf8_char c = [0xF0 + h, 0x80 + p, 0x80 + q, 0x80 + r]" using 4 by (simp only: char) simp
    then show ?thesis using c3 by (simp add: step)
  qed
qed

interpretation utf8: framed_codec utf8_char utf8_next scalar "\<lambda>_. True"
  by unfold_locales (simp_all add: utf8_next_def utf8_step_char)

lemma utf8_chunks_encode: "list_all scalar s \<Longrightarrow> utf8_chunks (concat (map utf8_char s)) = map Some s"
proof (induction s)
  case (Cons c s)
  then show ?case by (subst utf8_chunks.simps) (simp add: utf8_step_char)
qed (simp add: utf8_chunks.simps)

lemma utf8_decode_encode: "utf8_encode s = Some bs \<Longrightarrow> utf8_decode bs = Some s"
proof -
  assume "utf8_encode s = Some bs"
  then have "utf8_chunks bs = map Some s"
    by (auto simp: utf8_encode_def utf8_chunks_encode split: if_splits)
  moreover have "those (map Some s) = Some s" by (induction s) simp_all
  ultimately show ?thesis by (simp add: utf8_decode_def)
qed

lemma utf8_encode_append:
  "utf8_encode (s @ t) = (case (utf8_encode s, utf8_encode t) of (Some a, Some b) \<Rightarrow> Some (a @ b) | _ \<Rightarrow> None)"
  by (auto simp: utf8_encode_def)

lemma utf8_encode_some: "list_all scalar s \<Longrightarrow> \<exists>bs. utf8_encode s = Some bs"
  by (simp add: utf8_encode_def)

end
