(* ===== verification/Adif.thy ===== *)
theory Adif
  imports Py_Text "HOL-Library.AList"
begin

text \<open>
  The ADIF codec of the server (\<open>app/adif/parser.py\<close>, \<open>app/adif/serializer.py\<close> and the export
  of \<open>app/adif/router.py\<close>).

  A record is a Python dict of field names and values: an association list in insertion order.
  The parser is the loop over the tags of the text, on what is left of the text from the position
  \<open>i\<close>; \<open>None\<close> is the \<open>UnicodeEncodeError\<close> that a surrogate in the text raises.
\<close>

type_synonym adif_record = "(ustr \<times> ustr) list"

record adif_state =
  in_header :: bool
  records :: "adif_record list"
  errors :: "(nat \<times> ustr) list"
  current_record :: adif_record
  record_index :: nat

section \<open>The parser\<close>

text \<open>The next \<open><...>\<close> from the front, and the text after it.\<close>

definition next_tag :: "ustr \<Rightarrow> (ustr \<times> ustr) option" where
  "next_tag s =
     (let lt = index_from [60] s 0 in
      if lt = -1 then None
      else
        (let gt = index_from [62] s (nat lt) in
         if gt = -1 then None
         else Some (slice (nat lt + 1) (nat gt) s, drop (nat gt + 1) s)))"

text \<open>A slice \<open>[:k]\<close> with its rule for negative numbers.\<close>

definition py_take :: "int \<Rightarrow> 'a list \<Rightarrow> 'a list" where
  "py_take k xs = take (nat (if k < 0 then int (length xs) + k else k)) xs"

text \<open>What a tag that is not a control tag amounts to.\<close>

datatype data_tag = NoField | BadLength | Field ustr ustr ustr

definition read_data_tag :: "unicode \<Rightarrow> ustr \<Rightarrow> ustr \<Rightarrow> data_tag option" where
  "read_data_tag U content rest =
     (let parts = split_on 58 content in
      if length parts < 2 then Some NoField
      else
        (case py_int U (parts ! 1) of
           None \<Rightarrow> Some BadLength
         | Some byte_length \<Rightarrow>
             map_option (\<lambda>remaining_bytes.
               let value_bytes = py_take byte_length remaining_bytes;
                   v = (case utf8_decode value_bytes of
                          Some v \<Rightarrow> v | None \<Rightarrow> utf8_decode_replace value_bytes)
               in Field (py_upper U (parts ! 0)) v (drop (length v) rest))
             (utf8_encode rest)))"

definition bad_length :: ustr where
  "bad_length = u ''Invalid byte length in tag: <''"

definition EOH :: ustr where "EOH = u ''EOH''"
definition EOR :: ustr where "EOR = u ''EOR''"

definition tag_step :: "unicode \<Rightarrow> ustr \<Rightarrow> ustr \<Rightarrow> adif_state \<Rightarrow> (adif_state \<times> ustr) option" where
  "tag_step U content rest st =
     (if py_upper U content = EOH then Some (st\<lparr>in_header := False\<rparr>, rest)
      else if py_upper U content = EOR then
        (let st1 = (if \<not> in_header st \<and> current_record st \<noteq> []
                    then st\<lparr>records := records st @ [current_record st], current_record := []\<rparr> else st)
         in Some (st1\<lparr>record_index := record_index st1 + 1\<rparr>, rest))
      else
        map_option (\<lambda>tag. case tag of
            NoField \<Rightarrow> (st, rest)
          | BadLength \<Rightarrow>
              (if \<not> in_header st
               then st\<lparr>errors := errors st @ [(record_index st, bad_length @ content @ [62])]\<rparr> else st, rest)
          | Field name v rest' \<Rightarrow>
              (if \<not> in_header st
               then st\<lparr>current_record := AList.update name v (current_record st)\<rparr> else st, rest'))
          (read_data_tag U content rest))"

lemma next_tag_shrinks: "next_tag s = Some (content, rest) \<Longrightarrow> length rest < length s"
proof -
  assume tag: "next_tag s = Some (content, rest)"
  moreover have "next_tag [] = None" by (simp add: next_tag_def index_from.simps)
  ultimately have "s \<noteq> []" by auto
  moreover from tag obtain k where "rest = drop (Suc k) s"
    by (auto simp: next_tag_def Let_def split: if_splits)
  ultimately show ?thesis by simp
qed

lemma tag_step_rest: "tag_step U content rest st = Some (st', rest') \<Longrightarrow> length rest' \<le> length rest"
  by (auto simp: tag_step_def read_data_tag_def Let_def split: if_splits option.splits)

function adi_loop :: "unicode \<Rightarrow> ustr \<Rightarrow> adif_state \<Rightarrow> adif_state option" where
  "adi_loop U s st =
     (case next_tag s of
        None \<Rightarrow> Some st
      | Some (content, rest) \<Rightarrow>
          (case tag_step U content rest st of
             None \<Rightarrow> None
           | Some (st', rest') \<Rightarrow> adi_loop U rest' st'))"
  by pat_completeness auto
termination
  by (relation "measure (\<lambda>(U, s, st). length s)")
     (auto dest!: next_tag_shrinks tag_step_rest)

declare adi_loop.simps [simp del]

definition adif_init :: "unicode \<Rightarrow> ustr \<Rightarrow> adif_state" where
  "adif_init U s =
     \<lparr>in_header = (index_from (u ''<EOH>'') (py_upper U s) 0 \<noteq> -1), records = [], errors = [],
      current_record = [], record_index = 0\<rparr>"

definition parse_adi :: "unicode \<Rightarrow> ustr \<Rightarrow> (adif_record list \<times> (nat \<times> ustr) list) option" where
  "parse_adi U s = map_option (\<lambda>st. (records st, errors st)) (adi_loop U s (adif_init U s))"

section \<open>The serializer\<close>

definition field_text :: "ustr \<Rightarrow> ustr \<Rightarrow> ustr option" where
  "field_text name v =
     map_option (\<lambda>bytes. [60] @ name @ [58] @ dec_digits (length bytes) @ [62] @ v) (utf8_encode v)"

definition record_text :: "adif_record \<Rightarrow> ustr option" where
  "record_text r =
     map_option (\<lambda>fields. concat fields @ u ''<EOR>'' @ [10, 10])
       (those (map (\<lambda>name. field_text name (the (map_of r name))) (sort (map fst r))))"

definition serialize_adi :: "adif_record list \<Rightarrow> ustr option \<Rightarrow> ustr option" where
  "serialize_adi rs header =
     map_option (\<lambda>parts. (case header of None \<Rightarrow> [] | Some h \<Rightarrow> h @ [10] @ u ''<EOH>'' @ [10, 10]) @ concat parts)
       (those (map record_text rs))"

definition ADIF_HEADER :: ustr where
  "ADIF_HEADER = u ''<ADIF_VER:5>3.1.4'' @ [10] @ u ''<PROGRAMID:5>ollog'' @ [10] @ u ''<EOH>'' @ [10, 10]"

definition export_adif :: "adif_record list \<Rightarrow> ustr option" where
  "export_adif rs =
     map_option (\<lambda>parts. ADIF_HEADER @ concat parts) (those (map (\<lambda>r. serialize_adi [r] None) rs))"

section \<open>Tags\<close>

lemma next_tag_at:
  assumes "60 \<notin> set w" and "62 \<notin> set c"
  shows "next_tag (w @ [60] @ c @ [62] @ rest) = Some (c, rest)"
proof -
  let ?s = "w @ [60] @ c @ [62] @ rest"
  have lt: "index_from [60] ?s 0 = int (length w)"
    using index_char_after [OF assms(1), of 0 "[]"] by simp
  have "index_from [62] ?s (length w) = int (length w + (1 + length c))"
    using index_char_after [of 62 "[60] @ c" "length w" w rest] assms(2) by simp
  moreover have "nat (1 + (int (length w) + int (length c))) = Suc (length w + length c)" by simp
  ultimately show ?thesis using lt by (simp add: next_tag_def slice_def)
qed

lemma next_tag_none: "60 \<notin> set w \<Longrightarrow> next_tag w = None"
proof -
  assume "60 \<notin> set w"
  then have "\<not> 0 \<le> index_from [60] w 0" using index_char_at(1,2) [of 60 w 0] nth_mem by metis
  with index_from_ge [of "[60]" w 0] show ?thesis by (simp add: next_tag_def)
qed

lemma parse_tag:
  assumes "60 \<notin> set w" and "62 \<notin> set c"
  shows "adi_loop U (w @ [60] @ c @ [62] @ rest) st =
    (case tag_step U c rest st of None \<Rightarrow> None | Some (st', rest') \<Rightarrow> adi_loop U rest' st')"
  by (subst adi_loop.simps) (simp only: next_tag_at [OF assms] option.case prod.case)

lemma next_tag_skip: "60 \<notin> set w \<Longrightarrow> next_tag (w @ s) = next_tag s"
proof (cases "60 \<in> set s")
  case True
  assume w: "60 \<notin> set w"
  obtain a b where s: "s = a @ 60 # b" and a: "60 \<notin> set a" using True by (auto dest: split_list_first)
  show ?thesis
  proof (cases "62 \<in> set b")
    case True
    then obtain c d where "b = c @ 62 # d" and c: "62 \<notin> set c" by (auto dest: split_list_first)
    then have "s = a @ [60] @ c @ [62] @ d" using s by simp
    moreover from next_tag_at [of "w @ a" c d] w a c have "next_tag (w @ a @ [60] @ c @ [62] @ d) = Some (c, d)"
      by simp
    ultimately show ?thesis using next_tag_at [OF a c, of d] by simp
  next
    case False
    have "next_tag (x @ 60 # b) = None" if x: "60 \<notin> set x" for x
    proof -
      have lt: "index_from [60] (x @ 60 # b) 0 = int (length x)"
        using index_char_after [OF x, of 0 "[]"] by simp
      have "\<not> 0 \<le> index_from [62] (x @ 60 # b) (length x)"
      proof
        assume n: "0 \<le> index_from [62] (x @ 60 # b) (length x)"
        let ?k = "nat (index_from [62] (x @ 60 # b) (length x))"
        from index_char_at [OF n] have "?k < length (x @ 60 # b)" "(x @ 60 # b) ! ?k = 62" "length x \<le> ?k" by auto
        then obtain j where "(60 # b) ! j = 62" "j < length (60 # b)" by (auto simp: nth_append)
        with False show False by (cases j) (auto dest: nth_mem)
      qed
      with index_from_ge [of "[62]" "x @ 60 # b" "length x"] lt show ?thesis by (simp add: next_tag_def)
    qed
    from this [of "w @ a"] this [OF a] w a s show ?thesis by simp
  qed
next
  case False
  assume "60 \<notin> set w"
  with False show ?thesis using next_tag_none [of s] next_tag_none [of "w @ s"] by simp
qed

lemma parse_skip: "60 \<notin> set w \<Longrightarrow> adi_loop U (w @ s) st = adi_loop U s st"
proof -
  assume "60 \<notin> set w"
  note same = next_tag_skip [OF this, of s]
  show ?thesis unfolding adi_loop.simps [of U "w @ s"] adi_loop.simps [of U s] same by (rule refl)
qed

lemma parse_end: "60 \<notin> set w \<Longrightarrow> adi_loop U w st = Some st"
  by (subst adi_loop.simps) (simp add: next_tag_none)

section \<open>Numbers and case\<close>

lemma upper_ascii: "\<forall>c \<in> set s. c < 97 \<Longrightarrow> py_upper U s = s"
  by (induction s) (auto simp: py_upper_def upper_char_def)

lemma py_upper_append [simp]: "py_upper U (s @ t) = py_upper U s @ py_upper U t"
  by (simp add: py_upper_def)

lemma read_dec_digits:
  "list_all is_dec ds \<Longrightarrow> read_digits U ds n k = Some (digit_value n ds, k + length ds)"
  by (induction U ds n k rule: read_digits.induct) (auto simp: py_digit_def digit_value_def)

lemma py_int_dec_digits:
  assumes "length (dec_digits n) \<le> 4300"
  shows "py_int U (dec_digits n) = Some (int n)"
proof -
  have dec: "list_all is_dec (dec_digits n)" by (simp add: list_all_iff dec_digits_dec)
  then have nsp: "\<forall>c \<in> set (dec_digits n). \<not> py_space U c" by (auto simp: list_all_iff py_space_def)
  have keep: "dropWhile (py_space U) xs = xs" if "\<forall>c \<in> set xs. \<not> py_space U c" for xs
    using that by (cases xs) auto
  have strip: "py_strip U (dec_digits n) = dec_digits n"
    unfolding py_strip_def keep [OF nsp] by (subst keep) (simp_all add: nsp)
  obtain d ds where d: "dec_digits n = d # ds" by (cases "dec_digits n") simp_all
  with dec have "is_dec d" by simp
  moreover have "read_digits U (d # ds) 0 0 = Some (n, length (d # ds))"
    using read_dec_digits [OF dec, of U 0 0] digit_value_dec_digits [of n] by (simp only: d) simp
  ultimately show ?thesis
    using assms strip by (auto simp: py_int_def d simp del: read_digits.simps)
qed

section \<open>Fields\<close>

text \<open>
  What a field needs to come back: a name without \<open><\<close>, \<open>></\<close> and colon that is its own upper case,
  and a value that can be encoded and whose length has no more digits than \<open>int()\<close> reads.
\<close>

definition field_ok :: "unicode \<Rightarrow> ustr \<times> ustr \<Rightarrow> bool" where
  "field_ok U f \<longleftrightarrow>
     (case f of (name, v) \<Rightarrow> name \<noteq> [] \<and> 62 \<notin> set name \<and> 58 \<notin> set name \<and> list_all scalar name \<and>
        py_upper U name = name \<and> list_all scalar v \<and>
        length (dec_digits (length (concat (map utf8_char v)))) \<le> 4300)"

definition enc_field :: "ustr \<times> ustr \<Rightarrow> ustr" where
  "enc_field f =
     (case f of (name, v) \<Rightarrow>
       [60] @ name @ [58] @ dec_digits (length (concat (map utf8_char v))) @ [62] @ v)"

definition read_field :: "unicode \<Rightarrow> ustr \<Rightarrow> ((ustr \<times> ustr) \<times> ustr) option" where
  "read_field U s =
     (case next_tag s of
        Some (content, rest) \<Rightarrow>
          if py_upper U content \<in> {EOH, EOR} then None
          else (case read_data_tag U content rest of
                  Some (Field name v rest') \<Rightarrow> Some ((name, v), rest') | _ \<Rightarrow> None)
      | None \<Rightarrow> None)"

lemma field_text_enc: "field_ok U (name, v) \<Longrightarrow> field_text name v = Some (enc_field (name, v))"
  by (simp add: field_text_def field_ok_def utf8_encode_def enc_field_def)

lemma content_not_control:
  "58 \<in> set content \<Longrightarrow> py_upper U content \<notin> {EOH, EOR}"
proof
  assume "58 \<in> set content" "py_upper U content \<in> {EOH, EOR}"
  moreover have "58 \<in> set (py_upper U content)" if "58 \<in> set content"
    using that by (auto simp: py_upper_def upper_char_def intro: bexI [of _ 58])
  ultimately show False by (auto simp: EOH_def EOR_def u_def)
qed

lemma read_data_tag_field:
  assumes ok: "field_ok U (name, v)" and rest: "list_all scalar rest"
  shows "read_data_tag U (name @ [58] @ dec_digits (length (concat (map utf8_char v)))) (v @ rest) =
         Some (Field name v rest)"
proof -
  let ?bs = "concat (map utf8_char v)" and ?ds = "dec_digits (length (concat (map utf8_char v)))"
  have "58 \<notin> set name" and ds: "58 \<notin> set ?ds"
    using ok dec_digits_dec [of 58] by (auto simp: field_ok_def)
  then have parts: "split_on 58 (name @ [58] @ ?ds) = [name, ?ds]"
    using split_on_append [of 58 name ?ds] split_on_free [OF ds] by simp
  have enc: "utf8_encode (v @ rest) = Some (?bs @ concat (map utf8_char rest))"
    using ok rest by (simp add: field_ok_def utf8_encode_def)
  have dec: "utf8_decode ?bs = Some v"
    using ok by (intro utf8_decode_encode) (simp add: field_ok_def utf8_encode_def)
  have int: "py_int U ?ds = Some (int (length ?bs))"
    using ok py_int_dec_digits by (simp add: field_ok_def)
  show ?thesis
    using parts int enc dec ok by (simp add: read_data_tag_def py_take_def field_ok_def Let_def)
qed

interpretation adif: framed_codec enc_field "read_field U" "field_ok U" "list_all scalar" for U
proof
  fix f rest
  assume f: "field_ok U f" and rest: "list_all scalar rest"
  obtain name v where nv: "f = (name, v)" by (cases f)
  let ?ds = "dec_digits (length (concat (map utf8_char v)))"
  have "62 \<notin> set (name @ [58] @ ?ds)"
    using f nv dec_digits_dec [of 62] by (auto simp: field_ok_def)
  from next_tag_at [of "[]", OF _ this, of "v @ rest"] show "read_field U (enc_field f @ rest) = Some (f, rest)"
    using read_data_tag_field [OF f [unfolded nv] rest] content_not_control [of "name @ [58] @ ?ds" U]
    by (simp add: read_field_def enc_field_def nv)
  have "list_all scalar ?ds"
    by (auto simp: list_all_iff scalar_def dest!: dec_digits_dec)
  with f rest nv show "list_all scalar (enc_field f @ rest)"
    by (simp add: enc_field_def field_ok_def scalar_def)
qed (simp_all add: read_field_def next_tag_none)

text \<open>Inside a record the parser stores the field that the codec reads.\<close>

definition put_field :: "ustr \<times> ustr \<Rightarrow> adif_state \<Rightarrow> adif_state" where
  "put_field f st =
     (if \<not> in_header st then st\<lparr>current_record := AList.update (fst f) (snd f) (current_record st)\<rparr> else st)"

lemma parse_field:
  assumes f: "field_ok U f" and rest: "list_all scalar rest" and w: "60 \<notin> set w"
  shows "adi_loop U (w @ enc_field f @ rest) st = adi_loop U rest (put_field f st)"
proof -
  obtain name v where nv: "f = (name, v)" by (cases f)
  let ?c = "name @ [58] @ dec_digits (length (concat (map utf8_char v)))"
  have c: "62 \<notin> set ?c" using f nv dec_digits_dec [of 62] by (auto simp: field_ok_def)
  have "tag_step U ?c (v @ rest) st = Some (put_field f st, rest)"
    using read_data_tag_field [OF f [unfolded nv] rest] content_not_control [of ?c U]
    by (simp add: tag_step_def put_field_def nv)
  with parse_tag [OF w c, of U "v @ rest" st] show ?thesis by (simp add: enc_field_def nv)
qed

lemma parse_fields:
  assumes "list_all (field_ok U) fs" and "list_all scalar rest"
  shows "adi_loop U (concat (map enc_field fs) @ rest) st = adi_loop U rest (fold put_field fs st)"
  using assms
proof (induction fs arbitrary: st)
  case (Cons f fs)
  then have "list_all scalar (concat (map enc_field fs) @ rest)"
    using adif.stream_all [of U fs rest] by simp
  from parse_field [OF _ this, of U f "[]" st] Cons show ?case by simp
qed simp

section \<open>Records\<close>

definition record_ok :: "unicode \<Rightarrow> adif_record \<Rightarrow> bool" where
  "record_ok U r \<longleftrightarrow> distinct (map fst r) \<and> list_all (field_ok U) r"

text \<open>The record as the serializer lists it.\<close>

definition in_order :: "adif_record \<Rightarrow> adif_record" where
  "in_order r = map (\<lambda>name. (name, the (map_of r name))) (sort (map fst r))"

lemma in_order_fst [simp]: "map fst (in_order r) = sort (map fst r)"
  by (simp add: in_order_def comp_def)

lemma in_order_ok: "record_ok U r \<Longrightarrow> list_all (field_ok U) (in_order r)"
proof (unfold list_all_iff, intro ballI)
  fix f
  assume r: "record_ok U r" and f: "f \<in> set (in_order r)"
  then obtain name where n: "name \<in> fst ` set r" "f = (name, the (map_of r name))"
    by (auto simp: in_order_def)
  then obtain v where "(name, v) \<in> set r" by auto
  with r have "map_of r name = Some v" by (simp add: record_ok_def)
  with r n \<open>(name, v) \<in> set r\<close> show "field_ok U f" by (auto simp: record_ok_def list_all_iff)
qed

lemma map_of_in_order: "record_ok U r \<Longrightarrow> map_of (in_order r) = map_of r"
proof
  fix name
  assume r: "record_ok U r"
  show "map_of (in_order r) name = map_of r name"
  proof (cases "name \<in> fst ` set r")
    case True
    then obtain v where "map_of r name = Some v" using r by (force simp: record_ok_def)
    moreover have keyed: "map_of (map (\<lambda>n. (n, f n)) ns) name = (if name \<in> set ns then Some (f name) else None)" for f ns
      by (induction ns) auto
    ultimately show ?thesis using True by (simp add: in_order_def keyed)
  next
    case False
    then have "name \<notin> fst ` set (in_order r)" using in_order_fst [of r] by (metis set_map set_sort)
    then have "map_of (in_order r) name = None" by (simp add: map_of_eq_None_iff)
    moreover have "map_of r name = None" using False by (simp add: map_of_eq_None_iff)
    ultimately show ?thesis by simp
  qed
qed

lemma in_order_Nil [simp]: "in_order r = [] \<longleftrightarrow> r = []"
proof -
  have "length (in_order r) = length r" by (simp add: in_order_def)
  then show ?thesis by (metis length_0_conv)
qed

lemma in_order_empty [simp]: "in_order [] = []"
  by simp

definition enc_record :: "adif_record \<Rightarrow> ustr" where
  "enc_record r = concat (map enc_field (in_order r)) @ u ''<EOR>'' @ [10, 10]"

lemma those_map_Some: "(\<And>x. x \<in> set xs \<Longrightarrow> f x = Some (g x)) \<Longrightarrow> those (map f xs) = Some (map g xs)"
  by (induction xs) auto

lemma record_text_enc: "record_ok U r \<Longrightarrow> record_text r = Some (enc_record r)"
proof -
  assume "record_ok U r"
  then have "those (map (\<lambda>name. field_text name (the (map_of r name))) (sort (map fst r))) =
      Some (map (\<lambda>name. enc_field (name, the (map_of r name))) (sort (map fst r)))"
    using in_order_ok [of U r]
    by (intro those_map_Some field_text_enc) (auto simp: in_order_def list_all_iff)
  then show ?thesis by (simp add: record_text_def enc_record_def in_order_def comp_def)
qed

lemma scalar_ascii: "\<forall>c \<in> set s. c < 128 \<Longrightarrow> list_all scalar s"
  by (auto simp: list_all_iff scalar_def)

lemma stream_records:
  "list_all (record_ok U) rs \<Longrightarrow> list_all scalar rest \<Longrightarrow>
   list_all scalar (concat (map enc_record rs) @ rest)"
proof (induction rs)
  case (Cons r rs)
  have "list_all scalar (u ''<EOR>'' @ [10, 10])" by (rule scalar_ascii) (simp add: u_def)
  then show ?case
    using Cons adif.stream_all [OF in_order_ok, of U r "u ''<EOR>'' @ [10, 10]"]
    by (simp add: enc_record_def)
qed simp

text \<open>The end of a record, and white space before the next tag.\<close>

lemma parse_eor:
  assumes "60 \<notin> set w"
  shows "adi_loop U (w @ u ''<EOR>'' @ rest) st = adi_loop U rest
    ((if \<not> in_header st \<and> current_record st \<noteq> []
      then st\<lparr>records := records st @ [current_record st], current_record := []\<rparr> else st)
     \<lparr>record_index := record_index st + 1\<rparr>)"
proof -
  have e: "u ''<EOR>'' @ rest = [60] @ EOR @ [62] @ rest" by (simp add: EOR_def u_def)
  have up: "py_upper U EOR = EOR" by (rule upper_ascii) (simp add: EOR_def u_def)
  have "62 \<notin> set EOR" "EOR \<noteq> EOH" by (simp_all add: EOR_def EOH_def u_def)
  with parse_tag [OF assms, of EOR U rest st] up show ?thesis
    unfolding e by (simp add: tag_step_def Let_def)
qed

lemma parse_eoh:
  assumes "60 \<notin> set w"
  shows "adi_loop U (w @ u ''<EOH>'' @ rest) st = adi_loop U rest (st\<lparr>in_header := False\<rparr>)"
proof -
  have e: "u ''<EOH>'' @ rest = [60] @ EOH @ [62] @ rest" by (simp add: EOH_def u_def)
  have up: "py_upper U EOH = EOH" by (rule upper_ascii) (simp add: EOH_def u_def)
  have "62 \<notin> set EOH" by (simp add: EOH_def u_def)
  with parse_tag [OF assms, of EOH U rest st] up show ?thesis
    unfolding e by (simp add: tag_step_def)
qed

lemma parse_skip_space:
  assumes "60 \<notin> set w"
  shows "adi_loop U (w @ s) st = adi_loop U s st"
proof (cases "60 \<in> set s")
  case False
  with assms show ?thesis by (simp add: parse_end)
next
  case True
  then obtain a b where s: "s = a @ 60 # b" "60 \<notin> set a" by (meson split_list_first)
  show ?thesis
  proof (cases "62 \<in> set b")
    case True
    then obtain c d where "b = c @ 62 # d" "62 \<notin> set c" by (meson split_list_first)
    with s assms parse_tag [of "w @ a" c U d st] parse_tag [of a c U d st] show ?thesis by simp
  next
    case False
    have "next_tag (v @ 60 # b) = None" if "60 \<notin> set v" for v
    proof -
      have lt: "index_from [60] (v @ 60 # b) 0 = int (length v)"
        using index_char_after [OF that, of 0 "[]" b] by simp
      have "\<not> 0 \<le> index_from [62] (v @ 60 # b) (length v)"
      proof
        assume n: "0 \<le> index_from [62] (v @ 60 # b) (length v)"
        let ?k = "nat (index_from [62] (v @ 60 # b) (length v)) - length v"
        have "62 = (60 # b) ! ?k" "?k < length (60 # b)"
          using index_char_at [OF n] by (auto simp: nth_append)
        then have "62 \<in> set (60 # b)" by (metis nth_mem)
        with False show False by simp
      qed
      with index_from_ge [of "[62]" "v @ 60 # b" "length v"] lt show ?thesis by (simp add: next_tag_def)
    qed
    from this [of a] this [of "w @ a"] s assms show ?thesis
      by (simp add: adi_loop.simps [of U "w @ a @ 60 # b"] adi_loop.simps [of U "a @ 60 # b"])
  qed
qed

lemma fold_put_field:
  assumes "\<not> in_header st" and "distinct (map fst (current_record st @ fs))"
  shows "fold put_field fs st = st\<lparr>current_record := current_record st @ fs\<rparr>"
  using assms
proof (induction fs arbitrary: st)
  case (Cons f fs)
  obtain k v where f: "f = (k, v)" by (cases f)
  have "put_field f st = st\<lparr>current_record := current_record st @ [f]\<rparr>"
    using Cons.prems f by (auto simp: put_field_def update_new)
  with Cons.IH [of "st\<lparr>current_record := current_record st @ [f]\<rparr>"] Cons.prems show ?case by simp
qed simp

lemma parse_record:
  assumes r: "record_ok U r" and rest: "list_all scalar rest"
    and st: "\<not> in_header st" "current_record st = []"
  shows "adi_loop U (enc_record r @ rest) st = adi_loop U rest
    (st\<lparr>records := records st @ (if r = [] then [] else [in_order r]), record_index := record_index st + 1\<rparr>)"
proof -
  let ?tail = "u ''<EOR>'' @ [10, 10] @ rest"
  have tail: "list_all scalar ?tail" using rest by (simp add: scalar_ascii u_def scalar_def)
  have f: "fold put_field (in_order r) st = st\<lparr>current_record := in_order r\<rparr>"
    using fold_put_field [OF st(1), of "in_order r"] st(2) r
    by (simp add: record_ok_def)
  have "adi_loop U (enc_record r @ rest) st = adi_loop U ?tail (st\<lparr>current_record := in_order r\<rparr>)"
    using parse_fields [OF in_order_ok [OF r] tail] f by (simp add: enc_record_def)
  also have "\<dots> = adi_loop U ([10, 10] @ rest)
      (st\<lparr>records := records st @ (if r = [] then [] else [in_order r]), record_index := record_index st + 1\<rparr>)"
    using parse_eor [of "[]" U "[10, 10] @ rest" "st\<lparr>current_record := in_order r\<rparr>"] st
    by (cases st) auto
  finally show ?thesis using parse_skip_space [of "[10, 10]" U rest] by simp
qed

lemma parse_records:
  assumes "list_all (record_ok U) rs" and "list_all scalar rest" and "\<not> in_header st" and "current_record st = []"
  shows "adi_loop U (concat (map enc_record rs) @ rest) st = adi_loop U rest
    (st\<lparr>records := records st @ map in_order (filter (\<lambda>r. r \<noteq> []) rs),
        record_index := record_index st + length rs\<rparr>)"
  using assms
proof (induction rs arbitrary: st)
  case (Cons r rs)
  let ?st = "st\<lparr>records := records st @ (if r = [] then [] else [in_order r]), record_index := record_index st + 1\<rparr>"
  have "adi_loop U (enc_record r @ concat (map enc_record rs) @ rest) st =
      adi_loop U (concat (map enc_record rs) @ rest) ?st"
    using Cons.prems stream_records [of U rs rest] by (intro parse_record) simp_all
  with Cons.IH [of ?st] Cons.prems show ?case by simp
qed simp

section \<open>The header\<close>

definition version_field :: "ustr \<times> ustr" where
  "version_field = (u ''ADIF_VER'', u ''3.1.4'')"

definition program_field :: "ustr \<times> ustr" where
  "program_field = (u ''PROGRAMID'', u ''ollog'')"

lemma header_fields:
  "ADIF_HEADER = enc_field version_field @ [10] @ enc_field program_field @ [10] @ u ''<EOH>'' @ [10, 10]"
  by code_simp

lemma header_fields_ok: "field_ok U version_field" "field_ok U program_field"
proof -
  have "py_upper U (u ''ADIF_VER'') = u ''ADIF_VER''" "py_upper U (u ''PROGRAMID'') = u ''PROGRAMID''"
    by (rule upper_ascii, simp add: u_def)+
  moreover have "62 \<notin> set (u ''ADIF_VER'') \<and> 58 \<notin> set (u ''ADIF_VER'') \<and> list_all scalar (u ''ADIF_VER'') \<and>
      list_all scalar (u ''3.1.4'') \<and> length (dec_digits (length (concat (map utf8_char (u ''3.1.4''))))) = 1"
    "62 \<notin> set (u ''PROGRAMID'') \<and> 58 \<notin> set (u ''PROGRAMID'') \<and> list_all scalar (u ''PROGRAMID'') \<and>
      list_all scalar (u ''ollog'') \<and> length (dec_digits (length (concat (map utf8_char (u ''ollog''))))) = 1"
    by code_simp+
  ultimately show "field_ok U version_field" "field_ok U program_field"
    by (simp_all add: field_ok_def version_field_def program_field_def)
qed

lemma parse_header:
  assumes rest: "list_all scalar rest" and st: "in_header st"
  shows "adi_loop U (ADIF_HEADER @ rest) st = adi_loop U rest (st\<lparr>in_header := False\<rparr>)"
proof -
  let ?e = "u ''<EOH>'' @ [10, 10] @ rest"
  have e: "list_all scalar ?e" using rest by (simp add: scalar_ascii u_def scalar_def)
  then have e2: "list_all scalar ([10] @ enc_field program_field @ [10] @ ?e)"
    using adif.stream_enc [OF header_fields_ok(2), of "[10] @ ?e"] by (simp add: scalar_def)
  have "adi_loop U (ADIF_HEADER @ rest) st = adi_loop U ([10] @ enc_field program_field @ [10] @ ?e) st"
    using parse_field [OF header_fields_ok(1) e2, where w = "[]" and st = st] st by (simp add: header_fields put_field_def)
  also have "\<dots> = adi_loop U ([10] @ ?e) st"
    using parse_field [OF header_fields_ok(2), where rest = "[10] @ ?e" and w = "[10]" and st = st] e st
    by (simp add: put_field_def scalar_def)
  also have "\<dots> = adi_loop U ([10, 10] @ rest) (st\<lparr>in_header := False\<rparr>)"
    using parse_eoh [of "[10]" U "[10, 10] @ rest" st] by simp
  finally show ?thesis using parse_skip_space [of "[10, 10]" U rest] by simp
qed

lemma in_header_init: "in_header (adif_init U (ADIF_HEADER @ rest))"
proof -
  have "\<exists>a b. py_upper U (ADIF_HEADER @ rest) = a @ u ''<EOH>'' @ b"
  proof -
    have "py_upper U (u ''<EOH>'') = u ''<EOH>''" by (rule upper_ascii) (simp add: u_def)
    then show ?thesis by (simp only: header_fields py_upper_append append_assoc) (metis append_assoc)
  qed
  then obtain a b where s: "py_upper U (ADIF_HEADER @ rest) = a @ u ''<EOH>'' @ b" by blast
  have "occurs_at (u ''<EOH>'') (py_upper U (ADIF_HEADER @ rest)) (length a)"
    unfolding s occurs_at_def by simp
  then have "\<not> index_from (u ''<EOH>'') (py_upper U (ADIF_HEADER @ rest)) 0 < 0"
    using index_from_none by blast
  then show ?thesis by (auto simp: adif_init_def)
qed

lemma export_text: "list_all (record_ok U) rs \<Longrightarrow> export_adif rs = Some (ADIF_HEADER @ concat (map enc_record rs))"
  unfolding export_adif_def
  by (subst those_map_Some [where g = enc_record])
    (auto simp: serialize_adi_def list_all_iff dest!: record_text_enc)

lemma parse_after_header:
  assumes "list_all scalar rest"
  shows "parse_adi U (ADIF_HEADER @ rest) = map_option (\<lambda>st. (records st, errors st))
    (adi_loop U rest \<lparr>in_header = False, records = [], errors = [], current_record = [], record_index = 0\<rparr>)"
proof -
  let ?init = "adif_init U (ADIF_HEADER @ rest)"
  have "?init\<lparr>in_header := False\<rparr> =
      \<lparr>in_header = False, records = [], errors = [], current_record = [], record_index = 0\<rparr>"
    by (simp add: adif_init_def)
  with parse_header [OF assms in_header_init] show ?thesis by (simp add: parse_adi_def)
qed

section \<open>Properties\<close>

text \<open>
  Property C7.  An exported log can be imported again: the parser returns the records that have
  fields, each with its names in order and the same values, and reports no error.  Values may hold
  any encodable text, tags and line ends included.
\<close>
theorem export_round_trip:
  assumes "list_all (record_ok U) rs" and "export_adif rs = Some exported"
  shows "parse_adi U exported = Some (map in_order (filter (\<lambda>r. r \<noteq> []) rs), []) \<and>
         map map_of (map in_order rs) = map map_of rs"
proof -
  have "exported = ADIF_HEADER @ concat (map enc_record rs)"
    using assms export_text [of U rs] by simp
  moreover have "list_all scalar (concat (map enc_record rs))"
    using stream_records [OF assms(1), of "[]"] by simp
  ultimately have "parse_adi U exported = Some (map in_order (filter (\<lambda>r. r \<noteq> []) rs), [])"
    using parse_records [OF assms(1), of "[]"] parse_after_header
    by (simp add: parse_end)
  moreover have "map map_of (map in_order rs) = map map_of rs"
    using assms(1) map_of_in_order by (auto simp: list_all_iff)
  ultimately show ?thesis by simp
qed

definition ascii_tables :: unicode where
  "ascii_tables = \<lparr>wide_upper = (\<lambda>c. [c]), wide_digit = (\<lambda>_. None), wide_space = (\<lambda>_. False)\<rparr>"

definition sample_log :: "adif_record list" where
  "sample_log = [[(u ''MODE'', u ''CW''), (u ''CALL'', u ''K1<EOR>''), (u ''NAME'', [0x4A, 0xFC, 0x2603])], []]"

theorem export_round_trip_witness:
  "(case export_adif sample_log of None \<Rightarrow> None | Some t \<Rightarrow> parse_adi ascii_tables t) =
   Some ([[(u ''CALL'', u ''K1<EOR>''), (u ''MODE'', u ''CW''), (u ''NAME'', [0x4A, 0xFC, 0x2603])]], [])"
proof -
  have "list_all (record_ok ascii_tables) sample_log" by code_simp
  moreover obtain t where "export_adif sample_log = Some t"
    using export_text [OF calculation] by blast
  moreover have "map in_order (filter (\<lambda>r. r \<noteq> []) sample_log) =
      [[(u ''CALL'', u ''K1<EOR>''), (u ''MODE'', u ''CW''), (u ''NAME'', [0x4A, 0xFC, 0x2603])]]" by code_simp
  ultimately show ?thesis using export_round_trip by simp
qed

text \<open>
  Property C34.  A tag whose length is no number costs one error, with the index of its record,
  and nothing else: the value after it is passed over, and the records before and after it are
  read as if neither were there.
\<close>
theorem bad_length_isolated:
  assumes "list_all (record_ok U) before_it" and "list_all (record_ok U) after_it"
    and "{58, 62} \<inter> set (name @ junk) = {}" and "list_all scalar (name @ junk @ w)" and "py_int U junk = None"
    and "60 \<notin> set w"
  shows "parse_adi U (ADIF_HEADER @ concat (map enc_record before_it) @
           [60] @ name @ [58] @ junk @ [62] @ w @ concat (map enc_record after_it)) =
         Some (map in_order (filter (\<lambda>r. r \<noteq> []) (before_it @ after_it)),
               [(length before_it, bad_length @ name @ [58] @ junk @ [62])])"
proof -
  let ?c = "name @ [58] @ junk" and ?after = "w @ concat (map enc_record after_it)"
  let ?st = "\<lparr>in_header = False, records = [], errors = [], current_record = [], record_index = 0\<rparr>"
  let ?st1 = "?st\<lparr>records := map in_order (filter (\<lambda>r. r \<noteq> []) before_it), record_index := length before_it\<rparr>"
  let ?st2 = "?st1\<lparr>errors := [(length before_it, bad_length @ ?c @ [62])]\<rparr>"
  have after: "list_all scalar ?after" using stream_records [OF assms(2), of "[]"] assms(4) by simp
  then have bad: "list_all scalar ([60] @ ?c @ [62] @ ?after)" using assms(4) by (simp add: scalar_def)
  have "58 \<notin> set name" "58 \<notin> set junk" using assms(3) by auto
  then have "split_on 58 ?c = [name, junk]" by (simp add: split_on_append split_on_free)
  then have step: "tag_step U ?c ?after ?st1 = Some (?st2, ?after)"
    using content_not_control [of ?c U] assms(5) by (simp add: tag_step_def read_data_tag_def)
  have c: "62 \<notin> set ?c" using assms(3) by auto
  have "adi_loop U (concat (map enc_record before_it) @ [60] @ ?c @ [62] @ ?after) ?st =
      adi_loop U ([60] @ ?c @ [62] @ ?after) ?st1"
    using parse_records [OF assms(1) bad, of ?st] by simp
  also have "\<dots> = adi_loop U ?after ?st2"
    using parse_tag [OF _ c, of "[]" U ?after ?st1] step by simp
  also have "\<dots> = Some (?st2\<lparr>records := records ?st2 @ map in_order (filter (\<lambda>r. r \<noteq> []) after_it),
      record_index := record_index ?st2 + length after_it\<rparr>)"
    using parse_records [OF assms(2), of "[]" ?st2] parse_skip [OF assms(6)] by (simp add: parse_end)
  finally show ?thesis
    using parse_after_header [of "concat (map enc_record before_it) @ [60] @ ?c @ [62] @ ?after" U]
      stream_records [OF assms(1) bad] by simp
qed

theorem bad_length_isolated_witness:
  "parse_adi ascii_tables (ADIF_HEADER @ enc_record [(u ''CALL'', u ''A'')] @ u ''<BAND:x>20m'' @
     enc_record [(u ''CALL'', u ''B'')]) =
   Some ([[(u ''CALL'', u ''A'')], [(u ''CALL'', u ''B'')]], [(1, u ''Invalid byte length in tag: <BAND:x>'')])"
proof -
  have ok: "list_all (record_ok ascii_tables) [[(u ''CALL'', u ''A'')]]"
      "list_all (record_ok ascii_tables) [[(u ''CALL'', u ''B'')]]" by code_simp+
  have "{58, 62} \<inter> set (u ''BAND'' @ u ''x'') = {}" "list_all scalar (u ''BAND'' @ u ''x'' @ u ''20m'')"
      "py_int ascii_tables (u ''x'') = None" "60 \<notin> set (u ''20m'')" by code_simp+
  from bad_length_isolated [OF ok this]
  have "parse_adi ascii_tables (ADIF_HEADER @ enc_record [(u ''CALL'', u ''A'')] @
      [60] @ u ''BAND'' @ [58] @ u ''x'' @ [62] @ u ''20m'' @ enc_record [(u ''CALL'', u ''B'')]) =
    Some (map in_order [[(u ''CALL'', u ''A'')], [(u ''CALL'', u ''B'')]],
          [(1, bad_length @ u ''BAND'' @ [58] @ u ''x'' @ [62])])" by simp
  moreover have "map in_order [[(u ''CALL'', u ''A'')], [(u ''CALL'', u ''B'')]] =
      [[(u ''CALL'', u ''A'')], [(u ''CALL'', u ''B'')]]" by code_simp
  moreover have "bad_length @ u ''BAND'' @ [58] @ u ''x'' @ [62] = u ''Invalid byte length in tag: <BAND:x>''"
    by code_simp
  moreover have "[60] @ u ''BAND'' @ [58] @ u ''x'' @ [62] @ u ''20m'' @ s = u ''<BAND:x>20m'' @ s" for s
    by (simp add: u_def)
  ultimately show ?thesis by (simp only:)
qed

lemma read_data_tag_some:
  assumes "list_all scalar rest"
  shows "\<exists>tg. read_data_tag U content rest = Some tg \<and>
    (\<forall>name v rest'. tg = Field name v rest' \<longrightarrow> (\<exists>k. rest' = drop k rest))"
proof -
  let ?parts = "split_on 58 content"
  have enc: "utf8_encode rest = Some (concat (map utf8_char rest))"
    using assms by (simp add: utf8_encode_def)
  consider "length ?parts < 2" | "\<not> length ?parts < 2" "py_int U (?parts ! 1) = None"
    | k where "\<not> length ?parts < 2" "py_int U (?parts ! 1) = Some k" by fastforce
  then show ?thesis
  proof cases
    case 1
    then show ?thesis by (simp add: read_data_tag_def)
  next
    case 2
    then show ?thesis by (simp add: read_data_tag_def)
  next
    case 3
    then show ?thesis by (auto simp: read_data_tag_def enc Let_def)
  qed
qed

text \<open>
  The parser never fails on text that can be encoded, however malformed, and no
  record it returns is empty.
\<close>
theorem parse_adi_total:
  assumes "list_all scalar s"
  shows "\<exists>rs es. parse_adi U s = Some (rs, es) \<and> [] \<notin> set rs"
proof -
  have "\<exists>st'. adi_loop U s st = Some st' \<and> [] \<notin> set (records st')"
    if "list_all scalar s" "[] \<notin> set (records st)" for st
    using that
  proof (induction U s st rule: adi_loop.induct)
    case (1 U s st)
    show ?case
    proof (cases "next_tag s")
      case None
      with 1 show ?thesis by (simp add: adi_loop.simps [of U s])
    next
      case (Some tag)
      obtain content rest where t: "tag = (content, rest)" by (cases tag)
      with Some obtain k where "rest = drop k s" by (auto simp: next_tag_def Let_def split: if_splits)
      then have rest: "list_all scalar rest" using "1.prems"(1) by (auto simp: list_all_iff dest: in_set_dropD)
      from read_data_tag_some [OF rest] obtain tg where tg: "read_data_tag U content rest = Some tg"
        and field: "\<And>name v rest'. tg = Field name v rest' \<Longrightarrow> \<exists>k. rest' = drop k rest" by blast
      have "\<exists>st1 rest1. tag_step U content rest st = Some (st1, rest1) \<and> list_all scalar rest1 \<and>
          [] \<notin> set (records st1)"
        using tg field rest "1.prems"(2)
        by (cases tg) (auto simp: tag_step_def Let_def list_all_iff dest: in_set_dropD)
      then obtain st1 rest1 where s: "tag_step U content rest st = Some (st1, rest1)"
          "list_all scalar rest1" "[] \<notin> set (records st1)" by blast
      from "1.IH" [OF Some t [symmetric] s(1) refl s(2,3)] Some t s(1) show ?thesis
        by (simp add: adi_loop.simps [of U s])
    qed
  qed
  from this [OF assms, of "adif_init U s"] show ?thesis
    by (auto simp: parse_adi_def adif_init_def)
qed

theorem parse_adi_total_witness:
  "\<exists>rs es. parse_adi ascii_tables (u ''<CALL:9><>::<EOR><A:-3>x<EOH'') = Some (rs, es) \<and> [] \<notin> set rs"
proof (rule parse_adi_total)
  show "list_all scalar (u ''<CALL:9><>::<EOR><A:-3>x<EOH'')" by code_simp
qed

text \<open>
  Two ways in which records are lost without an error: text written without a
  header loses everything when a value holds the end-of-header tag, and a negative length takes
  the rest of the file but its last bytes as the value.
\<close>
theorem silent_losses:
  "(case serialize_adi [[(u ''CALL'', u ''K1AB''), (u ''COMMENT'', u ''<EOH>'')]] None of
      None \<Rightarrow> None | Some t \<Rightarrow> parse_adi ascii_tables t) = Some ([], []) \<and>
   parse_adi ascii_tables (u ''<CALL:4>K1AB<RST:-1>59<EOR><CALL:4>K2CD<EOR>'') = Some ([], [])"
  by code_simp

end
