(* ===== verification/Callsign_Data.thy ===== *)
theory Callsign_Data
  imports Prelude
begin

text \<open>
  The tables of the call sign resolver (\<open>app/callsign/prefixes.py\<close>): the codes of the names the
  International Telecommunication Union uses, \<open>None\<close> where a name is no country, and the union's
  table of call sign series, both with the entries and in the order of the file.
\<close>

definition ITU_NAME_TO_ISO :: "(string \<times> string option) list" where
  "ITU_NAME_TO_ISO =
    [(''Adelie Land'', None), (''Afghanistan'', Some ''AF''), (''Alaska'', Some ''US''),
     (''Albania'', Some ''AL''), (''Algeria'', Some ''DZ''), (''American Samoa'', Some ''AS''),
     (''Andorra'', Some ''AD''), (''Angola'', Some ''AO''), (''Antigua and Barbuda'', Some ''AG''),
     (''Argentine Republic'', Some ''AR''), (''Armenia'', Some ''AM''),
     (''Ascension Island'', Some ''SH''), (''Australia'', Some ''AU''), (''Austria'', Some ''AT''),
     (''Azerbaijan'', Some ''AZ''), (''Azores'', Some ''PT''), (''Bahamas'', Some ''BS''),
     (''Bahrain'', Some ''BH''), (''Bangladesh'', Some ''BD''), (''Barbados'', Some ''BB''),
     (''Belarus'', Some ''BY''), (''Belgium'', Some ''BE''), (''Belize'', Some ''BZ''),
     (''Benin'', Some ''BJ''), (''Bermuda'', Some ''BM''), (''Bhutan'', Some ''BT''),
     (''Bolivia'', Some ''BO''), (''Bosnia and Herzegovina'', Some ''BA''),
     (''Botswana'', Some ''BW''), (''Brazil'', Some ''BR''),
     (''British Virgin Islands'', Some ''VG''), (''Brunei Darussalam'', Some ''BN''),
     (''Bulgaria'', Some ''BG''), (''Burkina Faso'', Some ''BF''), (''Burundi'', Some ''BI''),
     (''Cabo Verde'', Some ''CV''), (''Cambodia'', Some ''KH''), (''Cameroon'', Some ''CM''),
     (''Canada'', Some ''CA''), (''Cayman Islands'', Some ''KY''),
     (''Central African Republic'', Some ''CF''), (''Chad'', Some ''TD''),
     (''Chile'', Some ''CL''), (''China (People's Republic of)'', Some ''CN''),
     (''Colombia'', Some ''CO''), (''Comoros'', Some ''KM''),
     (''Congo (Republic of the)'', Some ''CG''), (''Cook Islands'', Some ''CK''),
     (''Costa Rica'', Some ''CR''), (''Cote d'Ivoire'', Some ''CI''), (''Croatia'', Some ''HR''),
     (''Cuba'', Some ''CU''), (''Cyprus'', Some ''CY''), (''Czech Republic'', Some ''CZ''),
     (''Democratic People's Republic of Korea'', Some ''KP''),
     (''Democratic Republic of the Congo'', Some ''CD''), (''Denmark'', Some ''DK''),
     (''Djibouti'', Some ''DJ''), (''Dominica'', Some ''DM''),
     (''Dominican Republic'', Some ''DO''), (''East Timor'', Some ''TL''),
     (''Ecuador'', Some ''EC''), (''Egypt'', Some ''EG''), (''El Salvador'', Some ''SV''),
     (''Equatorial Guinea'', Some ''GQ''), (''Eritrea'', Some ''ER''), (''Estonia'', Some ''EE''),
     (''Eswatini'', Some ''SZ''), (''Ethiopia'', Some ''ET''),
     (''Falkland Islands (Malvinas)'', Some ''FK''), (''Fiji'', Some ''FJ''),
     (''Finland'', Some ''FI''), (''France'', Some ''FR''), (''French Polynesia'', Some ''PF''),
     (''Gabonese Republic'', Some ''GA''), (''Gambia'', Some ''GM''), (''Georgia'', Some ''GE''),
     (''Germany (Federal Republic of)'', Some ''DE''), (''Ghana'', Some ''GH''),
     (''Greece'', Some ''GR''), (''Greenland'', Some ''GL''), (''Grenada'', Some ''GD''),
     (''Guam'', Some ''GU''), (''Guatemala'', Some ''GT''), (''Guinea'', Some ''GN''),
     (''Guinea-Bissau'', Some ''GW''), (''Guyana'', Some ''GY''), (''Haiti'', Some ''HT''),
     (''Hawaii'', Some ''US''), (''Honduras'', Some ''HN''), (''Hungary'', Some ''HU''),
     (''Iceland'', Some ''IS''), (''India'', Some ''IN''), (''Indonesia'', Some ''ID''),
     (''International Civil Aviation Organization'', None),
     (''Iran (Islamic Republic of)'', Some ''IR''), (''Iraq'', Some ''IQ''),
     (''Ireland'', Some ''IE''), (''Israel'', Some ''IL''), (''Italy'', Some ''IT''),
     (''Jamaica'', Some ''JM''), (''Japan'', Some ''JP''), (''Jordan'', Some ''JO''),
     (''Kazakhstan'', Some ''KZ''), (''Kenya'', Some ''KE''), (''Kiribati'', Some ''KI''),
     (''Korea (Republic of)'', Some ''KR''), (''Kosovo'', Some ''XK''), (''Kuwait'', Some ''KW''),
     (''Kyrgyzstan'', Some ''KG''), (''Lao People's Democratic Republic'', Some ''LA''),
     (''Latvia'', Some ''LV''), (''Lebanon'', Some ''LB''), (''Lesotho'', Some ''LS''),
     (''Liberia'', Some ''LR''), (''Libya'', Some ''LY''), (''Liechtenstein'', Some ''LI''),
     (''Lithuania'', Some ''LT''), (''Luxembourg'', Some ''LU''), (''Madagascar'', Some ''MG''),
     (''Malawi'', Some ''MW''), (''Malaysia'', Some ''MY''), (''Maldives'', Some ''MV''),
     (''Mali'', Some ''ML''), (''Malta'', Some ''MT''), (''Marshall Islands'', Some ''MH''),
     (''Mauritania'', Some ''MR''), (''Mauritius'', Some ''MU''), (''Mexico'', Some ''MX''),
     (''Micronesia'', Some ''FM''), (''Moldova (Republic of)'', Some ''MD''),
     (''Monaco'', Some ''MC''), (''Mongolia'', Some ''MN''), (''Montenegro'', Some ''ME''),
     (''Morocco'', Some ''MA''), (''Mozambique'', Some ''MZ''), (''Myanmar'', Some ''MM''),
     (''Namibia'', Some ''NA''), (''Nauru'', Some ''NR''), (''Nepal'', Some ''NP''),
     (''Netherlands (Kingdom of the)'', Some ''NL''), (''New Zealand'', Some ''NZ''),
     (''Nicaragua'', Some ''NI''), (''Niger'', Some ''NE''), (''Nigeria'', Some ''NG''),
     (''Niue'', Some ''NU''), (''North Macedonia'', Some ''MK''), (''Norway'', Some ''NO''),
     (''Oman'', Some ''OM''), (''Pakistan'', Some ''PK''), (''Palau'', Some ''PW''),
     (''Palestine'', Some ''PS''), (''Panama'', Some ''PA''), (''Papua New Guinea'', Some ''PG''),
     (''Paraguay'', Some ''PY''), (''Peru'', Some ''PE''), (''Philippines'', Some ''PH''),
     (''Poland'', Some ''PL''), (''Portugal'', Some ''PT''), (''Puerto Rico'', Some ''PR''),
     (''Qatar'', Some ''QA''), (''Romania'', Some ''RO''), (''Russian Federation'', Some ''RU''),
     (''Rwanda'', Some ''RW''), (''Saint Kitts and Nevis'', Some ''KN''),
     (''Saint Lucia'', Some ''LC''), (''Saint Vincent and the Grenadines'', Some ''VC''),
     (''Samoa'', Some ''WS''), (''San Marino'', Some ''SM''),
     (''Sao Tome and Principe'', Some ''ST''), (''Saudi Arabia'', Some ''SA''),
     (''Senegal'', Some ''SN''), (''Serbia'', Some ''RS''), (''Seychelles'', Some ''SC''),
     (''Sierra Leone'', Some ''SL''), (''Singapore'', Some ''SG''),
     (''Slovak Republic'', Some ''SK''), (''Slovenia'', Some ''SI''),
     (''Solomon Islands'', Some ''SB''), (''Somalia'', Some ''SO''),
     (''South Africa (Republic of)'', Some ''ZA''), (''South Sudan (Republic of)'', Some ''SS''),
     (''Spain'', Some ''ES''), (''Sri Lanka'', Some ''LK''), (''Sudan'', Some ''SD''),
     (''Suriname'', Some ''SR''), (''Swaziland'', Some ''SZ''), (''Sweden'', Some ''SE''),
     (''Switzerland'', Some ''CH''), (''Syrian Arab Republic'', Some ''SY''),
     (''Taiwan (China)'', Some ''TW''), (''Tajikistan'', Some ''TJ''), (''Tanzania'', Some ''TZ''),
     (''Thailand'', Some ''TH''), (''Togolese Republic'', Some ''TG''), (''Tonga'', Some ''TO''),
     (''Trinidad and Tobago'', Some ''TT''), (''Tunisia'', Some ''TN''), (''Turkey'', Some ''TR''),
     (''Turkmenistan'', Some ''TM''), (''Tuvalu'', Some ''TV''), (''Uganda'', Some ''UG''),
     (''Ukraine'', Some ''UA''), (''United Arab Emirates'', Some ''AE''),
     (''United Kingdom of Great Britain and Northern Ireland'', Some ''GB''),
     (''United Nations Organization'', None), (''United States of America'', Some ''US''),
     (''Uruguay'', Some ''UY''), (''Uzbekistan'', Some ''UZ''), (''Vanuatu'', Some ''VU''),
     (''Vatican City State'', Some ''VA''), (''Venezuela'', Some ''VE''),
     (''Viet Nam'', Some ''VN''), (''World Meteorological Organization'', None),
     (''Yemen'', Some ''YE''), (''Zambia'', Some ''ZM''), (''Zimbabwe'', Some ''ZW'')]"

definition ITU_RAW_DATA :: "(string \<times> string) list" where
  "ITU_RAW_DATA =
    [(''AAA - ALZ'', ''United States of America''), (''AMA - AOZ'', ''Spain''),
     (''APA - ASZ'', ''Pakistan''), (''ATA - AWZ'', ''India''), (''AXA - AXZ'', ''Australia''),
     (''AYA - AZZ'', ''Argentine Republic''), (''A2A - A2Z'', ''Botswana''),
     (''A3A - A3Z'', ''Tonga''), (''A4A - A4Z'', ''Oman''), (''A5A - A5Z'', ''Bhutan''),
     (''A6A - A6Z'', ''United Arab Emirates''), (''A7A - A7Z'', ''Qatar''),
     (''A8A - A8Z'', ''Liberia''), (''A9A - A9Z'', ''Bahrain''),
     (''BAA - BZZ'', ''China (People's Republic of)''), (''CAA - CEZ'', ''Chile''),
     (''CFA - CKZ'', ''Canada''), (''CLA - CMZ'', ''Cuba''), (''CNA - CNZ'', ''Morocco''),
     (''COA - COZ'', ''Cuba''), (''CPA - CPZ'', ''Bolivia''), (''CQA - CUZ'', ''Portugal''),
     (''CVA - CXZ'', ''Uruguay''), (''CYA - CZZ'', ''Canada''), (''C2A - C2Z'', ''Nauru''),
     (''C3A - C3Z'', ''Andorra''), (''C4A - C4Z'', ''Cyprus''), (''C5A - C5Z'', ''Gambia''),
     (''C6A - C6Z'', ''Bahamas''), (''C7A - C7Z'', ''World Meteorological Organization''),
     (''C8A - C9Z'', ''Mozambique''), (''DAA - DRZ'', ''Germany (Federal Republic of)''),
     (''DSA - DTZ'', ''Korea (Republic of)''), (''DUA - DUZ'', ''Philippines''),
     (''DVA - DXZ'', ''Philippines''), (''DYA - DZZ'', ''Philippines''),
     (''D2A - D3Z'', ''Angola''), (''D4A - D4Z'', ''Cabo Verde''), (''D5A - D5Z'', ''Liberia''),
     (''D6A - D6Z'', ''Comoros''), (''D7A - D9Z'', ''Korea (Republic of)''),
     (''EAA - EHZ'', ''Spain''), (''EIA - EJZ'', ''Ireland''), (''EKA - EKZ'', ''Armenia''),
     (''ELA - ELZ'', ''Liberia''), (''EMA - EOZ'', ''Ukraine''),
     (''EPA - EQZ'', ''Iran (Islamic Republic of)''), (''ERA - ERZ'', ''Moldova (Republic of)''),
     (''ESA - ESZ'', ''Estonia''), (''ETA - ETZ'', ''Ethiopia''), (''EUA - EWZ'', ''Belarus''),
     (''EXA - EXZ'', ''Kyrgyzstan''), (''EYA - EYZ'', ''Tajikistan''),
     (''EZA - EZZ'', ''Turkmenistan''), (''E2A - E2Z'', ''Thailand''),
     (''E3A - E3Z'', ''Eritrea''), (''E4A - E4Z'', ''Palestine''),
     (''E5A - E5Z'', ''Cook Islands''), (''E6A - E6Z'', ''Niue''),
     (''E7A - E7Z'', ''Bosnia and Herzegovina''), (''FAA - FZZ'', ''France''),
     (''GAA - GZZ'', ''United Kingdom of Great Britain and Northern Ireland''),
     (''HAA - HAZ'', ''Hungary''), (''HBA - HBZ'', ''Switzerland''), (''HCA - HDZ'', ''Ecuador''),
     (''HEA - HEZ'', ''Switzerland''), (''HFA - HFZ'', ''Poland''), (''HGA - HGZ'', ''Hungary''),
     (''HHA - HHZ'', ''Haiti''), (''HIA - HIZ'', ''Dominican Republic''),
     (''HJA - HKZ'', ''Colombia''), (''HLA - HLZ'', ''Korea (Republic of)''),
     (''HMA - HMZ'', ''Democratic People's Republic of Korea''), (''HNA - HNZ'', ''Iraq''),
     (''HOA - HPZ'', ''Panama''), (''HQA - HRZ'', ''Honduras''), (''HSA - HSZ'', ''Thailand''),
     (''HTA - HTZ'', ''Nicaragua''), (''HUA - HUZ'', ''El Salvador''),
     (''HVA - HVZ'', ''Vatican City State''), (''HWA - HYZ'', ''France''),
     (''HZA - HZZ'', ''Saudi Arabia''), (''H2A - H2Z'', ''Cyprus''), (''H3A - H3Z'', ''Panama''),
     (''H4A - H4Z'', ''Solomon Islands''), (''H6A - H7Z'', ''Nicaragua''),
     (''H8A - H9Z'', ''Panama''), (''IAA - IZZ'', ''Italy''), (''JAA - JSZ'', ''Japan''),
     (''JTA - JVZ'', ''Mongolia''), (''JWA - JXZ'', ''Norway''), (''JYA - JYZ'', ''Jordan''),
     (''JZA - JZZ'', ''Indonesia''), (''J2A - J2Z'', ''Djibouti''), (''J3A - J3Z'', ''Grenada''),
     (''J4A - J4Z'', ''Greece''), (''J5A - J5Z'', ''Guinea-Bissau''),
     (''J6A - J6Z'', ''Saint Lucia''), (''J7A - J7Z'', ''Dominica''),
     (''J8A - J8Z'', ''Saint Vincent and the Grenadines''),
     (''KAA - KZZ'', ''United States of America''), (''LAA - LNZ'', ''Norway''),
     (''LOA - LWZ'', ''Argentine Republic''), (''LXA - LXZ'', ''Luxembourg''),
     (''LYA - LYZ'', ''Lithuania''), (''LZA - LZZ'', ''Bulgaria''),
     (''L2A - L9Z'', ''Argentine Republic''),
     (''MAA - MZZ'', ''United Kingdom of Great Britain and Northern Ireland''),
     (''NAA - NZZ'', ''United States of America''), (''OAA - OCZ'', ''Peru''),
     (''ODA - ODZ'', ''Lebanon''), (''OEA - OEZ'', ''Austria''), (''OFA - OJZ'', ''Finland''),
     (''OKA - OLZ'', ''Czech Republic''), (''OMA - OMZ'', ''Slovak Republic''),
     (''ONA - OTZ'', ''Belgium''), (''OUA - OZZ'', ''Denmark''),
     (''PAA - PIZ'', ''Netherlands (Kingdom of the)''),
     (''PJA - PJZ'', ''Netherlands (Kingdom of the)''), (''PKA - POZ'', ''Indonesia''),
     (''PPA - PYZ'', ''Brazil''), (''PZA - PZZ'', ''Suriname''),
     (''P2A - P2Z'', ''Papua New Guinea''), (''P3A - P3Z'', ''Cyprus''),
     (''P4A - P4Z'', ''Netherlands (Kingdom of the)''),
     (''P5A - P9Z'', ''Democratic People's Republic of Korea''),
     (''RAA - RZZ'', ''Russian Federation''), (''SAA - SMZ'', ''Sweden''),
     (''SNA - SRZ'', ''Poland''), (''SSA - SSM'', ''Egypt''), (''SSN - STZ'', ''Sudan''),
     (''SUA - SUZ'', ''Egypt''), (''SVA - SZZ'', ''Greece''), (''S2A - S3Z'', ''Bangladesh''),
     (''S5A - S5Z'', ''Slovenia''), (''S6A - S6Z'', ''Singapore''),
     (''S7A - S7Z'', ''Seychelles''), (''S8A - S8Z'', ''South Africa (Republic of)''),
     (''S9A - S9Z'', ''Sao Tome and Principe''), (''TAA - TCZ'', ''Turkey''),
     (''TDA - TDZ'', ''Guatemala''), (''TEA - TEZ'', ''Costa Rica''), (''TFA - TFZ'', ''Iceland''),
     (''TGA - TGZ'', ''Guatemala''), (''THA - THZ'', ''France''), (''TIA - TIZ'', ''Costa Rica''),
     (''TJA - TJZ'', ''Cameroon''), (''TKA - TKZ'', ''France''),
     (''TLA - TLZ'', ''Central African Republic''), (''TMA - TMZ'', ''France''),
     (''TNA - TNZ'', ''Congo (Republic of the)''), (''TOA - TQZ'', ''France''),
     (''TRA - TRZ'', ''Gabonese Republic''), (''TSA - TSZ'', ''Tunisia''),
     (''TTA - TTZ'', ''Chad''), (''TUA - TUZ'', ''Cote d'Ivoire''), (''TVA - TXZ'', ''France''),
     (''TYA - TYZ'', ''Benin''), (''TZA - TZZ'', ''Mali''), (''T2A - T2Z'', ''Tuvalu''),
     (''T3A - T3Z'', ''Kiribati''), (''T4A - T4Z'', ''Cuba''), (''T5A - T5Z'', ''Somalia''),
     (''T6A - T6Z'', ''Afghanistan''), (''T7A - T7Z'', ''San Marino''), (''T8A - T8Z'', ''Palau''),
     (''UAA - UIZ'', ''Russian Federation''), (''UJA - UMZ'', ''Uzbekistan''),
     (''UNA - UQZ'', ''Kazakhstan''), (''URA - UZZ'', ''Ukraine''), (''VAA - VGZ'', ''Canada''),
     (''VHA - VNZ'', ''Australia''), (''VOA - VOZ'', ''Canada''),
     (''VPA - VQZ'', ''United Kingdom of Great Britain and Northern Ireland''),
     (''VRA - VRZ'', ''China (People's Republic of)''),
     (''VSA - VSZ'', ''United Kingdom of Great Britain and Northern Ireland''),
     (''VTA - VWZ'', ''India''), (''VXA - VYZ'', ''Canada''), (''VZA - VZZ'', ''Australia''),
     (''V2A - V2Z'', ''Antigua and Barbuda''), (''V3A - V3Z'', ''Belize''),
     (''V4A - V4Z'', ''Saint Kitts and Nevis''), (''V5A - V5Z'', ''Namibia''),
     (''V6A - V6Z'', ''Micronesia''), (''V7A - V7Z'', ''Marshall Islands''),
     (''V8A - V8Z'', ''Brunei Darussalam''), (''WAA - WZZ'', ''United States of America''),
     (''XAA - XIZ'', ''Mexico''), (''XJA - XOZ'', ''Canada''), (''XPA - XPZ'', ''Denmark''),
     (''XQA - XRZ'', ''Chile''), (''XSA - XSZ'', ''China (People's Republic of)''),
     (''XTA - XTZ'', ''Burkina Faso''), (''XUA - XUZ'', ''Cambodia''),
     (''XVA - XVZ'', ''Viet Nam''), (''XWA - XWZ'', ''Lao People's Democratic Republic''),
     (''XXA - XXZ'', ''Portugal''), (''XYA - XZZ'', ''Myanmar''), (''YAA - YAZ'', ''Afghanistan''),
     (''YBA - YHZ'', ''Indonesia''), (''YIA - YIZ'', ''Iraq''), (''YJA - YJZ'', ''Vanuatu''),
     (''YKA - YKZ'', ''Syrian Arab Republic''), (''YLA - YLZ'', ''Latvia''),
     (''YMA - YMZ'', ''Turkey''), (''YNA - YNZ'', ''Nicaragua''), (''YOA - YRZ'', ''Romania''),
     (''YSA - YSZ'', ''El Salvador''), (''YTA - YUZ'', ''Serbia''), (''YVA - YYZ'', ''Venezuela''),
     (''YZA - YZZ'', ''Serbia''), (''Y2A - Y9Z'', ''Germany (Federal Republic of)''),
     (''ZAA - ZAZ'', ''Albania''),
     (''ZBA - ZJZ'', ''United Kingdom of Great Britain and Northern Ireland''),
     (''ZKA - ZMZ'', ''New Zealand''),
     (''ZNA - ZOZ'', ''United Kingdom of Great Britain and Northern Ireland''),
     (''ZPA - ZPZ'', ''Paraguay''),
     (''ZQA - ZQZ'', ''United Kingdom of Great Britain and Northern Ireland''),
     (''ZRA - ZUZ'', ''South Africa (Republic of)''), (''ZVA - ZZZ'', ''Brazil''),
     (''Z2A - Z2Z'', ''Zimbabwe''), (''Z3A - Z3Z'', ''North Macedonia''),
     (''Z6A - Z6Z'', ''Kosovo''), (''Z8A - Z8Z'', ''South Sudan (Republic of)''),
     (''2AA - 2ZZ'', ''United Kingdom of Great Britain and Northern Ireland''),
     (''3AA - 3AZ'', ''Monaco''), (''3BA - 3BZ'', ''Mauritius''),
     (''3CA - 3CZ'', ''Equatorial Guinea''), (''3DA - 3DM'', ''Eswatini''),
     (''3DN - 3DZ'', ''Fiji''), (''3EA - 3FZ'', ''Panama''), (''3GA - 3GZ'', ''Chile''),
     (''3HA - 3UZ'', ''China (People's Republic of)''), (''3VA - 3VZ'', ''Tunisia''),
     (''3WA - 3WZ'', ''Viet Nam''), (''3XA - 3XZ'', ''Guinea''), (''3YA - 3YZ'', ''Norway''),
     (''3ZA - 3ZZ'', ''Poland''), (''4AA - 4CZ'', ''Mexico''), (''4DA - 4IZ'', ''Philippines''),
     (''4JA - 4KZ'', ''Azerbaijan''), (''4LA - 4LZ'', ''Georgia''), (''4MA - 4MZ'', ''Venezuela''),
     (''4NA - 4OZ'', ''Serbia''), (''4PA - 4SZ'', ''Sri Lanka''), (''4TA - 4TZ'', ''Peru''),
     (''4UA - 4UZ'', ''United Nations Organization''), (''4VA - 4VZ'', ''Haiti''),
     (''4WA - 4WZ'', ''East Timor''), (''4XA - 4XZ'', ''Israel''),
     (''4YA - 4YZ'', ''International Civil Aviation Organization''), (''4ZA - 4ZZ'', ''Israel''),
     (''5AA - 5AZ'', ''Libya''), (''5BA - 5BZ'', ''Cyprus''), (''5CA - 5GZ'', ''Morocco''),
     (''5HA - 5IZ'', ''Tanzania''), (''5JA - 5KZ'', ''Colombia''), (''5LA - 5MZ'', ''Liberia''),
     (''5NA - 5OZ'', ''Nigeria''), (''5PA - 5QZ'', ''Denmark''), (''5RA - 5SZ'', ''Madagascar''),
     (''5TA - 5TZ'', ''Mauritania''), (''5UA - 5UZ'', ''Niger''),
     (''5VA - 5VZ'', ''Togolese Republic''), (''5WA - 5WZ'', ''Samoa''),
     (''5XA - 5XZ'', ''Uganda''), (''5YA - 5ZZ'', ''Kenya''), (''6AA - 6BZ'', ''Egypt''),
     (''6CA - 6CZ'', ''Syrian Arab Republic''), (''6DA - 6JZ'', ''Mexico''),
     (''6KA - 6NZ'', ''Korea (Republic of)''), (''6OA - 6OZ'', ''Somalia''),
     (''6PA - 6SZ'', ''Pakistan''), (''6TA - 6UZ'', ''Sudan''), (''6VA - 6WZ'', ''Senegal''),
     (''6XA - 6XZ'', ''Madagascar''), (''6YA - 6YZ'', ''Jamaica''), (''6ZA - 6ZZ'', ''Liberia''),
     (''7AA - 7IZ'', ''Indonesia''), (''7JA - 7NZ'', ''Japan''), (''7OA - 7OZ'', ''Yemen''),
     (''7PA - 7PZ'', ''Lesotho''), (''7QA - 7QZ'', ''Malawi''), (''7RA - 7RZ'', ''Algeria''),
     (''7SA - 7SZ'', ''Sweden''), (''7TA - 7YZ'', ''Algeria''), (''7ZA - 7ZZ'', ''Saudi Arabia''),
     (''8AA - 8IZ'', ''Indonesia''), (''8JA - 8NZ'', ''Japan''), (''8OA - 8OZ'', ''Botswana''),
     (''8PA - 8PZ'', ''Barbados''), (''8QA - 8QZ'', ''Maldives''), (''8RA - 8RZ'', ''Guyana''),
     (''8SA - 8SZ'', ''Sweden''), (''8TA - 8YZ'', ''India''), (''8ZA - 8ZZ'', ''Saudi Arabia''),
     (''9AA - 9AZ'', ''Croatia''), (''9BA - 9DZ'', ''Iran (Islamic Republic of)''),
     (''9EA - 9FZ'', ''Ethiopia''), (''9GA - 9GZ'', ''Ghana''), (''9HA - 9HZ'', ''Malta''),
     (''9IA - 9IZ'', ''Zambia''), (''9JA - 9JZ'', ''Zambia''), (''9KA - 9KZ'', ''Kuwait''),
     (''9LA - 9LZ'', ''Sierra Leone''), (''9MA - 9MZ'', ''Malaysia''), (''9NA - 9NZ'', ''Nepal''),
     (''9OA - 9TZ'', ''Democratic Republic of the Congo''), (''9UA - 9UZ'', ''Burundi''),
     (''9VA - 9VZ'', ''Singapore''), (''9WA - 9WZ'', ''Malaysia''), (''9XA - 9XZ'', ''Rwanda''),
     (''9YA - 9ZZ'', ''Trinidad and Tobago'')]"

text \<open>For the proofs: the ends of the series in the order of their starts, digits before letters.\<close>

definition SERIES_IN_ORDER :: "(string \<times> string) list" where
  "SERIES_IN_ORDER =
    [(''2AA'', ''2ZZ''), (''3AA'', ''3AZ''), (''3BA'', ''3BZ''), (''3CA'', ''3CZ''),
     (''3DA'', ''3DM''), (''3DN'', ''3DZ''), (''3EA'', ''3FZ''), (''3GA'', ''3GZ''),
     (''3HA'', ''3UZ''), (''3VA'', ''3VZ''), (''3WA'', ''3WZ''), (''3XA'', ''3XZ''),
     (''3YA'', ''3YZ''), (''3ZA'', ''3ZZ''), (''4AA'', ''4CZ''), (''4DA'', ''4IZ''),
     (''4JA'', ''4KZ''), (''4LA'', ''4LZ''), (''4MA'', ''4MZ''), (''4NA'', ''4OZ''),
     (''4PA'', ''4SZ''), (''4TA'', ''4TZ''), (''4UA'', ''4UZ''), (''4VA'', ''4VZ''),
     (''4WA'', ''4WZ''), (''4XA'', ''4XZ''), (''4YA'', ''4YZ''), (''4ZA'', ''4ZZ''),
     (''5AA'', ''5AZ''), (''5BA'', ''5BZ''), (''5CA'', ''5GZ''), (''5HA'', ''5IZ''),
     (''5JA'', ''5KZ''), (''5LA'', ''5MZ''), (''5NA'', ''5OZ''), (''5PA'', ''5QZ''),
     (''5RA'', ''5SZ''), (''5TA'', ''5TZ''), (''5UA'', ''5UZ''), (''5VA'', ''5VZ''),
     (''5WA'', ''5WZ''), (''5XA'', ''5XZ''), (''5YA'', ''5ZZ''), (''6AA'', ''6BZ''),
     (''6CA'', ''6CZ''), (''6DA'', ''6JZ''), (''6KA'', ''6NZ''), (''6OA'', ''6OZ''),
     (''6PA'', ''6SZ''), (''6TA'', ''6UZ''), (''6VA'', ''6WZ''), (''6XA'', ''6XZ''),
     (''6YA'', ''6YZ''), (''6ZA'', ''6ZZ''), (''7AA'', ''7IZ''), (''7JA'', ''7NZ''),
     (''7OA'', ''7OZ''), (''7PA'', ''7PZ''), (''7QA'', ''7QZ''), (''7RA'', ''7RZ''),
     (''7SA'', ''7SZ''), (''7TA'', ''7YZ''), (''7ZA'', ''7ZZ''), (''8AA'', ''8IZ''),
     (''8JA'', ''8NZ''), (''8OA'', ''8OZ''), (''8PA'', ''8PZ''), (''8QA'', ''8QZ''),
     (''8RA'', ''8RZ''), (''8SA'', ''8SZ''), (''8TA'', ''8YZ''), (''8ZA'', ''8ZZ''),
     (''9AA'', ''9AZ''), (''9BA'', ''9DZ''), (''9EA'', ''9FZ''), (''9GA'', ''9GZ''),
     (''9HA'', ''9HZ''), (''9IA'', ''9IZ''), (''9JA'', ''9JZ''), (''9KA'', ''9KZ''),
     (''9LA'', ''9LZ''), (''9MA'', ''9MZ''), (''9NA'', ''9NZ''), (''9OA'', ''9TZ''),
     (''9UA'', ''9UZ''), (''9VA'', ''9VZ''), (''9WA'', ''9WZ''), (''9XA'', ''9XZ''),
     (''9YA'', ''9ZZ''), (''A2A'', ''A2Z''), (''A3A'', ''A3Z''), (''A4A'', ''A4Z''),
     (''A5A'', ''A5Z''), (''A6A'', ''A6Z''), (''A7A'', ''A7Z''), (''A8A'', ''A8Z''),
     (''A9A'', ''A9Z''), (''AAA'', ''ALZ''), (''AMA'', ''AOZ''), (''APA'', ''ASZ''),
     (''ATA'', ''AWZ''), (''AXA'', ''AXZ''), (''AYA'', ''AZZ''), (''BAA'', ''BZZ''),
     (''C2A'', ''C2Z''), (''C3A'', ''C3Z''), (''C4A'', ''C4Z''), (''C5A'', ''C5Z''),
     (''C6A'', ''C6Z''), (''C7A'', ''C7Z''), (''C8A'', ''C9Z''), (''CAA'', ''CEZ''),
     (''CFA'', ''CKZ''), (''CLA'', ''CMZ''), (''CNA'', ''CNZ''), (''COA'', ''COZ''),
     (''CPA'', ''CPZ''), (''CQA'', ''CUZ''), (''CVA'', ''CXZ''), (''CYA'', ''CZZ''),
     (''D2A'', ''D3Z''), (''D4A'', ''D4Z''), (''D5A'', ''D5Z''), (''D6A'', ''D6Z''),
     (''D7A'', ''D9Z''), (''DAA'', ''DRZ''), (''DSA'', ''DTZ''), (''DUA'', ''DUZ''),
     (''DVA'', ''DXZ''), (''DYA'', ''DZZ''), (''E2A'', ''E2Z''), (''E3A'', ''E3Z''),
     (''E4A'', ''E4Z''), (''E5A'', ''E5Z''), (''E6A'', ''E6Z''), (''E7A'', ''E7Z''),
     (''EAA'', ''EHZ''), (''EIA'', ''EJZ''), (''EKA'', ''EKZ''), (''ELA'', ''ELZ''),
     (''EMA'', ''EOZ''), (''EPA'', ''EQZ''), (''ERA'', ''ERZ''), (''ESA'', ''ESZ''),
     (''ETA'', ''ETZ''), (''EUA'', ''EWZ''), (''EXA'', ''EXZ''), (''EYA'', ''EYZ''),
     (''EZA'', ''EZZ''), (''FAA'', ''FZZ''), (''GAA'', ''GZZ''), (''H2A'', ''H2Z''),
     (''H3A'', ''H3Z''), (''H4A'', ''H4Z''), (''H6A'', ''H7Z''), (''H8A'', ''H9Z''),
     (''HAA'', ''HAZ''), (''HBA'', ''HBZ''), (''HCA'', ''HDZ''), (''HEA'', ''HEZ''),
     (''HFA'', ''HFZ''), (''HGA'', ''HGZ''), (''HHA'', ''HHZ''), (''HIA'', ''HIZ''),
     (''HJA'', ''HKZ''), (''HLA'', ''HLZ''), (''HMA'', ''HMZ''), (''HNA'', ''HNZ''),
     (''HOA'', ''HPZ''), (''HQA'', ''HRZ''), (''HSA'', ''HSZ''), (''HTA'', ''HTZ''),
     (''HUA'', ''HUZ''), (''HVA'', ''HVZ''), (''HWA'', ''HYZ''), (''HZA'', ''HZZ''),
     (''IAA'', ''IZZ''), (''J2A'', ''J2Z''), (''J3A'', ''J3Z''), (''J4A'', ''J4Z''),
     (''J5A'', ''J5Z''), (''J6A'', ''J6Z''), (''J7A'', ''J7Z''), (''J8A'', ''J8Z''),
     (''JAA'', ''JSZ''), (''JTA'', ''JVZ''), (''JWA'', ''JXZ''), (''JYA'', ''JYZ''),
     (''JZA'', ''JZZ''), (''KAA'', ''KZZ''), (''L2A'', ''L9Z''), (''LAA'', ''LNZ''),
     (''LOA'', ''LWZ''), (''LXA'', ''LXZ''), (''LYA'', ''LYZ''), (''LZA'', ''LZZ''),
     (''MAA'', ''MZZ''), (''NAA'', ''NZZ''), (''OAA'', ''OCZ''), (''ODA'', ''ODZ''),
     (''OEA'', ''OEZ''), (''OFA'', ''OJZ''), (''OKA'', ''OLZ''), (''OMA'', ''OMZ''),
     (''ONA'', ''OTZ''), (''OUA'', ''OZZ''), (''P2A'', ''P2Z''), (''P3A'', ''P3Z''),
     (''P4A'', ''P4Z''), (''P5A'', ''P9Z''), (''PAA'', ''PIZ''), (''PJA'', ''PJZ''),
     (''PKA'', ''POZ''), (''PPA'', ''PYZ''), (''PZA'', ''PZZ''), (''RAA'', ''RZZ''),
     (''S2A'', ''S3Z''), (''S5A'', ''S5Z''), (''S6A'', ''S6Z''), (''S7A'', ''S7Z''),
     (''S8A'', ''S8Z''), (''S9A'', ''S9Z''), (''SAA'', ''SMZ''), (''SNA'', ''SRZ''),
     (''SSA'', ''SSM''), (''SSN'', ''STZ''), (''SUA'', ''SUZ''), (''SVA'', ''SZZ''),
     (''T2A'', ''T2Z''), (''T3A'', ''T3Z''), (''T4A'', ''T4Z''), (''T5A'', ''T5Z''),
     (''T6A'', ''T6Z''), (''T7A'', ''T7Z''), (''T8A'', ''T8Z''), (''TAA'', ''TCZ''),
     (''TDA'', ''TDZ''), (''TEA'', ''TEZ''), (''TFA'', ''TFZ''), (''TGA'', ''TGZ''),
     (''THA'', ''THZ''), (''TIA'', ''TIZ''), (''TJA'', ''TJZ''), (''TKA'', ''TKZ''),
     (''TLA'', ''TLZ''), (''TMA'', ''TMZ''), (''TNA'', ''TNZ''), (''TOA'', ''TQZ''),
     (''TRA'', ''TRZ''), (''TSA'', ''TSZ''), (''TTA'', ''TTZ''), (''TUA'', ''TUZ''),
     (''TVA'', ''TXZ''), (''TYA'', ''TYZ''), (''TZA'', ''TZZ''), (''UAA'', ''UIZ''),
     (''UJA'', ''UMZ''), (''UNA'', ''UQZ''), (''URA'', ''UZZ''), (''V2A'', ''V2Z''),
     (''V3A'', ''V3Z''), (''V4A'', ''V4Z''), (''V5A'', ''V5Z''), (''V6A'', ''V6Z''),
     (''V7A'', ''V7Z''), (''V8A'', ''V8Z''), (''VAA'', ''VGZ''), (''VHA'', ''VNZ''),
     (''VOA'', ''VOZ''), (''VPA'', ''VQZ''), (''VRA'', ''VRZ''), (''VSA'', ''VSZ''),
     (''VTA'', ''VWZ''), (''VXA'', ''VYZ''), (''VZA'', ''VZZ''), (''WAA'', ''WZZ''),
     (''XAA'', ''XIZ''), (''XJA'', ''XOZ''), (''XPA'', ''XPZ''), (''XQA'', ''XRZ''),
     (''XSA'', ''XSZ''), (''XTA'', ''XTZ''), (''XUA'', ''XUZ''), (''XVA'', ''XVZ''),
     (''XWA'', ''XWZ''), (''XXA'', ''XXZ''), (''XYA'', ''XZZ''), (''Y2A'', ''Y9Z''),
     (''YAA'', ''YAZ''), (''YBA'', ''YHZ''), (''YIA'', ''YIZ''), (''YJA'', ''YJZ''),
     (''YKA'', ''YKZ''), (''YLA'', ''YLZ''), (''YMA'', ''YMZ''), (''YNA'', ''YNZ''),
     (''YOA'', ''YRZ''), (''YSA'', ''YSZ''), (''YTA'', ''YUZ''), (''YVA'', ''YYZ''),
     (''YZA'', ''YZZ''), (''Z2A'', ''Z2Z''), (''Z3A'', ''Z3Z''), (''Z6A'', ''Z6Z''),
     (''Z8A'', ''Z8Z''), (''ZAA'', ''ZAZ''), (''ZBA'', ''ZJZ''), (''ZKA'', ''ZMZ''),
     (''ZNA'', ''ZOZ''), (''ZPA'', ''ZPZ''), (''ZQA'', ''ZQZ''), (''ZRA'', ''ZUZ''),
     (''ZVA'', ''ZZZ'')]"

end
