(* ===== verification/Callsign.thy ===== *)
theory Callsign
  imports Py_Text Callsign_Data "HOL-Library.Multiset"
begin

text \<open>
  The call sign resolver of the server (\<open>app/callsign/prefixes.py\<close>): from a call sign to the code
  of the country that its prefix is assigned to.

  The table is built once, when the module is imported; the error of a name without a code is
  \<open>Inl\<close>.  The answer \<open>None\<close> of \<open>range_lookup\<close> is the sentinel \<open>_NOTFOUND\<close>, and the code of an
  entry that is no country is \<open>None\<close> itself.  Strings are compared by their code points, digits
  before letters.
\<close>

section \<open>The table\<close>

type_synonym series = "ustr \<times> ustr \<times> ustr option"

definition range_ends :: "unicode \<Rightarrow> ustr \<Rightarrow> ustr \<times> ustr" where
  "range_ends U range_str =
     (let i = index_from (u '' - '') range_str 0 in
      if i \<noteq> -1
      then (py_strip U (take (nat i) range_str), py_strip U (drop (nat i + 3) range_str))
      else (py_strip U range_str, py_strip U range_str))"

fun read_ranges :: "unicode \<Rightarrow> (string \<times> string option) list \<Rightarrow> (string \<times> string) list \<Rightarrow> string + series list"
where
  "read_ranges U codes [] = Inr []"
| "read_ranges U codes ((range_str, itu_name) # raw) =
     (case map_of codes itu_name of
        None \<Rightarrow> Inl itu_name
      | Some cc \<Rightarrow>
          (let (start, stop) = range_ends U (u range_str)
           in map_sum id (Cons (start, stop, map_option u cc)) (read_ranges U codes raw)))"

definition build_ranges :: "unicode \<Rightarrow> string + series list" where
  "build_ranges U = map_sum id (sort_key fst) (read_ranges U ITU_NAME_TO_ISO ITU_RAW_DATA)"

section \<open>Looking up a prefix\<close>

text \<open>\<open>bisect_right(a, x)\<close> of the standard library.\<close>

function bisect_loop :: "ustr list \<Rightarrow> ustr \<Rightarrow> nat \<Rightarrow> nat \<Rightarrow> nat" where
  "bisect_loop a x lo hi =
     (if lo < hi
      then let mid = (lo + hi) div 2 in
           if x < a ! mid then bisect_loop a x lo mid else bisect_loop a x (mid + 1) hi
      else lo)"
  by pat_completeness auto
termination by (relation "measure (\<lambda>(a, x, lo, hi). hi - lo)") auto

declare bisect_loop.simps [simp del]

definition bisect_right :: "ustr list \<Rightarrow> ustr \<Rightarrow> nat" where
  "bisect_right a x = bisect_loop a x 0 (length a)"

text \<open>The loop over the index; the argument is one more than \<open>idx\<close>.\<close>

fun lookup_loop :: "series list \<Rightarrow> ustr \<Rightarrow> nat \<Rightarrow> ustr option option" where
  "lookup_loop rows p 0 = None"
| "lookup_loop rows p (Suc idx) =
     (let (start, stop, cc) = rows ! idx;
          ts = take (length p) start;
          te = take (length p) stop
      in if ts \<le> p \<and> p \<le> te then Some cc
         else if ts < p then None
         else lookup_loop rows p idx)"

definition range_lookup :: "series list \<Rightarrow> ustr \<Rightarrow> ustr option option" where
  "range_lookup rows p = lookup_loop rows p (bisect_right (map fst rows) (p @ u ''~''))"

section \<open>Resolving a call sign\<close>

definition UNRESOLVABLE_SUFFIXES :: "ustr list" where
  "UNRESOLVABLE_SUFFIXES = [u ''MM'', u ''AM'']"

definition strip_suffix :: "unicode \<Rightarrow> ustr \<Rightarrow> ustr option" where
  "strip_suffix U callsign =
     (if 47 \<notin> set callsign then Some callsign
      else
        (let parts = split_on 47 callsign in
         if py_upper U (last parts) \<in> set UNRESOLVABLE_SUFFIXES then None
         else if length parts = 2 \<and> length (parts ! 0) < length (parts ! 1) then Some (parts ! 0)
         else Some (parts ! 0)))"

text \<open>\<open>str.isdigit\<close>; the argument \<open>D\<close> is its table beyond ASCII.\<close>

definition py_isdigit :: "(nat \<Rightarrow> bool) \<Rightarrow> nat \<Rightarrow> bool" where
  "py_isdigit D c \<longleftrightarrow> (if c < 128 then is_dec c else D c)"

text \<open>The match of \<open>^([0-9][A-Z]{1,2})\<close>.\<close>

definition is_capital :: "nat \<Rightarrow> bool" where
  "is_capital c \<longleftrightarrow> 65 \<le> c \<and> c \<le> 90"

fun digit_letters :: "ustr \<Rightarrow> ustr option" where
  "digit_letters (d # l # cs) =
     (if is_dec d \<and> is_capital l then Some (d # l # takeWhile is_capital (take 1 cs)) else None)"
| "digit_letters _ = None"

definition prefix_candidates :: "ustr \<Rightarrow> nat \<Rightarrow> ustr list" where
  "prefix_candidates base digit_pos =
     (if digit_pos = 0
      then (let c = (case digit_letters base of Some m \<Rightarrow> [m] | None \<Rightarrow> [])
            in if [hd base] \<notin> set c then c @ [[hd base]] else c)
      else (let letter_prefix = take digit_pos base;
                c = (if length letter_prefix \<le> 3 then [letter_prefix] else []);
                with_digit = take (digit_pos + 1) base
            in if length with_digit \<le> 3 \<and> with_digit \<notin> set c then with_digit # c else c))"

fun first_found :: "series list \<Rightarrow> ustr list \<Rightarrow> ustr option" where
  "first_found rows [] = None"
| "first_found rows (c # cs) =
     (case range_lookup rows c of Some cc \<Rightarrow> cc | None \<Rightarrow> first_found rows cs)"

text \<open>The candidates have different lengths, so the order a Python set gives them does not matter.\<close>

definition lookup_prefix :: "unicode \<Rightarrow> (nat \<Rightarrow> bool) \<Rightarrow> series list \<Rightarrow> ustr \<Rightarrow> ustr option" where
  "lookup_prefix U D rows call =
     (let callsign = py_strip U (py_upper U call) in
      if callsign = [] then None
      else
        (case strip_suffix U callsign of
           None \<Rightarrow> None
         | Some base \<Rightarrow>
             if list_ex (py_isdigit D) base
             then first_found rows
                    (sort_key (\<lambda>c. - int (length c))
                      (remdups (prefix_candidates base (length (takeWhile (\<lambda>c. \<not> py_isdigit D c) base)))))
             else None))"

section \<open>The table is in order\<close>

text \<open>
  The checks run over the tables once: that a name or a series is in the other table is one
  rewrite rule for each of its entries.
\<close>

definition known_name :: "string \<Rightarrow> bool" where
  "known_name n \<longleftrightarrow> map_of ITU_NAME_TO_ISO n \<noteq> None"

lemma known_names: "list_all (\<lambda>(n, _). known_name n) ITU_NAME_TO_ISO"
  by (auto simp: list_all_iff known_name_def map_of_eq_None_iff intro: rev_image_eqI)

lemmas known_names_each = known_names [unfolded ITU_NAME_TO_ISO_def list.pred_inject prod.case]

lemma names_known: "list_all (\<lambda>(_, n). known_name n) ITU_RAW_DATA"
  unfolding ITU_RAW_DATA_def list.pred_inject prod.case by (simp only: known_names_each list.pred_inject simp_thms)

text \<open>The entry of the series from \<open>s\<close> to \<open>t\<close>.\<close>

definition entry_of :: "string \<times> string \<Rightarrow> string" where
  "entry_of x = (case x of (s, t) \<Rightarrow> s @ '' - '' @ t)"

definition listed :: "string \<Rightarrow> bool" where
  "listed r \<longleftrightarrow> r \<in> entry_of ` set SERIES_IN_ORDER"

definition in_raw :: "string \<Rightarrow> bool" where
  "in_raw r \<longleftrightarrow> r \<in> fst ` set ITU_RAW_DATA"

lemma entries_listed: "list_all (\<lambda>(s, t). listed (s @ '' - '' @ t)) SERIES_IN_ORDER"
  by (auto simp: list_all_iff listed_def entry_of_def intro: rev_image_eqI)

lemma raw_in_raw: "list_all (\<lambda>(r, _). in_raw r) ITU_RAW_DATA"
  by (auto simp: list_all_iff in_raw_def intro: rev_image_eqI)

lemmas entries_listed_each =
  entries_listed [unfolded SERIES_IN_ORDER_def list.pred_inject prod.case append_Cons append_Nil]
lemmas raw_in_raw_each = raw_in_raw [unfolded ITU_RAW_DATA_def list.pred_inject prod.case]

lemma raw_listed: "list_all (\<lambda>(r, _). listed r) ITU_RAW_DATA"
  unfolding ITU_RAW_DATA_def list.pred_inject prod.case
  by (simp only: entries_listed_each list.pred_inject simp_thms)

lemma listed_raw: "list_all (\<lambda>x. in_raw (entry_of x)) SERIES_IN_ORDER"
  unfolding SERIES_IN_ORDER_def list.pred_inject prod.case entry_of_def append_Cons append_Nil
  by (simp only: raw_in_raw_each list.pred_inject simp_thms)

lemma lengths: "length ITU_RAW_DATA = 313" "length SERIES_IN_ORDER = 313"
  unfolding ITU_RAW_DATA_def SERIES_IN_ORDER_def by simp_all

text \<open>Three characters at each end, capital letters and digits, and no series reaches the next.\<close>

definition sign_char :: "nat \<Rightarrow> bool" where
  "sign_char c \<longleftrightarrow> is_dec c \<or> is_capital c"

fun in_sequence :: "ustr \<Rightarrow> (string \<times> string) list \<Rightarrow> bool" where
  "in_sequence p [] \<longleftrightarrow> True"
| "in_sequence p ((s, t) # rest) \<longleftrightarrow>
     p < u s \<and> u s \<le> u t \<and> length s = 3 \<and> length t = 3 \<and>
     list_all sign_char (u s) \<and> list_all sign_char (u t) \<and> in_sequence (u t) rest"

lemma series_in_sequence: "in_sequence [] SERIES_IN_ORDER"
  by code_simp

lemma in_sequenceD:
  "in_sequence p xs \<Longrightarrow>
   sorted_wrt (\<lambda>x y. u (snd x) < u (fst y)) xs \<and>
   (\<forall>x \<in> set xs. p < u (fst x) \<and> u (fst x) \<le> u (snd x) \<and> length (fst x) = 3 \<and> length (snd x) = 3 \<and>
      list_all sign_char (u (fst x)) \<and> list_all sign_char (u (snd x)))"
proof (induction p xs rule: in_sequence.induct)
  case (2 p s t rest)
  then have i: "in_sequence (u t) rest" and p: "p < u s" "u s \<le> u t" by simp_all
  have "p < u (fst x)" if "x \<in> set rest" for x
    using "2.IH" [OF i] that p by (meson less_le_trans less_trans)
  with "2.IH" [OF i] 2 show ?case by auto
qed simp

lemmas series_facts = in_sequenceD [OF series_in_sequence]

lemma py_strip_id: "\<forall>c \<in> set s. \<not> py_space U c \<Longrightarrow> py_strip U s = s"
proof -
  assume a: "\<forall>c \<in> set s. \<not> py_space U c"
  have d: "dropWhile (py_space U) t = t" if "\<forall>c \<in> set t. \<not> py_space U c" for t
    using that by (cases t) simp_all
  from d [of s] d [of "rev s"] a show ?thesis by (simp add: py_strip_def)
qed

lemma sign_char_not_space: "list_all sign_char s \<Longrightarrow> \<forall>c \<in> set s. \<not> py_space U c"
  by (auto simp: list_all_iff sign_char_def is_capital_def py_space_def)

lemma index_from_pre:
  assumes "pat \<noteq> []" and "hd pat \<notin> set pre"
  shows "index_from pat (pre @ pat @ rest) 0 = int (length pre)"
proof -
  let ?s = "pre @ pat @ rest"
  have here: "occurs_at pat ?s (length pre)" by (simp add: occurs_at_def)
  have none: "length pre \<le> k" if "occurs_at pat ?s k" for k
  proof (rule ccontr)
    assume k: "\<not> length pre \<le> k"
    then have "hd (take (length pat) (drop k ?s)) = pre ! k"
      using assms(1) by (simp add: hd_drop_conv_nth nth_append)
    with that k assms(2) nth_mem [of k pre] show False by (simp add: occurs_at_def)
  qed
  from index_from_cases [of pat ?s 0] here none show ?thesis by (metis le0 le_antisym leI of_nat_eq_iff)
qed

lemma range_ends_entry:
  assumes "length s = 3" and "list_all sign_char (u s)" and "list_all sign_char (u t)"
  shows "range_ends U (u (entry_of (s, t))) = (u s, u t)"
proof -
  have pat: "u '' - '' = [32, 45, 32]" by (simp add: u_def)
  have e: "u (entry_of (s, t)) = u s @ [32, 45, 32] @ u t"
    by (simp add: entry_of_def u_def)
  have "32 \<notin> set (u s)"
    using assms(2) by (auto simp: list_all_iff sign_char_def is_capital_def)
  then have "index_from (u '' - '') (u (entry_of (s, t))) 0 = int 3"
    using index_from_pre [of "[32, 45, 32]" "u s" "u t"] assms(1) by (simp only: pat e) simp
  then show ?thesis
    using assms by (simp add: range_ends_def Let_def e py_strip_id [OF sign_char_not_space])
qed

lemma read_ranges_ends:
  "list_all (\<lambda>(_, n). map_of codes n \<noteq> None) raw \<Longrightarrow>
   \<exists>rows. read_ranges U codes raw = Inr rows \<and>
     map (\<lambda>(s, t, _). (s, t)) rows = map (\<lambda>(r, _). range_ends U (u r)) raw"
proof (induction raw)
  case (Cons x raw)
  then show ?case by (cases x) (auto split: prod.splits)
qed simp

text \<open>The series of a table: in order, no two overlap, and the starts hold no tilde.\<close>

definition table_ok :: "series list \<Rightarrow> bool" where
  "table_ok rows \<longleftrightarrow>
     sorted_wrt (\<lambda>(_, t, _) (s, _, _). t < s) rows \<and>
     (\<forall>(s, t, _) \<in> set rows. s \<le> t \<and> list_all (\<lambda>c. c < 126) s)"

lemma raw_series_set:
  "(\<lambda>(r, _). range_ends U (u r)) ` set ITU_RAW_DATA = map_prod u u ` set SERIES_IN_ORDER"
proof -
  have names: "fst ` set ITU_RAW_DATA = entry_of ` set SERIES_IN_ORDER"
    using raw_listed listed_raw by (auto simp: list_all_iff listed_def in_raw_def)
  have "(\<lambda>(r, _). range_ends U (u r)) ` set ITU_RAW_DATA = (\<lambda>r. range_ends U (u r)) ` fst ` set ITU_RAW_DATA"
    by (simp add: image_image case_prod_beta)
  also have "\<dots> = (\<lambda>x. range_ends U (u (entry_of x))) ` set SERIES_IN_ORDER"
    by (simp add: names image_image)
  also have "\<dots> = map_prod u u ` set SERIES_IN_ORDER"
    using series_facts by (intro image_cong) (auto simp: range_ends_entry)
  finally show ?thesis .
qed

lemma sorted_wrt_apart:
  assumes "sorted_wrt P xs" and "x \<in> set xs" and "y \<in> set xs"
  shows "x = y \<or> P x y \<or> P y x"
  using assms by (induction xs) auto

lemma built:
  obtains rows where "build_ranges U = Inr rows" and "table_ok rows"
proof -
  have "list_all (\<lambda>(_, n). map_of ITU_NAME_TO_ISO n \<noteq> None) ITU_RAW_DATA"
    using names_known by (simp only: known_name_def)
  then obtain raw where raw: "read_ranges U ITU_NAME_TO_ISO ITU_RAW_DATA = Inr raw"
      "map (\<lambda>(s, t, _). (s, t)) raw = map (\<lambda>(r, _). range_ends U (u r)) ITU_RAW_DATA"
    using read_ranges_ends by blast
  let ?ends = "\<lambda>(s, t, _). (s, t)" and ?rows = "sort_key fst raw"
  have set: "set (map ?ends raw) = map_prod u u ` set SERIES_IN_ORDER"
    unfolding raw(2) using raw_series_set by simp
  have apart: "x = y \<or> snd x < fst y \<or> snd y < fst x"
    if "x \<in> set (map ?ends raw)" "y \<in> set (map ?ends raw)" for x y
    using that sorted_wrt_apart [OF conjunct1 [OF series_facts]] unfolding set by fastforce
  have each: "fst x \<le> snd x \<and> list_all sign_char (fst x)" if "x \<in> set (map ?ends raw)" for x
    using that series_facts unfolding set by auto
  have inj: "inj_on (map_prod u u) (set SERIES_IN_ORDER)"
    by (auto intro!: inj_onI)
  have "distinct SERIES_IN_ORDER"
    using sorted_wrt_iff_nth_less [of "\<lambda>x y. u (snd x) < u (fst y)" SERIES_IN_ORDER] series_facts
    by (auto simp: distinct_conv_nth) (metis leD linorder_neqE_nat nth_mem)
  then have "card (set (map ?ends raw)) = length (map ?ends raw)"
    unfolding set using lengths arg_cong [OF raw(2), of length] by (simp add: card_image [OF inj] distinct_card)
  then have "distinct (map ?ends raw)" by (rule card_distinct)
  then have dist: "distinct (map ?ends ?rows)"
  proof -
    have "mset (map ?ends ?rows) = mset (map ?ends raw)" by (simp only: mset_map mset_sort)
    from mset_eq_imp_distinct_iff [OF this] \<open>distinct (map ?ends raw)\<close> show ?thesis by blast
  qed
  have "sorted_wrt (\<lambda>(_, t, _) (s, _, _). t < s) ?rows"
    unfolding sorted_wrt_iff_nth_less
  proof (intro allI impI)
    fix i j
    assume ij: "i < j" "j < length ?rows"
    let ?x = "?ends (?rows ! i)" and ?y = "?ends (?rows ! j)"
    have mem: "?x \<in> set (map ?ends raw)" "?y \<in> set (map ?ends raw)"
      using ij nth_mem [of i ?rows] nth_mem [of j ?rows] by simp_all
    have "?x \<noteq> ?y" using ij dist by (auto simp: distinct_conv_nth)
    moreover have "fst ?x \<le> fst ?y"
      using sorted_nth_mono [OF sorted_sort_key [of fst raw], of i j] ij by (auto simp: case_prod_beta)
    ultimately have "snd ?x < fst ?y" using apart [OF mem] each [OF mem(2)] by auto
    then show "(\<lambda>(_, t, _) (s, _, _). t < s) (?rows ! i) (?rows ! j)" by (auto split: prod.splits)
  qed
  moreover have "s \<le> t \<and> list_all (\<lambda>c. c < 126) s" if "(s, t, cc) \<in> set ?rows" for s t cc
  proof -
    have "(s, t) \<in> set (map ?ends raw)" using that by force
    from each [OF this] show ?thesis
      by (auto simp: list_all_iff sign_char_def is_capital_def)
  qed
  ultimately have "table_ok ?rows" by (auto simp: table_ok_def)
  with that [of ?rows] raw(1) show thesis by (simp add: build_ranges_def)
qed

section \<open>Bisection\<close>

lemma bisect_loop_bounds:
  assumes "sorted a" and "lo \<le> hi" and "hi \<le> length a"
    and "\<forall>j < lo. a ! j \<le> x" and "\<forall>j. hi \<le> j \<longrightarrow> j < length a \<longrightarrow> x < a ! j"
  shows "bisect_loop a x lo hi \<le> length a \<and> (\<forall>j < bisect_loop a x lo hi. a ! j \<le> x) \<and>
    (\<forall>j. bisect_loop a x lo hi \<le> j \<longrightarrow> j < length a \<longrightarrow> x < a ! j)"
  using assms
proof (induction a x lo hi rule: bisect_loop.induct)
  case (1 a x lo hi)
  show ?case
  proof (cases "lo < hi")
    case False
    then have "bisect_loop a x lo hi = lo" by (subst bisect_loop.simps) simp
    with False "1.prems" show ?thesis by simp
  next
    case True
    define mid where "mid = (lo + hi) div 2"
    have mid: "lo \<le> mid" "mid < hi" using True by (auto simp: mid_def)
    have step: "bisect_loop a x lo hi =
        (if x < a ! mid then bisect_loop a x lo mid else bisect_loop a x (mid + 1) hi)"
      using True by (subst bisect_loop.simps) (simp add: mid_def Let_def)
    show ?thesis
    proof (cases "x < a ! mid")
      case x: True
      have above: "\<forall>j. mid \<le> j \<longrightarrow> j < length a \<longrightarrow> x < a ! j"
        using x sorted_nth_mono [OF "1.prems"(1)] by (meson less_le_trans)
      have "mid \<le> length a" using mid "1.prems"(3) by simp
      note ih = "1.IH"(1) [OF True mid_def x "1.prems"(1) mid(1) this "1.prems"(4) above]
      show ?thesis unfolding step if_P [OF x] by (rule ih)
    next
      case x: False
      have "a ! j \<le> x" if "j < mid + 1" for j
        using x sorted_nth_mono [OF "1.prems"(1), of j mid] that mid "1.prems"(3) by fastforce
      then have below: "\<forall>j < mid + 1. a ! j \<le> x" by blast
      have "mid + 1 \<le> hi" using mid by simp
      note ih = "1.IH"(2) [OF True mid_def x "1.prems"(1) this "1.prems"(3) below "1.prems"(5)]
      show ?thesis unfolding step if_not_P [OF x] by (rule ih)
    qed
  qed
qed

lemma bisect_right_bounds:
  assumes "sorted a"
  shows "bisect_right a x \<le> length a" and "j < bisect_right a x \<Longrightarrow> a ! j \<le> x"
    and "bisect_right a x \<le> j \<Longrightarrow> j < length a \<Longrightarrow> x < a ! j"
  using bisect_loop_bounds [OF assms, of 0 "length a" x] by (simp_all add: bisect_right_def)

text \<open>Comparing with a prefix, and with it and a tilde.\<close>

lemma take_le_prefix: "s \<le> p @ q \<Longrightarrow> take (length p) s \<le> (p :: ustr)"
proof (induction p arbitrary: s)
  case (Cons c p)
  then show ?case by (cases s) auto
qed simp

lemma tilde_less: "p @ [126] < s \<Longrightarrow> list_all (\<lambda>c. c < 126) s \<Longrightarrow> (p :: ustr) < take (length p) s"
proof (induction p arbitrary: s)
  case Nil
  then show ?case by (cases s) auto
next
  case (Cons c p)
  then show ?case by (cases s) auto
qed

lemma take_mono_lex: "s \<le> t \<Longrightarrow> take n s \<le> take n (t :: ustr)"
proof (induction n arbitrary: s t)
  case (Suc n)
  then show ?case by (cases s; cases t) auto
qed simp

section \<open>Linear search\<close>

fun meets :: "ustr \<Rightarrow> series \<Rightarrow> bool" where
  "meets p (start, stop, cc) \<longleftrightarrow> take (length p) start \<le> p \<and> p \<le> take (length p) stop"

definition linear_lookup :: "series list \<Rightarrow> ustr \<Rightarrow> ustr option option" where
  "linear_lookup rows p = map_option (\<lambda>(_, _, cc). cc) (find (meets p) (rev rows))"

lemma find_append_none: "\<forall>x \<in> set xs. \<not> P x \<Longrightarrow> find P (xs @ ys) = find P ys"
  by (induction xs) simp_all

lemma find_rev_last:
  assumes "i < length xs" and "P (xs ! i)" and "\<And>j. i < j \<Longrightarrow> j < length xs \<Longrightarrow> \<not> P (xs ! j)"
  shows "find P (rev xs) = Some (xs ! i)"
proof -
  have "rev xs = rev (drop (Suc i) xs) @ xs ! i # rev (take i xs)"
    using id_take_nth_drop [OF assms(1)] by (metis append.assoc append_Cons append_Nil rev.simps(2) rev_append)
  moreover have "\<forall>x \<in> set (drop (Suc i) xs). \<not> P x"
    using assms(1,3) by (auto simp: in_set_conv_nth)
  then have "find P (rev (drop (Suc i) xs) @ ys) = find P ys" for ys
    by (simp add: find_append_none)
  ultimately show ?thesis using assms(2) by simp
qed

lemma table_starts:
  assumes "table_ok rows"
  shows "sorted (map fst rows)"
  unfolding sorted_wrt_iff_nth_less
proof (intro allI impI)
  fix i j
  assume ij: "i < j" "j < length (map fst rows)"
  obtain s t cc s' t' cc' where r: "rows ! i = (s, t, cc)" "rows ! j = (s', t', cc')"
    by (metis prod_cases3)
  have "t < s'" using assms ij r by (force simp: table_ok_def sorted_wrt_iff_nth_less)
  moreover have "s \<le> t" using assms ij r nth_mem [of i rows] by (auto simp: table_ok_def)
  ultimately show "map fst rows ! i \<le> map fst rows ! j" using ij r by simp
qed

text \<open>A series that starts no later than the prefix decides: it meets the prefix, or none before it does.\<close>

lemma row_facts:
  assumes "table_ok rows" and "k < length rows" and "rows ! k = (s, t, cc)"
  shows "s \<le> t" and "list_all (\<lambda>c. c < 126) s"
  using assms nth_mem [of k rows] by (auto simp: table_ok_def)

lemma not_met_ends:
  assumes "table_ok rows" and "i < length rows" and "rows ! i = (s, t, cc)" and "s \<le> p @ [126]"
    and "\<not> meets p (rows ! i)"
  shows "take (length p) t < p" and "take (length p) s < p"
proof -
  show t: "take (length p) t < p" using take_le_prefix [OF assms(4)] assms(3,5) by auto
  have "take (length p) s \<le> take (length p) t"
    by (rule take_mono_lex [OF row_facts(1) [OF assms(1-3)]])
  then show "take (length p) s < p" using t by (rule le_less_trans)
qed

lemma not_met_before:
  assumes ok: "table_ok rows" and i: "i < length rows" "rows ! i = (s, t, cc)" and le: "s \<le> p @ [126]"
    and no: "\<not> meets p (rows ! i)" and k: "k \<le> i"
  shows "\<not> meets p (rows ! k)"
proof (cases "k = i")
  case False
  obtain s' t' cc' where s': "rows ! k = (s', t', cc')" by (metis prod_cases3)
  have "k < i" using k False by simp
  from sorted_wrt_nth_less [OF conjunct1 [OF ok [unfolded table_ok_def]] this i(1)] i(2) s'
  have "t' \<le> t" using row_facts(1) [OF ok i] by auto
  with take_mono_lex [of t' t "length p"] not_met_ends(1) [OF ok i le no] s' show ?thesis by auto
qed (use no in simp)

lemma range_lookup_is_linear:
  assumes ok: "table_ok rows"
  shows "range_lookup rows p = linear_lookup rows p"
proof -
  define r where "r = bisect_right (map fst rows) (p @ u ''~'')"
  have tilde: "u ''~'' = [126]" by (simp add: u_def)
  note b = bisect_right_bounds [OF table_starts [OF ok], where x = "p @ u ''~''", folded r_def]
  have above: "\<not> meets p (rows ! k)" if k: "r \<le> k" "k < length rows" for k
  proof -
    obtain s t cc where s: "rows ! k = (s, t, cc)" by (metis prod_cases3)
    have "p @ [126] < s" using b(3) [OF k(1)] k(2) s by (simp add: tilde)
    from tilde_less [OF this row_facts(2) [OF ok k(2) s]] s show ?thesis by auto
  qed
  show ?thesis
  proof (cases r)
    case 0
    then have "find (meets p) (rev rows) = None"
      using above unfolding find_None_iff by (metis in_set_conv_nth le0 set_rev)
    with 0 show ?thesis by (simp add: range_lookup_def linear_lookup_def flip: r_def)
  next
    case (Suc i)
    obtain s t cc where s: "rows ! i = (s, t, cc)" by (metis prod_cases3)
    have i: "i < length rows" using b(1) Suc by simp
    have le: "s \<le> p @ [126]" using b(2) [of i] Suc i s by (simp add: tilde)
    show ?thesis
    proof (cases "meets p (rows ! i)")
      case True
      have "find (meets p) (rev rows) = Some (rows ! i)"
        using True Suc i above by (intro find_rev_last) auto
      with True Suc s show ?thesis by (simp add: range_lookup_def linear_lookup_def flip: r_def)
    next
      case False
      have "\<not> meets p (rows ! k)" if "k < length rows" for k
        using above [OF _ that] not_met_before [OF ok i s le False, of k] Suc by (cases "r \<le> k") auto
      then have "find (meets p) (rev rows) = None"
        unfolding find_None_iff by (metis in_set_conv_nth set_rev)
      moreover have "lookup_loop rows p r = None"
        using not_met_ends [OF ok i s le False] Suc s by (simp add: Let_def not_le)
      ultimately show ?thesis by (simp add: range_lookup_def linear_lookup_def flip: r_def)
    qed
  qed
qed

section \<open>Suffixes\<close>

text \<open>Characters of a call sign with suffixes as they are after \<open>upper\<close> and \<open>strip\<close>.\<close>

definition call_char :: "nat \<Rightarrow> bool" where
  "call_char c \<longleftrightarrow> 32 < c \<and> c < 97"

lemma call_chars:
  assumes "list_all call_char s"
  shows "py_upper U s = s" and "py_strip U s = s"
proof -
  show "py_upper U s = s"
    using assms by (induction s) (auto simp: py_upper_def upper_char_def call_char_def)
  show "py_strip U s = s"
    using assms by (intro py_strip_id) (auto simp: list_all_iff call_char_def py_space_def)
qed

lemma last_split_chars: "list_all P s \<Longrightarrow> list_all P (last (split_on c s))"
  using set_split_on [of c s] last_in_set [OF split_on_not_Nil, of c s] unfolding list_all_iff by blast

section \<open>Properties\<close>

text \<open>
  Property C22.  The table is built without error, and looking a prefix up by bisection with the
  early exit of the loop gives what a search of all series, from the last to the first, gives for
  the first series whose ends, cut to the length of the prefix, enclose it.
\<close>
theorem range_lookup_linear:
  "\<exists>rows. build_ranges U = Inr rows \<and> (\<forall>p. range_lookup rows p = linear_lookup rows p)"
  using built [of U] range_lookup_is_linear by metis

text \<open>
  Property C30.  What follows the first slash of a call sign changes nothing, unless its last part
  is MM or AM: then there is no answer.
\<close>
theorem lookup_prefix_suffix:
  assumes "list_all call_char base" and "base \<noteq> []" and "47 \<notin> set base" and "list_all call_char rest"
  shows "lookup_prefix U D rows (base @ [47] @ rest) =
    (if last (split_on 47 rest) \<in> {u ''MM'', u ''AM''} then None else lookup_prefix U D rows base)"
proof -
  let ?c = "base @ [47] @ rest"
  have c: "list_all call_char ?c" using assms by (simp add: call_char_def)
  have "split_on 47 ?c = base # split_on 47 rest"
    using split_on_append [OF assms(3)] by simp
  then have "strip_suffix U ?c =
      (if last (split_on 47 rest) \<in> {u ''MM'', u ''AM''} then None else Some base)"
    using call_chars(1) [OF last_split_chars [OF assms(4)]]
    by (simp add: strip_suffix_def UNRESOLVABLE_SUFFIXES_def Let_def)
  moreover have "strip_suffix U base = Some base" using assms(3) by (simp add: strip_suffix_def)
  ultimately show ?thesis
    using assms(2) by (simp add: lookup_prefix_def Let_def call_chars [OF c] call_chars [OF assms(1)] del: append_assoc append_Cons)
qed

theorem lookup_prefix_suffix_witness:
  "\<forall>U D. lookup_prefix U D [(u ''WAA'', u ''WZZ'', Some (u ''US''))] (u ''W1AW/7/P'') = Some (u ''US'') \<and>
   lookup_prefix U D [(u ''WAA'', u ''WZZ'', Some (u ''US''))] (u ''W1AW/MM'') = None"
proof (intro allI)
  fix U D
  let ?rows = "[(u ''WAA'', u ''WZZ'', Some (u ''US''))]"
  have "u ''W1AW/7/P'' = u ''W1AW'' @ [47] @ u ''7/P''" "u ''W1AW/MM'' = u ''W1AW'' @ [47] @ u ''MM''"
    by (simp_all add: u_def)
  moreover have "list_all call_char (u ''W1AW'')" "u ''W1AW'' \<noteq> []" "47 \<notin> set (u ''W1AW'')"
      "list_all call_char (u ''7/P'')" "list_all call_char (u ''MM'')"
    by (simp_all add: u_def call_char_def)
  moreover have "last (split_on 47 (u ''7/P'')) = u ''P''" "last (split_on 47 (u ''MM'')) = u ''MM''"
    by (simp_all add: u_def)
  moreover have "lookup_prefix U D ?rows (u ''W1AW'') = Some (u ''US'')" by code_simp
  ultimately show "lookup_prefix U D ?rows (u ''W1AW/7/P'') = Some (u ''US'') \<and>
      lookup_prefix U D ?rows (u ''W1AW/MM'') = None"
    using lookup_prefix_suffix [of "u ''W1AW''" "u ''7/P''" U D ?rows]
      lookup_prefix_suffix [of "u ''W1AW''" "u ''MM''" U D ?rows]
    by simp
qed

end
